theory Spec2Isabelle
  imports Main
begin

section \<open>GitHub permission provider: data model\<close>

text \<open>
  The embedding follows \<^verbatim>\<open>enterprise/internal/authz/github/github.go\<close>.
  Identifiers on the code host are strings (\<^verbatim>\<open>extsvc.RepoID\<close>,
  \<^verbatim>\<open>extsvc.AccountID\<close>).
\<close>

type_synonym RepoID = string
type_synonym AccountID = string

text \<open>
  Go errors are values. \<open>New\<close>, \<open>Errorf\<close> and \<open>Wrap\<close> are the three ways the provider
  builds one; \<open>NotFound\<close> is the code host's not-found answer. A client may answer with
  any of them.
\<close>

datatype error =
    NotFound
  | New string
  | Errorf string "string list"
  | Wrap error string

text \<open>
  Modelled from the spec: \<^verbatim>\<open>github.IsNotFound\<close> is not part of the sources at hand.
  It recognises a not-found answer, also below the messages wrapped around it.
\<close>

fun IsNotFound :: "error \<Rightarrow> bool" where
  "IsNotFound NotFound = True"
| "IsNotFound (Wrap e msg) = IsNotFound e"
| "IsNotFound e = False"

record FetchPermsOptions =
  InvalidateCaches :: bool

record ExternalUserPermissions =
  Exacts :: "RepoID list"

subsection \<open>What the code host returns\<close>

text \<open>
  Modelled from the spec: the types of the directory client's answers are declared in
  the client package, which is not part of the sources at hand. Only the fields the
  provider reads are kept. A default repository permission either grants read to all
  members of the organization or is restrictive.
\<close>

record Repository =
  ID :: string

record Collaborator =
  DatabaseID :: int

datatype DefaultPermission = GrantsReadToAllMembers | Restrictive

record Org =
  Login :: string

record OrgDetails = Org +
  DefaultRepositoryPermission :: DefaultPermission

record OrgMembership =
  State :: string
  Role :: string

record OrgDetailsAndMembership =
  OrgDetails :: "OrgDetails option"
  OrgMembership :: "OrgMembership option"

record Team =
  Slug :: string
  ReposCount :: int
  Organization :: "Org option"

datatype Visibility = VisibilityAll | VisibilityPublic | VisibilityPrivate

datatype RepositoryAffiliation = AffiliationOwner | AffiliationCollaborator | AffiliationOrgMember

text \<open>\<open>AffiliationAny\<close> stands for the empty string the provider passes to ask for every
  collaborator.\<close>

datatype CollaboratorAffiliation = AffiliationAny | AffiliationOutside | AffiliationDirect

text \<open>
  Modelled from the spec: \<^verbatim>\<open>canViewOrgRepos\<close> is not part of the sources at hand. An
  organization counts as readable by its members exactly when its default repository
  permission grants read to all members.
\<close>

definition canViewOrgRepos :: "OrgDetailsAndMembership \<Rightarrow> bool" where
  "canViewOrgRepos org =
     (case OrgDetails org of
        None \<Rightarrow> False
      | Some d \<Rightarrow> DefaultRepositoryPermission d = GrantsReadToAllMembers)"

text \<open>\<^verbatim>\<open>strconv.FormatInt(n, 10)\<close>: the decimal digits of an integer, with a sign when
  it is negative.\<close>

fun decimal :: "nat \<Rightarrow> string" where
  "decimal n =
     (if n < 10 then [char_of (48 + n)]
      else decimal (n div 10) @ [char_of (48 + n mod 10)])"

definition FormatInt :: "int \<Rightarrow> string" where
  "FormatInt i = (if i < 0 then CHR ''-'' # decimal (nat (- i)) else decimal (nat i))"

subsection \<open>The directory client\<close>

text \<open>
  A page of a listing is what the client returns for one page number: the items, whether
  there is a next page, and an error or none. (The rate-limit cost some operations return
  as well is never read by the provider and is left out.) Items may come together with an
  error.
\<close>

type_synonym 'a page = "'a list \<times> bool \<times> error option"

text \<open>
  Modelled from the spec: the \<^verbatim>\<open>client\<close> interface is declared outside the sources at
  hand. The code host answers each operation as a function of the credential that asks
  and of the operation's arguments; a client is the code host together with the token it
  authenticates with, and \<open>WithToken\<close> is the same code host asked with another token.
\<close>

record host =
  affiliatedRepositories :: "string \<Rightarrow> Visibility \<Rightarrow> nat \<Rightarrow> RepositoryAffiliation list \<Rightarrow> Repository page"
  orgRepositories :: "string \<Rightarrow> string \<Rightarrow> nat \<Rightarrow> string \<Rightarrow> Repository page"
  teamRepositories :: "string \<Rightarrow> string \<Rightarrow> string \<Rightarrow> nat \<Rightarrow> Repository page"
  repositoryCollaborators :: "string \<Rightarrow> string \<Rightarrow> string \<Rightarrow> nat \<Rightarrow> CollaboratorAffiliation \<Rightarrow> Collaborator page"
  repositoryTeams :: "string \<Rightarrow> string \<Rightarrow> string \<Rightarrow> nat \<Rightarrow> Team page"
  organizationMembers :: "string \<Rightarrow> string \<Rightarrow> nat \<Rightarrow> bool \<Rightarrow> Collaborator page"
  teamMembers :: "string \<Rightarrow> string \<Rightarrow> string \<Rightarrow> nat \<Rightarrow> Collaborator page"
  userOrgsDetailsAndMembership :: "string \<Rightarrow> nat \<Rightarrow> OrgDetailsAndMembership page"
  userTeams :: "string \<Rightarrow> nat \<Rightarrow> Team page"
  getOrganization :: "string \<Rightarrow> string \<Rightarrow> OrgDetails option \<times> error option"

record client =
  codeHostAPI :: host
  token :: string

definition WithToken :: "client \<Rightarrow> string \<Rightarrow> client" where
  "WithToken c tok = c\<lparr>token := tok\<rparr>"

text \<open>
  Every request sent to the code host and every write to the group cache is recorded, in
  order, so that statements about which calls are made can be stated. A request is
  recorded with the token it was sent with.
\<close>

record cachedGroup =
  Org :: string
  Team :: string
  Repositories :: "RepoID list"
  Users :: "AccountID list"

datatype request =
    ReqListAffiliatedRepositories Visibility nat "RepositoryAffiliation list"
  | ReqListOrgRepositories string nat string
  | ReqListTeamRepositories string string nat
  | ReqListRepositoryCollaborators string string nat CollaboratorAffiliation
  | ReqListRepositoryTeams string string nat
  | ReqListOrganizationMembers string nat bool
  | ReqListTeamMembers string string nat
  | ReqGetAuthenticatedUserOrgsDetailsAndMembership nat
  | ReqGetAuthenticatedUserTeams nat
  | ReqGetOrganization string

datatype event =
    Request string request
  | SetGroup cachedGroup
  | InvalidateGroup cachedGroup

type_synonym trace = "event list"

definition ListAffiliatedRepositories ::
  "client \<Rightarrow> Visibility \<Rightarrow> nat \<Rightarrow> RepositoryAffiliation list \<Rightarrow> trace \<Rightarrow> Repository page \<times> trace" where
  "ListAffiliatedRepositories c visibility page affiliations tr =
     (affiliatedRepositories (codeHostAPI c) (token c) visibility page affiliations,
      tr @ [Request (token c) (ReqListAffiliatedRepositories visibility page affiliations)])"

definition ListOrgRepositories ::
  "client \<Rightarrow> string \<Rightarrow> nat \<Rightarrow> string \<Rightarrow> trace \<Rightarrow> Repository page \<times> trace" where
  "ListOrgRepositories c org page repoType tr =
     (orgRepositories (codeHostAPI c) (token c) org page repoType,
      tr @ [Request (token c) (ReqListOrgRepositories org page repoType)])"

definition ListTeamRepositories ::
  "client \<Rightarrow> string \<Rightarrow> string \<Rightarrow> nat \<Rightarrow> trace \<Rightarrow> Repository page \<times> trace" where
  "ListTeamRepositories c org team page tr =
     (teamRepositories (codeHostAPI c) (token c) org team page,
      tr @ [Request (token c) (ReqListTeamRepositories org team page)])"

definition ListRepositoryCollaborators ::
  "client \<Rightarrow> string \<Rightarrow> string \<Rightarrow> nat \<Rightarrow> CollaboratorAffiliation \<Rightarrow> trace \<Rightarrow> Collaborator page \<times> trace" where
  "ListRepositoryCollaborators c owner name page affiliation tr =
     (repositoryCollaborators (codeHostAPI c) (token c) owner name page affiliation,
      tr @ [Request (token c) (ReqListRepositoryCollaborators owner name page affiliation)])"

definition ListRepositoryTeams ::
  "client \<Rightarrow> string \<Rightarrow> string \<Rightarrow> nat \<Rightarrow> trace \<Rightarrow> Team page \<times> trace" where
  "ListRepositoryTeams c owner name page tr =
     (repositoryTeams (codeHostAPI c) (token c) owner name page,
      tr @ [Request (token c) (ReqListRepositoryTeams owner name page)])"

definition ListOrganizationMembers ::
  "client \<Rightarrow> string \<Rightarrow> nat \<Rightarrow> bool \<Rightarrow> trace \<Rightarrow> Collaborator page \<times> trace" where
  "ListOrganizationMembers c owner page adminsOnly tr =
     (organizationMembers (codeHostAPI c) (token c) owner page adminsOnly,
      tr @ [Request (token c) (ReqListOrganizationMembers owner page adminsOnly)])"

definition ListTeamMembers ::
  "client \<Rightarrow> string \<Rightarrow> string \<Rightarrow> nat \<Rightarrow> trace \<Rightarrow> Collaborator page \<times> trace" where
  "ListTeamMembers c owner team page tr =
     (teamMembers (codeHostAPI c) (token c) owner team page,
      tr @ [Request (token c) (ReqListTeamMembers owner team page)])"

definition GetAuthenticatedUserOrgsDetailsAndMembership ::
  "client \<Rightarrow> nat \<Rightarrow> trace \<Rightarrow> OrgDetailsAndMembership page \<times> trace" where
  "GetAuthenticatedUserOrgsDetailsAndMembership c page tr =
     (userOrgsDetailsAndMembership (codeHostAPI c) (token c) page,
      tr @ [Request (token c) (ReqGetAuthenticatedUserOrgsDetailsAndMembership page)])"

definition GetAuthenticatedUserTeams ::
  "client \<Rightarrow> nat \<Rightarrow> trace \<Rightarrow> Team page \<times> trace" where
  "GetAuthenticatedUserTeams c page tr =
     (userTeams (codeHostAPI c) (token c) page,
      tr @ [Request (token c) (ReqGetAuthenticatedUserTeams page)])"

definition GetOrganization ::
  "client \<Rightarrow> string \<Rightarrow> trace \<Rightarrow> (OrgDetails option \<times> error option) \<times> trace" where
  "GetOrganization c login tr =
     (getOrganization (codeHostAPI c) (token c) login,
      tr @ [Request (token c) (ReqGetOrganization login)])"

subsection \<open>The group cache\<close>

text \<open>
  Modelled from the spec: the group cache (\<^verbatim>\<open>cachedGroups\<close> with \<^verbatim>\<open>getGroup\<close>,
  \<^verbatim>\<open>setGroup\<close>, \<^verbatim>\<open>invalidateGroup\<close> and \<^verbatim>\<open>key\<close>) is not part of the sources at
  hand. It is a mapping from a key derived from (organization, team) to the stored
  record. \<open>getGroup\<close> returns the stored record, or an empty, newly keyed one when
  there is none; \<open>setGroup\<close> upserts the full record; \<open>invalidateGroup\<close> removes the
  entry and clears the repository and user fields of the record it is given. Expiry by
  age is not modelled: an expired entry is an absent one, and every statement below
  holds for any content of the cache.
\<close>

type_synonym cachedGroups = "string \<rightharpoonup> cachedGroup"

definition key :: "cachedGroup \<Rightarrow> string" where
  "key g = (if Team g \<noteq> [] then Org g @ ''/'' @ Team g else Org g)"

definition getGroup :: "cachedGroups \<Rightarrow> string \<Rightarrow> string \<Rightarrow> cachedGroup \<times> bool" where
  "getGroup c org team =
     (let rawGroup = \<lparr>Org = org, Team = team, Repositories = [], Users = []\<rparr>
      in case c (key rawGroup) of
           None \<Rightarrow> (rawGroup, False)
         | Some cached \<Rightarrow> (cached, True))"

definition setGroup :: "cachedGroup \<Rightarrow> cachedGroups \<times> trace \<Rightarrow> cachedGroups \<times> trace" where
  "setGroup g = (\<lambda>(c, tr). (c(key g \<mapsto> g), tr @ [SetGroup g]))"

definition invalidateGroup ::
  "cachedGroup \<Rightarrow> cachedGroups \<times> trace \<Rightarrow> cachedGroup \<times> cachedGroups \<times> trace" where
  "invalidateGroup g =
     (\<lambda>(c, tr). (g\<lparr>Repositories := [], Users := []\<rparr>, c(key g := None), tr @ [InvalidateGroup g]))"

subsection \<open>The provider\<close>

text \<open>
  Modelled from the spec: \<^verbatim>\<open>extsvc.CodeHost\<close>, \<^verbatim>\<open>extsvc.Account\<close>,
  \<^verbatim>\<open>extsvc.Repository\<close> and the functions \<^verbatim>\<open>IsHostOfAccount\<close>,
  \<^verbatim>\<open>IsHostOfRepo\<close>, \<^verbatim>\<open>GetExternalAccountData\<close> and
  \<^verbatim>\<open>SplitRepositoryNameWithOwner\<close> are declared outside the sources at hand. An
  account or a repository belongs to a code host when both the kind of service and the
  service's identifier agree. The account data either fails to decode or decodes to a
  credential that may be absent. A fully-qualified repository name is owner/name.
\<close>

record CodeHost =
  ServiceID :: string
  ServiceType :: string
  Hostname :: string

record AccountSpec =
  AccountServiceType :: string
  AccountServiceID :: string
  AccountID :: string

record OAuthToken =
  AccessToken :: string

datatype AccountData = Undecodable error | Decoded "OAuthToken option"

record Account =
  AccountSpec :: AccountSpec
  AccountData :: AccountData

record ExternalRepoSpec =
  RepoSpecID :: string
  RepoServiceType :: string
  RepoServiceID :: string

record ExtRepository =
  URI :: string
  ExternalRepoSpec :: ExternalRepoSpec

definition IsHostOfAccount :: "CodeHost \<Rightarrow> Account \<Rightarrow> bool" where
  "IsHostOfAccount c account =
     (ServiceID c = AccountServiceID (AccountSpec account) \<and>
      ServiceType c = AccountServiceType (AccountSpec account))"

definition IsHostOfRepo :: "CodeHost \<Rightarrow> ExternalRepoSpec \<Rightarrow> bool" where
  "IsHostOfRepo c repo = (ServiceID c = RepoServiceID repo \<and> ServiceType c = RepoServiceType repo)"

fun GetExternalAccountData :: "AccountData \<Rightarrow> OAuthToken option \<times> error option" where
  "GetExternalAccountData (Undecodable e) = (None, Some e)"
| "GetExternalAccountData (Decoded tok) = (tok, None)"

definition SplitRepositoryNameWithOwner :: "string \<Rightarrow> error + (string \<times> string)" where
  "SplitRepositoryNameWithOwner nameWithOwner =
     (let owner = takeWhile (\<lambda>c. c \<noteq> CHR ''/'') nameWithOwner;
          rest = dropWhile (\<lambda>c. c \<noteq> CHR ''/'') nameWithOwner
      in if rest = [] \<or> owner = [] \<or> tl rest = [] \<or> CHR ''/'' \<in> set (tl rest)
         then Inl (Errorf ''invalid GitHub repository \"owner/name\" string: %q'' [nameWithOwner])
         else Inr (owner, tl rest))"

text \<open>\<^verbatim>\<open>strings.TrimPrefix\<close>\<close>

definition TrimPrefix :: "string \<Rightarrow> string \<Rightarrow> string" where
  "TrimPrefix s pre = (if take (length pre) s = pre then drop (length pre) s else s)"

text \<open>\<open>groupsCache\<close> is \<open>None\<close> when group caching is disabled (the nil pointer of the
  source), and the content of the cache otherwise.\<close>

record Provider =
  urn :: string
  client :: client
  codeHost :: CodeHost
  groupsCache :: "cachedGroups option"

section \<open>Loops\<close>

text \<open>
  The body of a loop either falls through to the next iteration with a new state, or
  executes a \<^verbatim>\<open>return\<close> of the enclosing function.
\<close>

datatype ('s, 'r) flow = Next 's | Return 'r

text \<open>
  \<^verbatim>\<open>for page := 1; hasNextPage; page++ { ... }\<close>, entered with
  \<^verbatim>\<open>hasNextPage = true\<close>: the body runs on the current page; it returns from the
  function, or it yields the new state and the new \<^verbatim>\<open>hasNextPage\<close>, and the loop goes on
  to the next page while that is true. A code host that always announces a next page
  makes the loop run forever: the value is then \<open>None\<close>. Otherwise the value says whether
  the loop was left normally (\<open>Inl\<close>, with the state) or by a return (\<open>Inr\<close>).
\<close>

partial_function (option) forPages ::
  "(nat \<Rightarrow> 's \<Rightarrow> ('s \<times> bool, 'r) flow) \<Rightarrow> nat \<Rightarrow> 's \<Rightarrow> ('s + 'r) option" where
  "forPages body page s =
     (case body page s of
        Return r \<Rightarrow> Some (Inr r)
      | Next (s', hasNextPage) \<Rightarrow>
          if hasNextPage then forPages body (page + 1) s' else Some (Inl s'))"

declare forPages.simps [code]

text \<open>\<^verbatim>\<open>for _, x := range xs { ... }\<close> with a body that may return from the function
  and may itself not terminate.\<close>

fun forRange :: "('a \<Rightarrow> 's \<Rightarrow> ('s, 'r) flow option) \<Rightarrow> 'a list \<Rightarrow> 's \<Rightarrow> ('s + 'r) option" where
  "forRange body [] s = Some (Inl s)"
| "forRange body (x # xs) s =
     (case body x s of
        None \<Rightarrow> None
      | Some (Return r) \<Rightarrow> Some (Inr r)
      | Some (Next s') \<Rightarrow> forRange body xs s')"

section \<open>FetchUserPerms\<close>

text \<open>The closure \<^verbatim>\<open>addRepoToUserPerms\<close> of \<^verbatim>\<open>fetchUserPermsByToken\<close>, on the two
  variables it captures: \<^verbatim>\<open>perms\<close> and \<^verbatim>\<open>seenRepos\<close>.\<close>

type_synonym userPerms = "ExternalUserPermissions \<times> RepoID set"

fun addRepoToUserPerms :: "RepoID list \<Rightarrow> userPerms \<Rightarrow> userPerms" where
  "addRepoToUserPerms [] (perms, seenRepos) = (perms, seenRepos)"
| "addRepoToUserPerms (repo # repos) (perms, seenRepos) =
     (if repo \<notin> seenRepos
      then addRepoToUserPerms repos (perms\<lparr>Exacts := Exacts perms @ [repo]\<rparr>, insert repo seenRepos)
      else addRepoToUserPerms repos (perms, seenRepos))"

text \<open>What \<^verbatim>\<open>fetchUserPermsByToken\<close> returns: the permissions, the error, and with them
  the content of the group cache and the trace when it returns.\<close>

type_synonym userPermsResult =
  "ExternalUserPermissions \<times> error option \<times> cachedGroups option \<times> trace"

text \<open>The body of the loop "Sync direct affiliations".\<close>

definition listReposForUser ::
  "Provider \<Rightarrow> client \<Rightarrow> RepositoryAffiliation list \<Rightarrow> nat \<Rightarrow> userPerms \<times> trace
     \<Rightarrow> ((userPerms \<times> trace) \<times> bool, userPermsResult) flow" where
  "listReposForUser p client' affiliations page =
     (\<lambda>(acc, tr).
        case ListAffiliatedRepositories client' VisibilityPrivate page affiliations tr of
          ((repos, hasNextPage, err), tr') \<Rightarrow>
            (case err of
               Some e \<Rightarrow> Return (fst acc, Some (Wrap e ''list repos for user''), groupsCache p, tr')
             | None \<Rightarrow>
                 Next ((fold (\<lambda>r. addRepoToUserPerms [ID r]) repos acc, tr'), hasNextPage)))"

subsection \<open>getUserAffiliatedGroups\<close>

text \<open>The closure \<^verbatim>\<open>syncGroup\<close> of \<^verbatim>\<open>getUserAffiliatedGroups\<close>, on \<^verbatim>\<open>groups\<close>,
  \<^verbatim>\<open>seenGroups\<close> and the cache.\<close>

type_synonym userGroups = "cachedGroup list \<times> string set \<times> cachedGroups \<times> trace"

definition userSyncGroup :: "FetchPermsOptions \<Rightarrow> string \<Rightarrow> string \<Rightarrow> userGroups \<Rightarrow> userGroups" where
  "userSyncGroup opts org team =
     (\<lambda>(groups, seenGroups, c, tr).
        if team \<noteq> [] \<and> team \<in> seenGroups then (groups, seenGroups, c, tr)
        else
          let (cachedPerms, exists) = getGroup c org team;
              (cachedPerms, c, tr) =
                (if exists \<and> InvalidateCaches opts then invalidateGroup cachedPerms (c, tr)
                 else (cachedPerms, c, tr))
          in (groups @ [cachedPerms], insert (key cachedPerms) seenGroups, c, tr))"

type_synonym userGroupsResult = "cachedGroup list \<times> error option \<times> cachedGroups \<times> trace"

text \<open>The bodies of the loops "Get orgs" and "Get teams". An organization that passes
  \<open>canViewOrgRepos\<close> has details, so its login can be read.\<close>

definition listOrgsForUser ::
  "client \<Rightarrow> FetchPermsOptions \<Rightarrow> nat \<Rightarrow> userGroups \<Rightarrow> (userGroups \<times> bool, userGroupsResult) flow" where
  "listOrgsForUser clientWithToken opts page =
     (\<lambda>(groups, seenGroups, c, tr).
        case GetAuthenticatedUserOrgsDetailsAndMembership clientWithToken page tr of
          ((orgs, hasNextPage, err), tr') \<Rightarrow>
            (case err of
               Some e \<Rightarrow> Return (groups, Some e, c, tr')
             | None \<Rightarrow>
                 Next (fold (\<lambda>org st.
                         if canViewOrgRepos org
                         then (case OrgDetails org of
                                 Some d \<Rightarrow> userSyncGroup opts (Login d) [] st
                               | None \<Rightarrow> st)
                         else st) orgs (groups, seenGroups, c, tr'),
                       hasNextPage)))"

definition listTeamsForUser ::
  "client \<Rightarrow> FetchPermsOptions \<Rightarrow> nat \<Rightarrow> userGroups \<Rightarrow> (userGroups \<times> bool, userGroupsResult) flow" where
  "listTeamsForUser clientWithToken opts page =
     (\<lambda>(groups, seenGroups, c, tr).
        case GetAuthenticatedUserTeams clientWithToken page tr of
          ((teams, hasNextPage, err), tr') \<Rightarrow>
            (case err of
               Some e \<Rightarrow> Return (groups, Some e, c, tr')
             | None \<Rightarrow>
                 Next (fold (\<lambda>team st.
                         case Organization team of
                           Some parent \<Rightarrow>
                             if ReposCount team > 0
                             then userSyncGroup opts (Login parent) (Slug team) st
                             else st
                         | None \<Rightarrow> st) teams (groups, seenGroups, c, tr'),
                       hasNextPage)))"

definition getUserAffiliatedGroups ::
  "cachedGroups \<Rightarrow> client \<Rightarrow> FetchPermsOptions \<Rightarrow> trace \<Rightarrow> userGroupsResult option" where
  "getUserAffiliatedGroups c clientWithToken opts tr =
     (case forPages (listOrgsForUser clientWithToken opts) 1 ([], {}, c, tr) of
        None \<Rightarrow> None
      | Some (Inr r) \<Rightarrow> Some r
      | Some (Inl st) \<Rightarrow>
          (case forPages (listTeamsForUser clientWithToken opts) 1 st of
             None \<Rightarrow> None
           | Some (Inr r) \<Rightarrow> Some r
           | Some (Inl (groups, seenGroups, c, tr)) \<Rightarrow> Some (groups, None, c, tr)))"

subsection \<open>fetchUserPermsByToken\<close>

text \<open>The body of the loop "Perform full sync" of one group: the listing is asked of
  \<^verbatim>\<open>p.client\<close>. On an error the repositories that came with the failing page are added
  to the permissions and the function returns; the cache is not written.\<close>

definition listReposForGroup ::
  "Provider \<Rightarrow> cachedGroups \<Rightarrow> bool \<Rightarrow> nat \<Rightarrow> cachedGroup \<times> userPerms \<times> trace
     \<Rightarrow> ((cachedGroup \<times> userPerms \<times> trace) \<times> bool, userPermsResult) flow" where
  "listReposForGroup p c isOrg page =
     (\<lambda>(grp, acc, tr).
        case (if isOrg then ListOrgRepositories (client p) (Org grp) page [] tr
              else ListTeamRepositories (client p) (Org grp) (Team grp) page tr) of
          ((repos, hasNextPage, err), tr') \<Rightarrow>
            (case err of
               Some e \<Rightarrow>
                 Return (fst (fold (\<lambda>r. addRepoToUserPerms [ID r]) repos acc),
                         Some (Wrap e ''list repos for group''), Some c, tr')
             | None \<Rightarrow>
                 (case fold (\<lambda>r (grp, acc).
                               (grp\<lparr>Repositories := Repositories grp @ [ID r]\<rparr>,
                                addRepoToUserPerms [ID r] acc)) repos (grp, acc) of
                    (grp, acc) \<Rightarrow> Next ((grp, acc, tr'), hasNextPage))))"

text \<open>The body of the loop "Get repos from groups, cached if possible", in its three
  parts: "If this is a partial cache, add self to group"; "If a valid cached value was
  found, use it and continue"; "Perform full sync" and "Persist repos affiliated with
  group to cache".\<close>

definition addAccountToGroup ::
  "AccountID \<Rightarrow> cachedGroup \<Rightarrow> cachedGroups \<times> trace \<Rightarrow> cachedGroup \<times> cachedGroups \<times> trace" where
  "addAccountToGroup accountID group0 =
     (\<lambda>(c, tr).
        if Users group0 \<noteq> [] \<and> accountID \<notin> set (Users group0)
        then let grp = group0\<lparr>Users := Users group0 @ [accountID]\<rparr>
             in (case setGroup grp (c, tr) of (c, tr) \<Rightarrow> (grp, c, tr))
        else (group0, c, tr))"

definition fullSyncRepos ::
  "Provider \<Rightarrow> cachedGroup \<Rightarrow> userPerms \<times> cachedGroups \<times> trace
     \<Rightarrow> (userPerms \<times> cachedGroups \<times> trace, userPermsResult) flow option" where
  "fullSyncRepos p group0 =
     (\<lambda>(acc, c, tr).
        case forPages (listReposForGroup p c (Team group0 = [])) 1
               (group0\<lparr>Repositories := []\<rparr>, acc, tr) of
          None \<Rightarrow> None
        | Some (Inr r) \<Rightarrow> Some (Return r)
        | Some (Inl (grp, acc, tr)) \<Rightarrow>
            (case setGroup grp (c, tr) of (c, tr) \<Rightarrow> Some (Next (acc, c, tr))))"

definition syncUserGroup ::
  "Provider \<Rightarrow> AccountID \<Rightarrow> cachedGroup \<Rightarrow> userPerms \<times> cachedGroups \<times> trace
     \<Rightarrow> (userPerms \<times> cachedGroups \<times> trace, userPermsResult) flow option" where
  "syncUserGroup p accountID group0 =
     (\<lambda>(acc, c, tr).
        case addAccountToGroup accountID group0 (c, tr) of
          (grp, c, tr) \<Rightarrow>
            if Repositories grp \<noteq> []
            then Some (Next (addRepoToUserPerms (Repositories grp) acc, c, tr))
            else fullSyncRepos p grp (acc, c, tr))"

definition fetchUserPermsByToken ::
  "Provider \<Rightarrow> AccountID \<Rightarrow> string \<Rightarrow> FetchPermsOptions \<Rightarrow> trace \<Rightarrow> userPermsResult option" where
  "fetchUserPermsByToken p accountID tok opts tr =
     (let client' = WithToken (client p) tok;
          perms = \<lparr>Exacts = []\<rparr>;
          seenRepos = {};
          affiliations =
            (if groupsCache p = None then []
             else [AffiliationOwner, AffiliationCollaborator])
      in case forPages (listReposForUser p client' affiliations) 1 ((perms, seenRepos), tr) of
           None \<Rightarrow> None
         | Some (Inr r) \<Rightarrow> Some r
         | Some (Inl (acc, tr)) \<Rightarrow>
             (case groupsCache p of
                None \<Rightarrow> Some (fst acc, None, None, tr)
              | Some c \<Rightarrow>
                  (case getUserAffiliatedGroups c client' opts tr of
                     None \<Rightarrow> None
                   | Some (groups, err, c, tr) \<Rightarrow>
                       (case err of
                          Some e \<Rightarrow>
                            Some (fst acc, Some (Wrap e ''get groups affiliated with user''),
                                  Some c, tr)
                        | None \<Rightarrow>
                            (case forRange (syncUserGroup p accountID) groups (acc, c, tr) of
                               None \<Rightarrow> None
                             | Some (Inr r) \<Rightarrow> Some r
                             | Some (Inl (acc, c, tr)) \<Rightarrow> Some (fst acc, None, Some c, tr))))))"

text \<open>\<^verbatim>\<open>FetchUserPerms\<close>: the account may be nil (\<open>None\<close>); a nil result is \<open>None\<close>.\<close>

definition FetchUserPerms ::
  "Provider \<Rightarrow> Account option \<Rightarrow> FetchPermsOptions \<Rightarrow> trace
     \<Rightarrow> (ExternalUserPermissions option \<times> error option \<times> cachedGroups option \<times> trace) option" where
  "FetchUserPerms p account opts tr =
     (case account of
        None \<Rightarrow> Some (None, Some (New ''no account provided''), groupsCache p, tr)
      | Some a \<Rightarrow>
          if \<not> IsHostOfAccount (codeHost p) a
          then Some (None,
                     Some (Errorf ''not a code host of the account: want %q but have %q''
                             [AccountServiceID (AccountSpec a), ServiceID (codeHost p)]),
                     groupsCache p, tr)
          else
            (case GetExternalAccountData (AccountData a) of
               (tok, Some e) \<Rightarrow>
                 Some (None, Some (Wrap e ''get external account data''), groupsCache p, tr)
             | (None, None) \<Rightarrow>
                 Some (None, Some (New ''no token found in the external account data''),
                       groupsCache p, tr)
             | (Some tok, None) \<Rightarrow>
                 map_option (\<lambda>(perms, r). (Some perms, r))
                   (fetchUserPermsByToken p (AccountID (AccountSpec a)) (AccessToken tok) opts tr)))"

section \<open>FetchRepoPerms\<close>

text \<open>The closure \<^verbatim>\<open>addUserToRepoPerms\<close>, on \<^verbatim>\<open>userIDs\<close> and \<^verbatim>\<open>seenUsers\<close>.\<close>

type_synonym repoPerms = "AccountID list \<times> AccountID set"

fun addUserToRepoPerms :: "AccountID list \<Rightarrow> repoPerms \<Rightarrow> repoPerms" where
  "addUserToRepoPerms [] (userIDs, seenUsers) = (userIDs, seenUsers)"
| "addUserToRepoPerms (user # users) (userIDs, seenUsers) =
     (if user \<notin> seenUsers
      then addUserToRepoPerms users (userIDs @ [user], insert user seenUsers)
      else addUserToRepoPerms users (userIDs, seenUsers))"

record repoAffiliatedGroup =
  embedded :: cachedGroup
  adminsOnly :: bool

type_synonym repoPermsResult =
  "AccountID list option \<times> error option \<times> cachedGroups option \<times> trace"

text \<open>The body of the loop "Sync collaborators".\<close>

definition listUsersForRepo ::
  "Provider \<Rightarrow> string \<Rightarrow> string \<Rightarrow> CollaboratorAffiliation \<Rightarrow> nat \<Rightarrow> repoPerms \<times> trace
     \<Rightarrow> ((repoPerms \<times> trace) \<times> bool, repoPermsResult) flow" where
  "listUsersForRepo p owner name affiliation page =
     (\<lambda>(acc, tr).
        case ListRepositoryCollaborators (client p) owner name page affiliation tr of
          ((users, hasNextPage, err), tr') \<Rightarrow>
            (case err of
               Some e \<Rightarrow>
                 Return (Some (fst acc), Some (Wrap e ''list users for repo''), groupsCache p, tr')
             | None \<Rightarrow>
                 Next ((fold (\<lambda>u. addUserToRepoPerms [FormatInt (DatabaseID u)]) users acc, tr'),
                       hasNextPage)))"

subsection \<open>getRepoAffiliatedGroups\<close>

type_synonym repoGroups = "repoAffiliatedGroup list \<times> cachedGroups \<times> trace"

type_synonym repoGroupsResult =
  "repoAffiliatedGroup list \<times> error option \<times> cachedGroups \<times> trace"

text \<open>The closure \<^verbatim>\<open>syncGroup\<close> of \<^verbatim>\<open>getRepoAffiliatedGroups\<close>.\<close>

definition repoSyncGroup ::
  "FetchPermsOptions \<Rightarrow> string \<Rightarrow> string \<Rightarrow> bool \<Rightarrow> repoGroups \<Rightarrow> repoGroups" where
  "repoSyncGroup opts owner team admins =
     (\<lambda>(groups, c, tr).
        let (grp, exists) = getGroup c owner team;
            (grp, c, tr) =
              (if exists \<and> InvalidateCaches opts then invalidateGroup grp (c, tr)
               else (grp, c, tr))
        in (groups @ [\<lparr>embedded = grp, adminsOnly = admins\<rparr>], c, tr))"

definition listTeamsForRepo ::
  "Provider \<Rightarrow> FetchPermsOptions \<Rightarrow> string \<Rightarrow> string \<Rightarrow> nat \<Rightarrow> repoGroups
     \<Rightarrow> (repoGroups \<times> bool, repoGroupsResult) flow" where
  "listTeamsForRepo p opts owner name page =
     (\<lambda>(groups, c, tr).
        case ListRepositoryTeams (client p) owner name page tr of
          ((teams, hasNextPage, err), tr') \<Rightarrow>
            (case err of
               Some e \<Rightarrow> Return (groups, Some e, c, tr')
             | None \<Rightarrow>
                 Next (fold (\<lambda>t. repoSyncGroup opts owner (Slug t) False) teams (groups, c, tr'),
                       hasNextPage)))"

definition getRepoAffiliatedGroups ::
  "Provider \<Rightarrow> cachedGroups \<Rightarrow> string \<Rightarrow> string \<Rightarrow> FetchPermsOptions \<Rightarrow> trace
     \<Rightarrow> repoGroupsResult option" where
  "getRepoAffiliatedGroups p c owner name opts tr =
     (case GetOrganization (client p) owner tr of
        ((org, err), tr) \<Rightarrow>
          (case err of
             Some e \<Rightarrow>
               if IsNotFound e then Some ([], None, c, tr)
               else Some ([], Some e, c, tr)
           | None \<Rightarrow>
               let allOrgMembersCanRead =
                     canViewOrgRepos \<lparr>OrgDetails = org, OrgMembership = None\<rparr>
               in if allOrgMembersCanRead
                  then (case repoSyncGroup opts owner [] False ([], c, tr) of
                          (groups, c, tr) \<Rightarrow> Some (groups, None, c, tr))
                  else
                    (case forPages (listTeamsForRepo p opts owner name) 1
                            (repoSyncGroup opts owner [] True ([], c, tr)) of
                       None \<Rightarrow> None
                     | Some (Inr r) \<Rightarrow> Some r
                     | Some (Inl (groups, c, tr)) \<Rightarrow> Some (groups, None, c, tr))))"

subsection \<open>The groups of a repository\<close>

text \<open>The body of the loop "Perform full sync" of one group. The members of an
  organization are asked for with the group's \<^verbatim>\<open>adminsOnly\<close>.\<close>

definition listUsersForGroup ::
  "Provider \<Rightarrow> cachedGroups \<Rightarrow> string \<Rightarrow> nat \<Rightarrow> repoAffiliatedGroup \<times> repoPerms \<times> trace
     \<Rightarrow> ((repoAffiliatedGroup \<times> repoPerms \<times> trace) \<times> bool, repoPermsResult) flow" where
  "listUsersForGroup p c owner page =
     (\<lambda>(grp, acc, tr).
        case (if Team (embedded grp) = []
              then ListOrganizationMembers (client p) owner page (adminsOnly grp) tr
              else ListTeamMembers (client p) owner (Team (embedded grp)) page tr) of
          ((members, hasNextPage, err), tr') \<Rightarrow>
            (case err of
               Some e \<Rightarrow> Return (Some (fst acc), Some (Wrap e ''list users for group''), Some c, tr')
             | None \<Rightarrow>
                 (case fold (\<lambda>u (grp, acc).
                               let accountID = FormatInt (DatabaseID u)
                               in (grp\<lparr>embedded := (embedded grp)
                                            \<lparr>Users := Users (embedded grp) @ [accountID]\<rparr>\<rparr>,
                                   addUserToRepoPerms [accountID] acc)) members (grp, acc) of
                    (grp, acc) \<Rightarrow> Next ((grp, acc, tr'), hasNextPage))))"

text \<open>The body of the loop "Perform a fresh sync with groups that need a sync", in its
  three parts: "If this is a partial cache, add self to group"; "Just use cache if
  available and not invalidated and continue"; "Perform full sync" and "Persist group".
  (The \<^verbatim>\<open>log.Printf\<close> of the group has no effect on the provider and is left out.)\<close>

definition addRepoToGroup ::
  "RepoID \<Rightarrow> repoAffiliatedGroup \<Rightarrow> cachedGroups \<times> trace
     \<Rightarrow> repoAffiliatedGroup \<times> cachedGroups \<times> trace" where
  "addRepoToGroup repoID group0 =
     (\<lambda>(c, tr).
        if Repositories (embedded group0) \<noteq> [] \<and> repoID \<notin> set (Repositories (embedded group0))
        then let grp = group0\<lparr>embedded := (embedded group0)
                            \<lparr>Repositories := Repositories (embedded group0) @ [repoID]\<rparr>\<rparr>
             in (case setGroup (embedded grp) (c, tr) of (c, tr) \<Rightarrow> (grp, c, tr))
        else (group0, c, tr))"

definition fullSyncUsers ::
  "Provider \<Rightarrow> string \<Rightarrow> repoAffiliatedGroup \<Rightarrow> repoPerms \<times> cachedGroups \<times> trace
     \<Rightarrow> (repoPerms \<times> cachedGroups \<times> trace, repoPermsResult) flow option" where
  "fullSyncUsers p owner group0 =
     (\<lambda>(acc, c, tr).
        case forPages (listUsersForGroup p c owner) 1 (group0, acc, tr) of
          None \<Rightarrow> None
        | Some (Inr r) \<Rightarrow> Some (Return r)
        | Some (Inl (grp, acc, tr)) \<Rightarrow>
            (case setGroup (embedded grp) (c, tr) of (c, tr) \<Rightarrow> Some (Next (acc, c, tr))))"

definition syncRepoGroup ::
  "Provider \<Rightarrow> string \<Rightarrow> RepoID \<Rightarrow> repoAffiliatedGroup \<Rightarrow> repoPerms \<times> cachedGroups \<times> trace
     \<Rightarrow> (repoPerms \<times> cachedGroups \<times> trace, repoPermsResult) flow option" where
  "syncRepoGroup p owner repoID group0 =
     (\<lambda>(acc, c, tr).
        case addRepoToGroup repoID group0 (c, tr) of
          (grp, c, tr) \<Rightarrow>
            if Users (embedded grp) \<noteq> []
            then Some (Next (addUserToRepoPerms (Users (embedded grp)) acc, c, tr))
            else fullSyncUsers p owner grp (acc, c, tr))"

text \<open>\<^verbatim>\<open>FetchRepoPerms\<close>: the repository may be nil (\<open>None\<close>); a nil result is \<open>None\<close>.\<close>

definition FetchRepoPerms ::
  "Provider \<Rightarrow> ExtRepository option \<Rightarrow> FetchPermsOptions \<Rightarrow> trace \<Rightarrow> repoPermsResult option" where
  "FetchRepoPerms p repo opts tr =
     (case repo of
        None \<Rightarrow> Some (None, Some (New ''no repository provided''), groupsCache p, tr)
      | Some r \<Rightarrow>
          if \<not> IsHostOfRepo (codeHost p) (ExternalRepoSpec r)
          then Some (None,
                     Some (Errorf ''not a code host of the repository: want %q but have %q''
                             [RepoServiceID (ExternalRepoSpec r), ServiceID (codeHost p)]),
                     groupsCache p, tr)
          else
            let nameWithOwner = TrimPrefix (URI r) (Hostname (codeHost p));
                nameWithOwner = TrimPrefix nameWithOwner ''/''
            in case SplitRepositoryNameWithOwner nameWithOwner of
                 Inl e \<Rightarrow> Some (None, Some (Wrap e ''split nameWithOwner''), groupsCache p, tr)
               | Inr (owner, name) \<Rightarrow>
                   let userIDs = [];
                       seenUsers = {};
                       affiliation =
                         (if groupsCache p = None then AffiliationAny else AffiliationDirect)
                   in case forPages (listUsersForRepo p owner name affiliation) 1
                             ((userIDs, seenUsers), tr) of
                        None \<Rightarrow> None
                      | Some (Inr res) \<Rightarrow> Some res
                      | Some (Inl (acc, tr)) \<Rightarrow>
                          (case groupsCache p of
                             None \<Rightarrow> Some (Some (fst acc), None, None, tr)
                           | Some c \<Rightarrow>
                               (case getRepoAffiliatedGroups p c owner name opts tr of
                                  None \<Rightarrow> None
                                | Some (groups, err, c, tr) \<Rightarrow>
                                    (case err of
                                       Some e \<Rightarrow>
                                         Some (Some (fst acc),
                                               Some (Wrap e ''get groups affiliated with repo''),
                                               Some c, tr)
                                     | None \<Rightarrow>
                                         (case forRange
                                                 (syncRepoGroup p owner (RepoSpecID (ExternalRepoSpec r)))
                                                 groups (acc, c, tr) of
                                            None \<Rightarrow> None
                                          | Some (Inr res) \<Rightarrow> Some res
                                          | Some (Inl (acc, c, tr)) \<Rightarrow>
                                              Some (Some (fst acc), None, Some c, tr))))))"

section \<open>A code host for the examples\<close>

text \<open>
  The concrete inputs the statements below are instantiated with. The account of the
  examples is affiliated with repositories \<open>r1\<close>, \<open>r2\<close>, \<open>r3\<close> over two overlapping
  pages; it is a member of the organization \<open>acme\<close>, whose default permission grants
  read to all members, and of \<open>initech\<close>, whose default permission is restrictive, and
  it is in the teams \<open>eng\<close> of \<open>acme\<close> and \<open>ops\<close> and \<open>idle\<close> of \<open>initech\<close>. The
  repository \<open>initech/app\<close> has the collaborators 10, 11, 12 over two overlapping pages
  and is associated with the team \<open>ops\<close>; \<open>initech\<close> has the admin 10 and the
  members 10, 13, 14.
\<close>

definition quietHost :: host where
  "quietHost =
     \<lparr>affiliatedRepositories = (\<lambda>tok visibility page affiliations. ([], False, None)),
      orgRepositories = (\<lambda>tok org page repoType. ([], False, None)),
      teamRepositories = (\<lambda>tok org team page. ([], False, None)),
      repositoryCollaborators = (\<lambda>tok owner name page affiliation. ([], False, None)),
      repositoryTeams = (\<lambda>tok owner name page. ([], False, None)),
      organizationMembers = (\<lambda>tok owner page admins. ([], False, None)),
      teamMembers = (\<lambda>tok owner team page. ([], False, None)),
      userOrgsDetailsAndMembership = (\<lambda>tok page. ([], False, None)),
      userTeams = (\<lambda>tok page. ([], False, None)),
      getOrganization = (\<lambda>tok login. (None, Some NotFound))\<rparr>"

definition acme :: OrgDetails where
  "acme = \<lparr>Login = ''acme'', DefaultRepositoryPermission = GrantsReadToAllMembers\<rparr>"

definition initech :: OrgDetails where
  "initech = \<lparr>Login = ''initech'', DefaultRepositoryPermission = Restrictive\<rparr>"

definition exampleHost :: host where
  "exampleHost =
     \<lparr>affiliatedRepositories = (\<lambda>tok visibility page affiliations.
        if tok = ''user-token'' \<and> page = 1 then ([\<lparr>ID = ''r1''\<rparr>, \<lparr>ID = ''r2''\<rparr>], True, None)
        else if tok = ''user-token'' \<and> page = 2 then ([\<lparr>ID = ''r2''\<rparr>, \<lparr>ID = ''r3''\<rparr>], False, None)
        else ([], False, None)),
      orgRepositories = (\<lambda>tok org page repoType.
        if org = ''acme'' then ([\<lparr>ID = ''r3''\<rparr>, \<lparr>ID = ''r4''\<rparr>], False, None)
        else ([], False, None)),
      teamRepositories = (\<lambda>tok org team page.
        if org = ''initech'' \<and> team = ''ops'' then ([\<lparr>ID = ''r5''\<rparr>], False, None)
        else if org = ''acme'' \<and> team = ''eng'' then ([\<lparr>ID = ''r4''\<rparr>], False, None)
        else ([], False, None)),
      repositoryCollaborators = (\<lambda>tok owner name page affiliation.
        if owner = ''initech'' \<and> name = ''app'' \<and> page = 1
        then ([\<lparr>DatabaseID = 10\<rparr>, \<lparr>DatabaseID = 11\<rparr>], True, None)
        else if owner = ''initech'' \<and> name = ''app'' \<and> page = 2
        then ([\<lparr>DatabaseID = 11\<rparr>, \<lparr>DatabaseID = 12\<rparr>], False, None)
        else if owner = ''alice'' \<and> name = ''dotfiles''
        then ([\<lparr>DatabaseID = 20\<rparr>], False, None)
        else ([], False, None)),
      repositoryTeams = (\<lambda>tok owner name page.
        if owner = ''initech'' \<and> name = ''app''
        then ([\<lparr>Slug = ''ops'', ReposCount = 1, Organization = Some \<lparr>Login = ''initech''\<rparr>\<rparr>],
              False, None)
        else ([], False, None)),
      organizationMembers = (\<lambda>tok owner page admins.
        if owner = ''initech'' \<and> admins then ([\<lparr>DatabaseID = 10\<rparr>], False, None)
        else if owner = ''initech''
        then ([\<lparr>DatabaseID = 10\<rparr>, \<lparr>DatabaseID = 13\<rparr>, \<lparr>DatabaseID = 14\<rparr>], False, None)
        else ([], False, None)),
      teamMembers = (\<lambda>tok owner team page.
        if owner = ''initech'' \<and> team = ''ops''
        then ([\<lparr>DatabaseID = 13\<rparr>, \<lparr>DatabaseID = 11\<rparr>], False, None)
        else ([], False, None)),
      userOrgsDetailsAndMembership = (\<lambda>tok page.
        ([\<lparr>OrgDetails = Some acme, OrgMembership = None\<rparr>,
          \<lparr>OrgDetails = Some initech, OrgMembership = None\<rparr>], False, None)),
      userTeams = (\<lambda>tok page.
        ([\<lparr>Slug = ''eng'', ReposCount = 2, Organization = Some \<lparr>Login = ''acme''\<rparr>\<rparr>,
          \<lparr>Slug = ''ops'', ReposCount = 1, Organization = Some \<lparr>Login = ''initech''\<rparr>\<rparr>,
          \<lparr>Slug = ''idle'', ReposCount = 0, Organization = Some \<lparr>Login = ''initech''\<rparr>\<rparr>],
         False, None)),
      getOrganization = (\<lambda>tok login.
        if login = ''acme'' then (Some acme, None)
        else if login = ''initech'' then (Some initech, None)
        else (None, Some NotFound))\<rparr>"

definition githubDotCom :: CodeHost where
  "githubDotCom =
     \<lparr>ServiceID = ''https://github.com/'', ServiceType = ''github'', Hostname = ''github.com''\<rparr>"

text \<open>The provider with group caching enabled and nothing cached yet, and the same
  provider with group caching disabled.\<close>

definition exampleProvider :: Provider where
  "exampleProvider =
     \<lparr>urn = ''extsvc:github:1'',
      client = \<lparr>codeHostAPI = exampleHost, token = ''base-token''\<rparr>,
      codeHost = githubDotCom,
      groupsCache = Some Map.empty\<rparr>"

definition uncachedProvider :: Provider where
  "uncachedProvider = exampleProvider\<lparr>groupsCache := None\<rparr>"

definition exampleAccount :: Account where
  "exampleAccount =
     \<lparr>AccountSpec = \<lparr>AccountServiceType = ''github'', AccountServiceID = ''https://github.com/'',
                      AccountID = ''11''\<rparr>,
      AccountData = Decoded (Some \<lparr>AccessToken = ''user-token''\<rparr>)\<rparr>"

definition foreignAccount :: Account where
  "foreignAccount =
     exampleAccount\<lparr>AccountSpec := (AccountSpec exampleAccount)
                      \<lparr>AccountServiceID := ''https://ghe.example.com/''\<rparr>\<rparr>"

definition tokenlessAccount :: Account where
  "tokenlessAccount = exampleAccount\<lparr>AccountData := Decoded None\<rparr>"

definition exampleRepo :: ExtRepository where
  "exampleRepo =
     \<lparr>URI = ''github.com/initech/app'',
      ExternalRepoSpec = \<lparr>RepoSpecID = ''r5'', RepoServiceType = ''github'',
                           RepoServiceID = ''https://github.com/''\<rparr>\<rparr>"

definition foreignRepo :: ExtRepository where
  "foreignRepo =
     exampleRepo\<lparr>ExternalRepoSpec := (ExternalRepoSpec exampleRepo)
                   \<lparr>RepoServiceID := ''https://ghe.example.com/''\<rparr>\<rparr>"

definition noOptions :: FetchPermsOptions where
  "noOptions = \<lparr>InvalidateCaches = False\<rparr>"

text \<open>What a fetch returns without the content of the cache, which is a function and
  cannot be compared by evaluation.\<close>

definition withoutCache :: "('a \<times> error option \<times> cachedGroups option \<times> trace) option
    \<Rightarrow> ('a \<times> error option \<times> trace) option" where
  "withoutCache = map_option (\<lambda>(x, err, c, tr). (x, err, tr))"

section \<open>Properties\<close>

subsection \<open>Auxiliary notions\<close>

text \<open>The two variables of \<^verbatim>\<open>fetchUserPermsByToken\<close> agree when \<^verbatim>\<open>seenRepos\<close> holds
  exactly the identifiers of \<^verbatim>\<open>perms.Exacts\<close> and none of them is listed twice;
  likewise \<^verbatim>\<open>userIDs\<close> and \<^verbatim>\<open>seenUsers\<close> in \<^verbatim>\<open>FetchRepoPerms\<close>.\<close>

definition userPermsOK :: "userPerms \<Rightarrow> bool" where
  "userPermsOK acc = (distinct (Exacts (fst acc)) \<and> snd acc = set (Exacts (fst acc)))"

definition repoPermsOK :: "repoPerms \<Rightarrow> bool" where
  "repoPermsOK acc = (distinct (fst acc) \<and> snd acc = set (fst acc))"

text \<open>The identifier of a collaborator, as the provider computes it.\<close>

definition accountIDOf :: "Collaborator \<Rightarrow> AccountID" where
  "accountIDOf u = FormatInt (DatabaseID u)"

text \<open>The request the full sync of a group sends for a page, and the code host's answer
  to it: for the repositories of a group (in \<^verbatim>\<open>fetchUserPermsByToken\<close>) and for the
  members of a group (in \<^verbatim>\<open>FetchRepoPerms\<close>).\<close>

definition groupRequest :: "bool \<Rightarrow> cachedGroup \<Rightarrow> nat \<Rightarrow> request" where
  "groupRequest isOrg grp k =
     (if isOrg then ReqListOrgRepositories (Org grp) k []
      else ReqListTeamRepositories (Org grp) (Team grp) k)"

definition groupPage :: "Provider \<Rightarrow> bool \<Rightarrow> cachedGroup \<Rightarrow> nat \<Rightarrow> Repository page" where
  "groupPage p isOrg grp k =
     (if isOrg then orgRepositories (codeHostAPI (client p)) (token (client p)) (Org grp) k []
      else teamRepositories (codeHostAPI (client p)) (token (client p)) (Org grp) (Team grp) k)"

definition memberRequest :: "string \<Rightarrow> repoAffiliatedGroup \<Rightarrow> nat \<Rightarrow> request" where
  "memberRequest owner grp k =
     (if Team (embedded grp) = [] then ReqListOrganizationMembers owner k (adminsOnly grp)
      else ReqListTeamMembers owner (Team (embedded grp)) k)"

definition memberPage :: "Provider \<Rightarrow> string \<Rightarrow> repoAffiliatedGroup \<Rightarrow> nat \<Rightarrow> Collaborator page" where
  "memberPage p owner grp k =
     (if Team (embedded grp) = []
      then organizationMembers (codeHostAPI (client p)) (token (client p)) owner k (adminsOnly grp)
      else teamMembers (codeHostAPI (client p)) (token (client p)) owner (Team (embedded grp)) k)"

text \<open>A trace extends another by events that all satisfy a predicate.\<close>

definition extends :: "(event \<Rightarrow> bool) \<Rightarrow> trace \<Rightarrow> trace \<Rightarrow> bool" where
  "extends P tr tr' = (\<exists>new. tr' = tr @ new \<and> list_all P new)"

text \<open>The events \<^verbatim>\<open>fetchUserPermsByToken\<close> may add to the trace, for the token of the
  account, the token of the provider and the affiliations asked for in the direct
  listing.\<close>

fun userFetchEvent :: "string \<Rightarrow> string \<Rightarrow> RepositoryAffiliation list \<Rightarrow> event \<Rightarrow> bool" where
  "userFetchEvent userTok baseTok affs (Request tok (ReqListAffiliatedRepositories v k a)) =
     (tok = userTok \<and> v = VisibilityPrivate \<and> a = affs)"
| "userFetchEvent userTok baseTok affs (Request tok (ReqGetAuthenticatedUserOrgsDetailsAndMembership k)) =
     (tok = userTok)"
| "userFetchEvent userTok baseTok affs (Request tok (ReqGetAuthenticatedUserTeams k)) = (tok = userTok)"
| "userFetchEvent userTok baseTok affs (Request tok (ReqListOrgRepositories org k repoType)) =
     (tok = baseTok \<and> repoType = [])"
| "userFetchEvent userTok baseTok affs (Request tok (ReqListTeamRepositories org team k)) = (tok = baseTok)"
| "userFetchEvent userTok baseTok affs (Request tok req) = False"
| "userFetchEvent userTok baseTok affs (SetGroup g) = True"
| "userFetchEvent userTok baseTok affs (InvalidateGroup g) = True"

text \<open>A listing goes on up to page \<open>n\<close> when every page before \<open>n\<close> is returned without
  an error and announces a next page; \<open>itemsBefore\<close> are the items of those pages, in
  order.\<close>

definition goesOn :: "(nat \<Rightarrow> 'a page) \<Rightarrow> nat \<Rightarrow> bool" where
  "goesOn list n = (\<forall>k. 1 \<le> k \<and> k < n \<longrightarrow> snd (list k) = (True, None))"

definition itemsBefore :: "(nat \<Rightarrow> 'a page) \<Rightarrow> nat \<Rightarrow> 'a list" where
  "itemsBefore list n = concat (map (\<lambda>k. fst (list k)) [1..<n])"

text \<open>The direct listing of the repositories affiliated with a token, and the request
  for its page \<open>k\<close>.\<close>

definition directPage :: "host \<Rightarrow> string \<Rightarrow> RepositoryAffiliation list \<Rightarrow> nat \<Rightarrow> Repository page" where
  "directPage h tok affs k = affiliatedRepositories h tok VisibilityPrivate k affs"

definition directRequest :: "string \<Rightarrow> RepositoryAffiliation list \<Rightarrow> nat \<Rightarrow> event" where
  "directRequest tok affs k = Request tok (ReqListAffiliatedRepositories VisibilityPrivate k affs)"

text \<open>The listing of the collaborators of a repository, and the request for its page
  \<open>k\<close>.\<close>

definition collaboratorPage ::
  "host \<Rightarrow> string \<Rightarrow> string \<Rightarrow> string \<Rightarrow> CollaboratorAffiliation \<Rightarrow> nat \<Rightarrow> Collaborator page" where
  "collaboratorPage h tok owner name aff k = repositoryCollaborators h tok owner name k aff"

definition collaboratorRequest ::
  "string \<Rightarrow> string \<Rightarrow> string \<Rightarrow> CollaboratorAffiliation \<Rightarrow> nat \<Rightarrow> event" where
  "collaboratorRequest tok owner name aff k = Request tok (ReqListRepositoryCollaborators owner name k aff)"

text \<open>The fully-qualified name \<^verbatim>\<open>FetchRepoPerms\<close> computes for a repository, split into
  owner and name.\<close>

definition nameWithOwner :: "Provider \<Rightarrow> ExtRepository \<Rightarrow> error + (string \<times> string)" where
  "nameWithOwner p r =
     SplitRepositoryNameWithOwner (TrimPrefix (TrimPrefix (URI r) (Hostname (codeHost p))) ''/'')"

text \<open>What a fetch leaves in the cache under a key.\<close>

definition cachedAfter ::
  "('a \<times> error option \<times> cachedGroups option \<times> trace) option \<Rightarrow> string \<Rightarrow> cachedGroup option" where
  "cachedAfter r k = (case r of Some (x, err, Some c, tr) \<Rightarrow> c k | _ \<Rightarrow> None)"

text \<open>More inputs for the examples: a code host whose listing of the repositories of an
  organization and of the members of an organization fails on the second page, the
  failing page of repositories carrying an item; a code host whose organization lookup
  fails with an error other than not-found; a repository owned by a user; and the groups
  of \<open>acme\<close> and of the admins of \<open>initech\<close> as discovery finds them with nothing
  cached.\<close>

definition flakyHost :: host where
  "flakyHost = exampleHost
     \<lparr>orgRepositories := (\<lambda>tok org page repoType.
        if page = 1 then ([\<lparr>ID = ''r3''\<rparr>], True, None)
        else ([\<lparr>ID = ''r9''\<rparr>], False, Some (New ''rate limit exceeded''))),
      organizationMembers := (\<lambda>tok owner page admins.
        if page = 1 then ([\<lparr>DatabaseID = 10\<rparr>], True, None)
        else ([\<lparr>DatabaseID = 15\<rparr>], False, Some (New ''rate limit exceeded'')))\<rparr>"

definition flakyProvider :: Provider where
  "flakyProvider = exampleProvider\<lparr>client := \<lparr>codeHostAPI = flakyHost, token = ''base-token''\<rparr>\<rparr>"

definition brokenLookupProvider :: Provider where
  "brokenLookupProvider = exampleProvider
     \<lparr>client := \<lparr>codeHostAPI = exampleHost\<lparr>getOrganization := (\<lambda>tok login. (None, Some (New ''bad gateway'')))\<rparr>,
                  token = ''base-token''\<rparr>\<rparr>"

definition userOwnedRepo :: ExtRepository where
  "userOwnedRepo =
     \<lparr>URI = ''github.com/alice/dotfiles'',
      ExternalRepoSpec = \<lparr>RepoSpecID = ''r7'', RepoServiceType = ''github'',
                           RepoServiceID = ''https://github.com/''\<rparr>\<rparr>"

definition acmeGroup :: cachedGroup where
  "acmeGroup = \<lparr>Org = ''acme'', Team = [], Repositories = [], Users = []\<rparr>"

definition initechAdmins :: repoAffiliatedGroup where
  "initechAdmins =
     \<lparr>embedded = \<lparr>Org = ''initech'', Team = [], Repositories = [], Users = []\<rparr>, adminsOnly = True\<rparr>"

text \<open>The organization and team names of the groups a discovery returns, with its
  error.\<close>

definition discovered :: "userGroupsResult option \<Rightarrow> ((string \<times> string) list \<times> error option) option" where
  "discovered = map_option (\<lambda>(groups, err, c, tr). (map (\<lambda>g. (Org g, Team g)) groups, err))"

subsection \<open>Partial caches, affiliations and failing listings\<close>

text \<open>A cached group of which one repository and one member are known.\<close>

definition partialGroup :: cachedGroup where
  "partialGroup = \<lparr>Org = ''acme'', Team = [], Repositories = [''r3''], Users = [''7'']\<rparr>"


text \<open>The affiliations the direct listing of repositories asks for and the affiliation
  the listing of collaborators asks for: everything when group caching is disabled, the
  direct affiliations when it is enabled.\<close>

definition affiliationsOf :: "Provider \<Rightarrow> RepositoryAffiliation list" where
  "affiliationsOf p =
     (if groupsCache p = None then [] else [AffiliationOwner, AffiliationCollaborator])"


definition collaboratorAffiliationOf :: "Provider \<Rightarrow> CollaboratorAffiliation" where
  "collaboratorAffiliationOf p = (if groupsCache p = None then AffiliationAny else AffiliationDirect)"


text \<open>The listings of group discovery: the organizations and the teams of the
  authenticated user, and the teams of a repository.\<close>

definition userOrgsPage :: "host \<Rightarrow> string \<Rightarrow> nat \<Rightarrow> OrgDetailsAndMembership page" where
  "userOrgsPage h tok k = userOrgsDetailsAndMembership h tok k"


definition userTeamsPage :: "host \<Rightarrow> string \<Rightarrow> nat \<Rightarrow> Team page" where
  "userTeamsPage h tok k = userTeams h tok k"


definition repoTeamsPage :: "host \<Rightarrow> string \<Rightarrow> string \<Rightarrow> string \<Rightarrow> nat \<Rightarrow> Team page" where
  "repoTeamsPage h tok owner name k = repositoryTeams h tok owner name k"


text \<open>The provider of the examples on another code host, and code hosts on which a
  listing fails: the direct listings on their second page, the listing of the user's
  organizations, and the listings of teams.\<close>

definition providerOn :: "host \<Rightarrow> Provider" where
  "providerOn h = exampleProvider\<lparr>client := \<lparr>codeHostAPI = h, token = ''base-token''\<rparr>\<rparr>"


definition outageHost :: host where
  "outageHost = exampleHost
     \<lparr>affiliatedRepositories := (\<lambda>tok visibility page affiliations.
        if page = 1 then ([\<lparr>ID = ''r1''\<rparr>, \<lparr>ID = ''r2''\<rparr>], True, None)
        else ([\<lparr>ID = ''r8''\<rparr>], False, Some (New ''rate limit exceeded''))),
      repositoryCollaborators := (\<lambda>tok owner name page affiliation.
        if page = 1 then ([\<lparr>DatabaseID = 10\<rparr>, \<lparr>DatabaseID = 11\<rparr>], True, None)
        else ([\<lparr>DatabaseID = 16\<rparr>], False, Some (New ''rate limit exceeded'')))\<rparr>"


definition orgsOutageHost :: host where
  "orgsOutageHost = exampleHost
     \<lparr>userOrgsDetailsAndMembership := (\<lambda>tok page. ([], False, Some (New ''rate limit exceeded'')))\<rparr>"


definition teamsOutageHost :: host where
  "teamsOutageHost = exampleHost
     \<lparr>userTeams := (\<lambda>tok page. ([], False, Some (New ''rate limit exceeded''))),
      repositoryTeams := (\<lambda>tok owner name page. ([], False, Some (New ''rate limit exceeded'')))\<rparr>"

subsection \<open>Who may be granted access to a repository of an organization\<close>


























subsection \<open>The events of the group loop of a fetch\<close>

text \<open>What an event of the trace does to the cache: \<open>setGroup\<close> stores the group under
  its key, \<open>invalidateGroup\<close> deletes the entry of the key, a request changes nothing.\<close>

fun replay :: "event \<Rightarrow> cachedGroups \<Rightarrow> cachedGroups" where
  "replay (SetGroup g) c = c(key g \<mapsto> g)"
| "replay (InvalidateGroup g) c = c(key g := None)"
| "replay (Request tok req) c = c"

text \<open>The registration of the target account in a group, as \<open>FetchUserPerms\<close> does it
  before it uses the group: it is due when the member field is not empty and does not
  hold the account; the group after it; and the cache write it makes.\<close>

definition needsAccount :: "AccountID \<Rightarrow> cachedGroup \<Rightarrow> bool" where
  "needsAccount accountID g = (Users g \<noteq> [] \<and> accountID \<notin> set (Users g))"

definition withAccount :: "AccountID \<Rightarrow> cachedGroup \<Rightarrow> cachedGroup" where
  "withAccount accountID g =
     (if needsAccount accountID g then g\<lparr>Users := Users g @ [accountID]\<rparr> else g)"

definition accountEvents :: "AccountID \<Rightarrow> cachedGroup \<Rightarrow> trace" where
  "accountEvents accountID g =
     (if needsAccount accountID g then [SetGroup (g\<lparr>Users := Users g @ [accountID]\<rparr>)] else [])"

text \<open>The requests for pages \<open>1\<close> to \<open>n\<close> of the repositories of a group.\<close>

definition repositoryRequests :: "Provider \<Rightarrow> cachedGroup \<Rightarrow> nat \<Rightarrow> trace" where
  "repositoryRequests p g n =
     map (\<lambda>k. Request (token (client p)) (groupRequest (Team g = []) g k)) [1..<Suc n]"

text \<open>The events \<open>seg\<close> that processing a group adds to the trace of
  \<open>FetchUserPerms\<close> when it succeeds: the registration write if it is due and, when no
  repository of the group is known, the requests of a listing that ends without error at
  some page \<open>n\<close> followed by one cache write of the group with the repositories of
  these \<open>n\<close> pages. And the events it adds when the listing fails with the error
  \<open>e\<close> at some page \<open>n\<close>: the registration write if it is due and the requests.\<close>

definition userGroupEvents :: "Provider \<Rightarrow> AccountID \<Rightarrow> cachedGroup \<Rightarrow> trace \<Rightarrow> bool" where
  "userGroupEvents p accountID g seg =
     (if Repositories g \<noteq> [] then seg = accountEvents accountID g
      else \<exists>n\<ge>1. goesOn (groupPage p (Team g = []) g) n
             \<and> snd (groupPage p (Team g = []) g n) = (False, None)
             \<and> seg = accountEvents accountID g @ repositoryRequests p g n
                    @ [SetGroup ((withAccount accountID g)
                         \<lparr>Repositories := map ID (itemsBefore (groupPage p (Team g = []) g) (Suc n))\<rparr>)])"

definition userGroupFailure :: "Provider \<Rightarrow> AccountID \<Rightarrow> cachedGroup \<Rightarrow> error \<Rightarrow> trace \<Rightarrow> bool" where
  "userGroupFailure p accountID g e seg =
     (Repositories g = []
      \<and> (\<exists>n\<ge>1. goesOn (groupPage p (Team g = []) g) n
             \<and> snd (snd (groupPage p (Team g = []) g n)) = Some e
             \<and> seg = accountEvents accountID g @ repositoryRequests p g n))"

text \<open>The items of the pages that a listing reaches, a listing that ends without error,
  and the repositories a group gives access to: those of its record when some are known,
  those listed by the code host otherwise.\<close>

definition listed :: "(nat \<Rightarrow> 'a page) \<Rightarrow> 'a set" where
  "listed list = {x. \<exists>k\<ge>1. goesOn list k \<and> x \<in> set (fst (list k))}"

definition groupRepositories :: "Provider \<Rightarrow> cachedGroup \<Rightarrow> RepoID set" where
  "groupRepositories p g =
     (if Repositories g \<noteq> [] then set (Repositories g)
      else ID ` listed (groupPage p (Team g = []) g))"

definition endsWell :: "(nat \<Rightarrow> 'a page) \<Rightarrow> bool" where
  "endsWell list = (\<exists>n\<ge>1. goesOn list n \<and> snd (list n) = (False, None))"

text \<open>The same notions for \<open>FetchRepoPerms\<close>: the registration of the target
  repository in the repository field of a group, the requests for the members of a
  group, the events of a group that is processed with success and of a group whose
  listing fails, and the users of a group.\<close>

definition needsRepo :: "RepoID \<Rightarrow> cachedGroup \<Rightarrow> bool" where
  "needsRepo repoID g = (Repositories g \<noteq> [] \<and> repoID \<notin> set (Repositories g))"

definition withRepo :: "RepoID \<Rightarrow> repoAffiliatedGroup \<Rightarrow> repoAffiliatedGroup" where
  "withRepo repoID rg =
     (if needsRepo repoID (embedded rg)
      then rg\<lparr>embedded := (embedded rg)\<lparr>Repositories := Repositories (embedded rg) @ [repoID]\<rparr>\<rparr>
      else rg)"

definition repoEvents :: "RepoID \<Rightarrow> repoAffiliatedGroup \<Rightarrow> trace" where
  "repoEvents repoID rg =
     (if needsRepo repoID (embedded rg)
      then [SetGroup ((embedded rg)\<lparr>Repositories := Repositories (embedded rg) @ [repoID]\<rparr>)]
      else [])"

definition memberRequests :: "Provider \<Rightarrow> string \<Rightarrow> repoAffiliatedGroup \<Rightarrow> nat \<Rightarrow> trace" where
  "memberRequests p owner rg n =
     map (\<lambda>k. Request (token (client p)) (memberRequest owner rg k)) [1..<Suc n]"

definition repoGroupEvents ::
  "Provider \<Rightarrow> string \<Rightarrow> RepoID \<Rightarrow> repoAffiliatedGroup \<Rightarrow> trace \<Rightarrow> bool" where
  "repoGroupEvents p owner repoID rg seg =
     (if Users (embedded rg) \<noteq> [] then seg = repoEvents repoID rg
      else \<exists>n\<ge>1. goesOn (memberPage p owner rg) n
             \<and> snd (memberPage p owner rg n) = (False, None)
             \<and> seg = repoEvents repoID rg @ memberRequests p owner rg n
                    @ [SetGroup ((embedded (withRepo repoID rg))
                         \<lparr>Users := map accountIDOf (itemsBefore (memberPage p owner rg) (Suc n))\<rparr>)])"

definition repoGroupFailure ::
  "Provider \<Rightarrow> string \<Rightarrow> RepoID \<Rightarrow> repoAffiliatedGroup \<Rightarrow> error \<Rightarrow> trace \<Rightarrow> bool" where
  "repoGroupFailure p owner repoID rg e seg =
     (Users (embedded rg) = []
      \<and> (\<exists>n\<ge>1. goesOn (memberPage p owner rg) n
             \<and> snd (snd (memberPage p owner rg n)) = Some e
             \<and> seg = repoEvents repoID rg @ memberRequests p owner rg n))"

definition groupUsers :: "Provider \<Rightarrow> string \<Rightarrow> repoAffiliatedGroup \<Rightarrow> AccountID set" where
  "groupUsers p owner rg =
     (if Users (embedded rg) \<noteq> [] then set (Users (embedded rg))
      else accountIDOf ` listed (memberPage p owner rg))"

text \<open>Group discovery takes the cache \<open>c0\<close> and the trace \<open>tr0\<close> to \<open>c\<close> and
  \<open>tr\<close> by events that contain no cache write, and the cache is the one these events
  leave.\<close>

definition onlyInvalidates :: "cachedGroups \<Rightarrow> trace \<Rightarrow> cachedGroups \<Rightarrow> trace \<Rightarrow> bool" where
  "onlyInvalidates c0 tr0 c tr =
     (\<exists>new. tr = tr0 @ new \<and> c = fold replay new c0 \<and> (\<forall>g. SetGroup g \<notin> set new))"



subsection \<open>Inputs with a cache that is not empty\<close>

text \<open>The provider of the examples on a given code host with a given cache; a cached record
  of \<open>acme\<close> of which only a member is known, a cached record of \<open>initech\<close> of
  which only a repository is known, and the caches that hold one of them or the partial
  record of \<open>acme\<close>; the option that asks for the invalidation of the caches; a code
  host whose listings of the repositories and of the members of a team fail on the
  second page; and the groups, error and trace of a discovery.\<close>

definition providerWith :: "host \<Rightarrow> cachedGroups \<Rightarrow> Provider" where
  "providerWith h c = exampleProvider\<lparr>client := \<lparr>codeHostAPI = h, token = ''base-token''\<rparr>,
                                     groupsCache := Some c\<rparr>"

definition usersOnlyGroup :: cachedGroup where
  "usersOnlyGroup = \<lparr>Org = ''acme'', Team = [], Repositories = [], Users = [''7'']\<rparr>"

definition usersOnlyCache :: cachedGroups where
  "usersOnlyCache = Map.empty(''acme'' \<mapsto> usersOnlyGroup)"

definition partialCache :: cachedGroups where
  "partialCache = Map.empty(''acme'' \<mapsto> partialGroup)"

definition reposOnlyGroup :: cachedGroup where
  "reposOnlyGroup = \<lparr>Org = ''initech'', Team = [], Repositories = [''r6''], Users = []\<rparr>"

definition reposOnlyCache :: cachedGroups where
  "reposOnlyCache = Map.empty(''initech'' \<mapsto> reposOnlyGroup)"

definition refresh :: FetchPermsOptions where
  "refresh = \<lparr>InvalidateCaches = True\<rparr>"

definition teamFlakyHost :: host where
  "teamFlakyHost = exampleHost
     \<lparr>teamRepositories := (\<lambda>tok org team page.
        if page = 1 then ([\<lparr>ID = ''r4''\<rparr>], True, None)
        else ([\<lparr>ID = ''r9''\<rparr>], False, Some (New ''rate limit exceeded''))),
      teamMembers := (\<lambda>tok owner team page.
        if page = 1 then ([\<lparr>DatabaseID = 13\<rparr>], True, None)
        else ([\<lparr>DatabaseID = 17\<rparr>], False, Some (New ''rate limit exceeded'')))\<rparr>"

definition discoveryOutcome ::
  "('g list \<times> error option \<times> cachedGroups \<times> trace) option \<Rightarrow> ('g list \<times> error option \<times> trace) option" where
  "discoveryOutcome = map_option (\<lambda>(groups, err, c, tr). (groups, err, tr))"

subsection \<open>Loop rules\<close>

text \<open>Invariant rule for the page loop: if the loop ends, an invariant of the body holds
  of the state it leaves, and what a return inside the body establishes holds of the
  returned value.\<close>

lemma forPages_rule:
  assumes run: "forPages body page s = Some y"
    and init: "I page s"
    and step: "\<And>k s s' b. page \<le> k \<Longrightarrow> I k s \<Longrightarrow> body k s = Next (s', b) \<Longrightarrow> I (Suc k) s'"
    and ret: "\<And>k s r. page \<le> k \<Longrightarrow> I k s \<Longrightarrow> body k s = Return r \<Longrightarrow> Q r"
  shows "case y of Inl s' \<Rightarrow> (\<exists>k. page \<le> k \<and> I (Suc k) s') | Inr r \<Rightarrow> Q r"
proof -
  have "body = body \<longrightarrow> page \<le> page \<longrightarrow> I page s \<longrightarrow>
          (case y of Inl s' \<Rightarrow> (\<exists>k. page \<le> k \<and> I (Suc k) s') | Inr r \<Rightarrow> Q r)"
  proof (rule forPages.raw_induct[where P = "\<lambda>b k s y. b = body \<longrightarrow> page \<le> k \<longrightarrow> I k s \<longrightarrow>
            (case y of Inl s' \<Rightarrow> (\<exists>k. page \<le> k \<and> I (Suc k) s') | Inr r \<Rightarrow> Q r)", OF _ run])
    fix f b k s y
    assume IH: "\<And>b' p' s' y'. f b' p' s' = Some y' \<Longrightarrow>
                  b' = body \<longrightarrow> page \<le> p' \<longrightarrow> I p' s' \<longrightarrow>
                  (case y' of Inl s' \<Rightarrow> (\<exists>k. page \<le> k \<and> I (Suc k) s') | Inr r \<Rightarrow> Q r)"
      and eq: "(case b k s of
                  Next (s', hasNextPage) \<Rightarrow> if hasNextPage then f b (k + 1) s' else Some (Inl s')
                | Return r \<Rightarrow> Some (Inr r)) = Some y"
    show "b = body \<longrightarrow> page \<le> k \<longrightarrow> I k s \<longrightarrow>
            (case y of Inl s' \<Rightarrow> (\<exists>k. page \<le> k \<and> I (Suc k) s') | Inr r \<Rightarrow> Q r)"
    proof (intro impI)
      assume b: "b = body" and le: "page \<le> k" and inv: "I k s"
      show "case y of Inl s' \<Rightarrow> (\<exists>k. page \<le> k \<and> I (Suc k) s') | Inr r \<Rightarrow> Q r"
      proof (cases "body k s")
        case (Return r)
        with eq b have "y = Inr r" by simp
        with ret[OF le inv Return] show ?thesis by simp
      next
        case (Next sb)
        obtain s' hn where sb: "sb = (s', hn)" by (cases sb)
        have inv': "I (Suc k) s'" using step[OF le inv] Next sb by simp
        show ?thesis
        proof (cases hn)
          case True
          with eq b Next sb have "f body (k + 1) s' = Some y" by simp
          from IH[OF this] inv' le show ?thesis by simp
        next
          case False
          with eq b Next sb have "y = Inl s'" by simp
          with inv' le show ?thesis by auto
        qed
      qed
    qed
  qed
  with init show ?thesis by simp
qed

text \<open>The rule for an invariant that does not mention the page number.\<close>

lemma forPages_inv:
  assumes run: "forPages body page s = Some y"
    and init: "I s"
    and step: "\<And>k s s' b. I s \<Longrightarrow> body k s = Next (s', b) \<Longrightarrow> I s'"
    and ret: "\<And>k s r. I s \<Longrightarrow> body k s = Return r \<Longrightarrow> Q r"
  shows "case y of Inl s' \<Rightarrow> I s' | Inr r \<Rightarrow> Q r"
  using forPages_rule[OF run, where I = "\<lambda>k. I" and Q = Q] init step ret
  by (cases y) auto

text \<open>The same for the loop over a list.\<close>

lemma forRange_rule:
  assumes run: "forRange body xs s = Some y"
    and init: "I s"
    and step: "\<And>x s s'. x \<in> set xs \<Longrightarrow> I s \<Longrightarrow> body x s = Some (Next s') \<Longrightarrow> I s'"
    and ret: "\<And>x s r. x \<in> set xs \<Longrightarrow> I s \<Longrightarrow> body x s = Some (Return r) \<Longrightarrow> Q r"
  shows "case y of Inl s' \<Rightarrow> I s' | Inr r \<Rightarrow> Q r"
  using run init step ret
proof (induction xs arbitrary: s)
  case Nil
  then show ?case by auto
next
  case (Cons x xs)
  show ?case
  proof (cases "body x s")
    case None
    with Cons.prems(1) show ?thesis by simp
  next
    case (Some fl)
    show ?thesis
    proof (cases fl)
      case (Return r)
      with Some Cons.prems(1) have "y = Inr r" by simp
      moreover have "Q r" using Cons.prems(4)[of x s r] Cons.prems(2) Some Return by simp
      ultimately show ?thesis by simp
    next
      case (Next s')
      with Some Cons.prems(1) have run': "forRange body xs s' = Some y" by simp
      have inv': "I s'" using Cons.prems(3)[of x s s'] Cons.prems(2) Some Next by simp
      show ?thesis
        by (rule Cons.IH[OF run' inv']) (auto intro: Cons.prems(3) Cons.prems(4))
    qed
  qed
qed

text \<open>Total correctness of the page loop: when the body goes on to the next page on every
  page before \<open>n\<close> and stops on page \<open>n\<close>, the loop ends there.\<close>

lemma forPages_total:
  assumes init: "I page s" and le: "page \<le> n"
    and step: "\<And>k s. page \<le> k \<Longrightarrow> k < n \<Longrightarrow> I k s
                 \<Longrightarrow> \<exists>s'. body k s = Next (s', True) \<and> I (Suc k) s'"
    and last: "\<And>s. I n s \<Longrightarrow> (\<exists>r. body n s = Return r \<and> Q (Inr r))
                 \<or> (\<exists>s'. body n s = Next (s', False) \<and> Q (Inl s'))"
  shows "\<exists>y. forPages body page s = Some y \<and> Q y"
  using init le step
proof (induction "n - page" arbitrary: page s)
  case 0
  then have "page = n" by simp
  with last[of s] 0 show ?case
    by (subst forPages.simps) auto
next
  case (Suc d)
  then have lt: "page < n" by simp
  from Suc.prems(3)[OF le_refl lt Suc.prems(1)] obtain s' where
    b: "body page s = Next (s', True)" and inv': "I (Suc page) s'" by blast
  have "\<exists>y. forPages body (Suc page) s' = Some y \<and> Q y"
  proof (rule Suc.hyps(1))
    show "d = n - Suc page" using Suc.hyps(2) by simp
    show "I (Suc page) s'" by (rule inv')
    show "Suc page \<le> n" using lt by simp
    show "\<And>k s. Suc page \<le> k \<Longrightarrow> k < n \<Longrightarrow> I k s
            \<Longrightarrow> \<exists>s'. body k s = Next (s', True) \<and> I (Suc k) s'"
      using Suc.prems(3) by simp
  qed
  then show ?case using b by (subst forPages.simps) simp
qed

subsection \<open>The accumulators never list an identifier twice\<close>


lemma addRepoToUserPerms_ok:
  "userPermsOK acc \<Longrightarrow>
     userPermsOK (addRepoToUserPerms repos acc) \<and>
     snd (addRepoToUserPerms repos acc) = snd acc \<union> set repos"
proof (induction repos arbitrary: acc)
  case Nil
  then show ?case by (cases acc) simp
next
  case (Cons repo repos)
  obtain perms seenRepos where acc: "acc = (perms, seenRepos)" by (cases acc)
  show ?case
  proof (cases "repo \<in> seenRepos")
    case True
    with Cons.IH[of acc] Cons.prems acc show ?thesis by auto
  next
    case False
    have "userPermsOK (perms\<lparr>Exacts := Exacts perms @ [repo]\<rparr>, insert repo seenRepos)"
      using Cons.prems acc False by (auto simp: userPermsOK_def)
    from Cons.IH[OF this] acc False show ?thesis by auto
  qed
qed

lemma fold_addRepoToUserPerms_ok:
  "userPermsOK acc \<Longrightarrow>
     userPermsOK (fold (\<lambda>r. addRepoToUserPerms [ID r]) repos acc) \<and>
     snd (fold (\<lambda>r. addRepoToUserPerms [ID r]) repos acc) = snd acc \<union> ID ` set repos"
proof (induction repos arbitrary: acc)
  case Nil
  then show ?case by simp
next
  case (Cons r repos)
  from addRepoToUserPerms_ok[OF Cons.prems, of "[ID r]"]
  have ok: "userPermsOK (addRepoToUserPerms [ID r] acc)"
    and s: "snd (addRepoToUserPerms [ID r] acc) = snd acc \<union> {ID r}" by simp_all
  from Cons.IH[OF ok] s show ?case by auto
qed

lemma userPermsOK_distinct: "userPermsOK acc \<Longrightarrow> distinct (Exacts (fst acc))"
  by (simp add: userPermsOK_def)

lemma userPermsOK_pairD: "userPermsOK (perms, seen) \<Longrightarrow> distinct (Exacts perms)"
  by (simp add: userPermsOK_def)

lemmas fold_addRepoToUserPerms_ok1 = fold_addRepoToUserPerms_ok[THEN conjunct1]

lemma fold_group_addRepo:
  "fold (\<lambda>r (grp, acc). (grp\<lparr>Repositories := Repositories grp @ [ID r]\<rparr>, addRepoToUserPerms [ID r] acc)) repos (grp, acc)
   = (grp\<lparr>Repositories := Repositories grp @ map ID repos\<rparr>, fold (\<lambda>r. addRepoToUserPerms [ID r]) repos acc)"
  by (induction repos arbitrary: grp acc) simp_all


lemma listReposForUser_eq:
  "listReposForUser p cl affs k (acc, tr) =
     (case affiliatedRepositories (codeHostAPI cl) (token cl) VisibilityPrivate k affs of
        (repos, hasNextPage, err) \<Rightarrow>
          (case err of
             Some e \<Rightarrow>
               Return (fst acc, Some (Wrap e ''list repos for user''), groupsCache p,
                       tr @ [Request (token cl) (ReqListAffiliatedRepositories VisibilityPrivate k affs)])
           | None \<Rightarrow>
               Next ((fold (\<lambda>r. addRepoToUserPerms [ID r]) repos acc,
                      tr @ [Request (token cl) (ReqListAffiliatedRepositories VisibilityPrivate k affs)]),
                     hasNextPage)))"
  by (simp add: listReposForUser_def ListAffiliatedRepositories_def split: prod.splits)

lemma listReposForGroup_eq:
  "listReposForGroup p c isOrg k (grp, acc, tr) =
     (case groupPage p isOrg grp k of
        (repos, hasNextPage, err) \<Rightarrow>
          (case err of
             Some e \<Rightarrow>
               Return (fst (fold (\<lambda>r. addRepoToUserPerms [ID r]) repos acc),
                       Some (Wrap e ''list repos for group''), Some c,
                       tr @ [Request (token (client p)) (groupRequest isOrg grp k)])
           | None \<Rightarrow>
               Next ((grp\<lparr>Repositories := Repositories grp @ map ID repos\<rparr>,
                      fold (\<lambda>r. addRepoToUserPerms [ID r]) repos acc,
                      tr @ [Request (token (client p)) (groupRequest isOrg grp k)]),
                     hasNextPage)))"
  by (simp add: listReposForGroup_def ListOrgRepositories_def ListTeamRepositories_def
        groupPage_def groupRequest_def fold_group_addRepo split: prod.splits option.splits)

lemma direct_phase_ok:
  assumes "forPages (listReposForUser p cl affs) page (acc, tr) = Some y" and "userPermsOK acc"
  shows "case y of Inl s \<Rightarrow> userPermsOK (fst s) | Inr r \<Rightarrow> distinct (Exacts (fst r))"
proof -
  have "case y of Inl s' \<Rightarrow> userPermsOK (fst s') | Inr r \<Rightarrow> distinct (Exacts (fst r))"
  proof (rule forPages_inv[OF assms(1), where I = "\<lambda>s. userPermsOK (fst s)"])
    show "userPermsOK (fst (acc, tr))" using assms(2) by simp
  next
    fix k s s' b
    assume "userPermsOK (fst s)" and "listReposForUser p cl affs k s = Next (s', b)"
    then show "userPermsOK (fst s')"
      by (cases s) (auto simp: listReposForUser_eq fold_addRepoToUserPerms_ok1 split: prod.splits option.splits)
  next
    fix k s r
    assume "userPermsOK (fst s)" and "listReposForUser p cl affs k s = Return r"
    then show "distinct (Exacts (fst r))"
      by (cases s) (auto simp: listReposForUser_eq dest: userPermsOK_pairD split: prod.splits option.splits)
  qed
  then show ?thesis by (cases y) auto
qed

lemma fullSyncRepos_ok:
  assumes "fullSyncRepos p g (acc, c, tr) = Some fl" and "userPermsOK acc"
  shows "case fl of Next s \<Rightarrow> userPermsOK (fst s) | Return r \<Rightarrow> distinct (Exacts (fst r))"
proof -
  obtain y where run: "forPages (listReposForGroup p c (Team g = [])) 1 (g\<lparr>Repositories := []\<rparr>, acc, tr) = Some y"
    using assms(1) by (auto simp: fullSyncRepos_def split: option.splits)
  have "case y of Inl s' \<Rightarrow> userPermsOK (fst (snd s')) | Inr r \<Rightarrow> distinct (Exacts (fst r))"
  proof (rule forPages_inv[OF run, where I = "\<lambda>s. userPermsOK (fst (snd s))"])
    show "userPermsOK (fst (snd (g\<lparr>Repositories := []\<rparr>, acc, tr)))" using assms(2) by simp
  next
    fix k s s' b
    assume "userPermsOK (fst (snd s))" and "listReposForGroup p c (Team g = []) k s = Next (s', b)"
    then show "userPermsOK (fst (snd s'))"
      by (cases s) (auto simp: listReposForGroup_eq fold_addRepoToUserPerms_ok1 split: prod.splits option.splits)
  next
    fix k s r
    assume "userPermsOK (fst (snd s))" and "listReposForGroup p c (Team g = []) k s = Return r"
    then show "distinct (Exacts (fst r))"
      by (cases s) (auto simp: listReposForGroup_eq intro!: userPermsOK_distinct fold_addRepoToUserPerms_ok1
            split: prod.splits option.splits)
  qed
  with assms(1) run show ?thesis
    by (auto simp: fullSyncRepos_def setGroup_def split: sum.splits prod.splits)
qed

lemma syncUserGroup_ok:
  assumes "syncUserGroup p accountID g s = Some fl" and "userPermsOK (fst s)"
  shows "case fl of Next s' \<Rightarrow> userPermsOK (fst s') | Return r \<Rightarrow> distinct (Exacts (fst r))"
proof -
  obtain acc c tr where s: "s = (acc, c, tr)" by (cases s)
  obtain g' c' tr' where a: "addAccountToGroup accountID g (c, tr) = (g', c', tr')"
    by (cases "addAccountToGroup accountID g (c, tr)")
  show ?thesis
  proof (cases "Repositories g' \<noteq> []")
    case True
    with assms s a show ?thesis
      by (auto simp: syncUserGroup_def addRepoToUserPerms_ok)
  next
    case False
    with assms(1) s a have "fullSyncRepos p g' (acc, c', tr') = Some fl"
      by (simp add: syncUserGroup_def)
    from fullSyncRepos_ok[OF this] assms(2) s show ?thesis by simp
  qed
qed

lemma fetchUserPermsByToken_distinct:
  assumes "fetchUserPermsByToken p accountID tok opts tr = Some (perms, err, c', tr')"
  shows "distinct (Exacts perms)"
proof -
  let ?cl = "WithToken (client p) tok"
  let ?affs = "if groupsCache p = None then [] else [AffiliationOwner, AffiliationCollaborator]"
  have ok0: "userPermsOK (\<lparr>Exacts = []\<rparr>, {})" by (simp add: userPermsOK_def)
  obtain y where run: "forPages (listReposForUser p ?cl ?affs) 1 ((\<lparr>Exacts = []\<rparr>, {}), tr) = Some y"
    using assms by (auto simp: fetchUserPermsByToken_def Let_def split: option.splits)
  note d = direct_phase_ok[OF run ok0]
  show ?thesis
  proof (cases y)
    case (Inr r)
    with assms run d show ?thesis by (auto simp: fetchUserPermsByToken_def Let_def)
  next
    case (Inl s)
    obtain acc tr1 where s: "s = (acc, tr1)" by (cases s)
    have ok1: "userPermsOK acc" using d Inl s by simp
    show ?thesis
    proof (cases "groupsCache p")
      case None
      with assms run Inl s ok1 show ?thesis
        by (auto simp: fetchUserPermsByToken_def Let_def userPermsOK_distinct dest: userPermsOK_pairD)
    next
      case (Some c)
      obtain groups gerr c1 tr2 where g: "getUserAffiliatedGroups c ?cl opts tr1 = Some (groups, gerr, c1, tr2)"
        using assms run Inl s Some
        by (auto simp: fetchUserPermsByToken_def Let_def split: option.splits)
      show ?thesis
      proof (cases gerr)
        case (Some e)
        with assms run Inl s \<open>groupsCache p = Some c\<close> g ok1 show ?thesis
          by (auto simp: fetchUserPermsByToken_def Let_def userPermsOK_distinct dest: userPermsOK_pairD)
      next
        case None
        obtain z where loop: "forRange (syncUserGroup p accountID) groups (acc, c1, tr2) = Some z"
          using assms run Inl s \<open>groupsCache p = Some c\<close> g None
          by (auto simp: fetchUserPermsByToken_def Let_def split: option.splits)
        have "case z of Inl s' \<Rightarrow> userPermsOK (fst s') | Inr r \<Rightarrow> distinct (Exacts (fst r))"
        proof (rule forRange_rule[OF loop, where I = "\<lambda>s. userPermsOK (fst s)"])
          show "userPermsOK (fst (acc, c1, tr2))" using ok1 by simp
        next
          fix x s s'
          assume "userPermsOK (fst s)" "syncUserGroup p accountID x s = Some (Next s')"
          from syncUserGroup_ok[OF this(2) this(1)] show "userPermsOK (fst s')" by simp
        next
          fix x s r
          assume "userPermsOK (fst s)" "syncUserGroup p accountID x s = Some (Return r)"
          from syncUserGroup_ok[OF this(2) this(1)] show "distinct (Exacts (fst r))" by simp
        qed
        with assms run Inl s \<open>groupsCache p = Some c\<close> g None loop show ?thesis
          by (auto simp: fetchUserPermsByToken_def Let_def dest: userPermsOK_pairD split: sum.splits)
      qed
    qed
  qed
qed


lemma addUserToRepoPerms_ok:
  "repoPermsOK acc \<Longrightarrow>
     repoPermsOK (addUserToRepoPerms users acc) \<and>
     snd (addUserToRepoPerms users acc) = snd acc \<union> set users"
proof (induction users arbitrary: acc)
  case Nil
  then show ?case by (cases acc) simp
next
  case (Cons user users)
  obtain userIDs seenUsers where acc: "acc = (userIDs, seenUsers)" by (cases acc)
  show ?case
  proof (cases "user \<in> seenUsers")
    case True
    with Cons.IH[of acc] Cons.prems acc show ?thesis by auto
  next
    case False
    have "repoPermsOK (userIDs @ [user], insert user seenUsers)"
      using Cons.prems acc False by (auto simp: repoPermsOK_def)
    from Cons.IH[OF this] acc False show ?thesis by auto
  qed
qed

lemma fold_addUserToRepoPerms_ok:
  "repoPermsOK acc \<Longrightarrow>
     repoPermsOK (fold (\<lambda>u. addUserToRepoPerms [FormatInt (DatabaseID u)]) users acc) \<and>
     snd (fold (\<lambda>u. addUserToRepoPerms [FormatInt (DatabaseID u)]) users acc)
       = snd acc \<union> accountIDOf ` set users"
proof (induction users arbitrary: acc)
  case Nil
  then show ?case by simp
next
  case (Cons u users)
  from addUserToRepoPerms_ok[OF Cons.prems, of "[FormatInt (DatabaseID u)]"]
  have ok: "repoPermsOK (addUserToRepoPerms [FormatInt (DatabaseID u)] acc)"
    and s: "snd (addUserToRepoPerms [FormatInt (DatabaseID u)] acc) = snd acc \<union> {accountIDOf u}"
    by (simp_all add: accountIDOf_def)
  from Cons.IH[OF ok] s show ?case by auto
qed

lemmas fold_addUserToRepoPerms_ok1 = fold_addUserToRepoPerms_ok[THEN conjunct1]

lemma repoPermsOK_distinct: "repoPermsOK acc \<Longrightarrow> distinct (fst acc)"
  by (simp add: repoPermsOK_def)

lemma repoPermsOK_pairD: "repoPermsOK (userIDs, seen) \<Longrightarrow> distinct userIDs"
  by (simp add: repoPermsOK_def)

lemma fold_group_addUser:
  "fold (\<lambda>u (grp, acc).
           let accountID = FormatInt (DatabaseID u)
           in (grp\<lparr>embedded := (embedded grp)\<lparr>Users := Users (embedded grp) @ [accountID]\<rparr>\<rparr>,
               addUserToRepoPerms [accountID] acc)) members (grp, acc)
   = (grp\<lparr>embedded := (embedded grp)\<lparr>Users := Users (embedded grp) @ map accountIDOf members\<rparr>\<rparr>,
      fold (\<lambda>u. addUserToRepoPerms [FormatInt (DatabaseID u)]) members acc)"
  by (induction members arbitrary: grp acc) (simp_all add: accountIDOf_def Let_def)

lemma listUsersForRepo_eq:
  "listUsersForRepo p owner name aff k (acc, tr) =
     (case repositoryCollaborators (codeHostAPI (client p)) (token (client p)) owner name k aff of
        (users, hasNextPage, err) \<Rightarrow>
          (case err of
             Some e \<Rightarrow>
               Return (Some (fst acc), Some (Wrap e ''list users for repo''), groupsCache p,
                       tr @ [Request (token (client p)) (ReqListRepositoryCollaborators owner name k aff)])
           | None \<Rightarrow>
               Next ((fold (\<lambda>u. addUserToRepoPerms [FormatInt (DatabaseID u)]) users acc,
                      tr @ [Request (token (client p)) (ReqListRepositoryCollaborators owner name k aff)]),
                     hasNextPage)))"
  by (simp add: listUsersForRepo_def ListRepositoryCollaborators_def split: prod.splits)

lemma listUsersForGroup_eq:
  "listUsersForGroup p c owner k (grp, acc, tr) =
     (case memberPage p owner grp k of
        (members, hasNextPage, err) \<Rightarrow>
          (case err of
             Some e \<Rightarrow>
               Return (Some (fst acc), Some (Wrap e ''list users for group''), Some c,
                       tr @ [Request (token (client p)) (memberRequest owner grp k)])
           | None \<Rightarrow>
               Next ((grp\<lparr>embedded := (embedded grp)
                             \<lparr>Users := Users (embedded grp) @ map accountIDOf members\<rparr>\<rparr>,
                      fold (\<lambda>u. addUserToRepoPerms [FormatInt (DatabaseID u)]) members acc,
                      tr @ [Request (token (client p)) (memberRequest owner grp k)]),
                     hasNextPage)))"
  by (simp add: listUsersForGroup_def ListOrganizationMembers_def ListTeamMembers_def
        memberPage_def memberRequest_def fold_group_addUser split: prod.splits option.splits)

lemma collaborators_phase_ok:
  assumes "forPages (listUsersForRepo p owner name aff) page (acc, tr) = Some y" and "repoPermsOK acc"
  shows "case y of Inl s \<Rightarrow> repoPermsOK (fst s) | Inr r \<Rightarrow> (\<forall>ids. fst r = Some ids \<longrightarrow> distinct ids)"
proof -
  have "case y of Inl s' \<Rightarrow> repoPermsOK (fst s')
        | Inr r \<Rightarrow> (\<forall>ids. fst r = Some ids \<longrightarrow> distinct ids)"
  proof (rule forPages_inv[OF assms(1), where I = "\<lambda>s. repoPermsOK (fst s)"])
    show "repoPermsOK (fst (acc, tr))" using assms(2) by simp
  next
    fix k s s' b
    assume "repoPermsOK (fst s)" and "listUsersForRepo p owner name aff k s = Next (s', b)"
    then show "repoPermsOK (fst s')"
      by (cases s) (auto simp: listUsersForRepo_eq fold_addUserToRepoPerms_ok1 split: prod.splits option.splits)
  next
    fix k s r
    assume "repoPermsOK (fst s)" and "listUsersForRepo p owner name aff k s = Return r"
    then show "\<forall>ids. fst r = Some ids \<longrightarrow> distinct ids"
      by (cases s) (auto simp: listUsersForRepo_eq dest: repoPermsOK_pairD split: prod.splits option.splits)
  qed
  then show ?thesis by (cases y) auto
qed

lemma fullSyncUsers_ok:
  assumes "fullSyncUsers p owner g (acc, c, tr) = Some fl" and "repoPermsOK acc"
  shows "case fl of Next s \<Rightarrow> repoPermsOK (fst s)
         | Return r \<Rightarrow> (\<forall>ids. fst r = Some ids \<longrightarrow> distinct ids)"
proof -
  obtain y where run: "forPages (listUsersForGroup p c owner) 1 (g, acc, tr) = Some y"
    using assms(1) by (auto simp: fullSyncUsers_def split: option.splits)
  have "case y of Inl s' \<Rightarrow> repoPermsOK (fst (snd s'))
        | Inr r \<Rightarrow> (\<forall>ids. fst r = Some ids \<longrightarrow> distinct ids)"
  proof (rule forPages_inv[OF run, where I = "\<lambda>s. repoPermsOK (fst (snd s))"])
    show "repoPermsOK (fst (snd (g, acc, tr)))" using assms(2) by simp
  next
    fix k s s' b
    assume "repoPermsOK (fst (snd s))" and "listUsersForGroup p c owner k s = Next (s', b)"
    then show "repoPermsOK (fst (snd s'))"
      by (cases s) (auto simp: listUsersForGroup_eq fold_addUserToRepoPerms_ok1 split: prod.splits option.splits)
  next
    fix k s r
    assume "repoPermsOK (fst (snd s))" and "listUsersForGroup p c owner k s = Return r"
    then show "\<forall>ids. fst r = Some ids \<longrightarrow> distinct ids"
      by (cases s) (auto simp: listUsersForGroup_eq dest: repoPermsOK_pairD split: prod.splits option.splits)
  qed
  with assms(1) run show ?thesis
    by (auto simp: fullSyncUsers_def setGroup_def split: sum.splits prod.splits)
qed

lemma syncRepoGroup_ok:
  assumes "syncRepoGroup p owner repoID g s = Some fl" and "repoPermsOK (fst s)"
  shows "case fl of Next s' \<Rightarrow> repoPermsOK (fst s')
         | Return r \<Rightarrow> (\<forall>ids. fst r = Some ids \<longrightarrow> distinct ids)"
proof -
  obtain acc c tr where s: "s = (acc, c, tr)" by (cases s)
  obtain g' c' tr' where a: "addRepoToGroup repoID g (c, tr) = (g', c', tr')"
    by (cases "addRepoToGroup repoID g (c, tr)")
  show ?thesis
  proof (cases "Users (embedded g') \<noteq> []")
    case True
    with assms s a show ?thesis
      by (auto simp: syncRepoGroup_def addUserToRepoPerms_ok)
  next
    case False
    with assms(1) s a have "fullSyncUsers p owner g' (acc, c', tr') = Some fl"
      by (simp add: syncRepoGroup_def)
    from fullSyncUsers_ok[OF this] assms(2) s show ?thesis by simp
  qed
qed

lemma FetchRepoPerms_distinct:
  assumes "FetchRepoPerms p repo opts tr = Some (Some userIDs, err, c', tr')"
  shows "distinct userIDs"
proof -
  obtain r where repo: "repo = Some r" using assms by (cases repo) (auto simp: FetchRepoPerms_def)
  have host: "IsHostOfRepo (codeHost p) (ExternalRepoSpec r)"
    using assms repo by (auto simp: FetchRepoPerms_def split: if_splits)
  let ?nwo = "TrimPrefix (TrimPrefix (URI r) (Hostname (codeHost p))) ''/''"
  obtain owner name where split: "SplitRepositoryNameWithOwner ?nwo = Inr (owner, name)"
    using assms repo host by (auto simp: FetchRepoPerms_def Let_def split: sum.splits)
  let ?aff = "if groupsCache p = None then AffiliationAny else AffiliationDirect"
  have ok0: "repoPermsOK ([], {})" by (simp add: repoPermsOK_def)
  obtain y where run: "forPages (listUsersForRepo p owner name ?aff) 1 (([], {}), tr) = Some y"
    using assms repo host split by (auto simp: FetchRepoPerms_def Let_def split: option.splits)
  note d = collaborators_phase_ok[OF run ok0]
  show ?thesis
  proof (cases y)
    case (Inr res)
    with assms repo host split run d show ?thesis by (auto simp: FetchRepoPerms_def Let_def)
  next
    case (Inl s)
    obtain acc tr1 where s: "s = (acc, tr1)" by (cases s)
    have ok1: "repoPermsOK acc" using d Inl s by simp
    show ?thesis
    proof (cases "groupsCache p")
      case None
      with assms repo host split run Inl s ok1 show ?thesis
        by (auto simp: FetchRepoPerms_def Let_def repoPermsOK_distinct)
    next
      case (Some c)
      obtain groups gerr c1 tr2 where g: "getRepoAffiliatedGroups p c owner name opts tr1 = Some (groups, gerr, c1, tr2)"
        using assms repo host split run Inl s Some
        by (auto simp: FetchRepoPerms_def Let_def split: option.splits)
      show ?thesis
      proof (cases gerr)
        case (Some e)
        with assms repo host split run Inl s \<open>groupsCache p = Some c\<close> g ok1 show ?thesis
          by (auto simp: FetchRepoPerms_def Let_def repoPermsOK_distinct)
      next
        case None
        obtain z where loop: "forRange (syncRepoGroup p owner (RepoSpecID (ExternalRepoSpec r))) groups (acc, c1, tr2) = Some z"
          using assms repo host split run Inl s \<open>groupsCache p = Some c\<close> g None
          by (auto simp: FetchRepoPerms_def Let_def split: option.splits)
        have "case z of Inl s' \<Rightarrow> repoPermsOK (fst s')
              | Inr r \<Rightarrow> (\<forall>ids. fst r = Some ids \<longrightarrow> distinct ids)"
        proof (rule forRange_rule[OF loop, where I = "\<lambda>s. repoPermsOK (fst s)"])
          show "repoPermsOK (fst (acc, c1, tr2))" using ok1 by simp
        next
          fix x s s'
          assume "repoPermsOK (fst s)" "syncRepoGroup p owner (RepoSpecID (ExternalRepoSpec r)) x s = Some (Next s')"
          from syncRepoGroup_ok[OF this(2) this(1)] show "repoPermsOK (fst s')" by simp
        next
          fix x s ra
          assume "repoPermsOK (fst s)" "syncRepoGroup p owner (RepoSpecID (ExternalRepoSpec r)) x s = Some (Return ra)"
          from syncRepoGroup_ok[OF this(2) this(1)] show "\<forall>ids. fst ra = Some ids \<longrightarrow> distinct ids" by simp
        qed
        with assms repo host split run Inl s \<open>groupsCache p = Some c\<close> g None loop show ?thesis
          by (auto simp: FetchRepoPerms_def Let_def repoPermsOK_distinct dest: repoPermsOK_pairD split: sum.splits)
      qed
    qed
  qed
qed

subsection \<open>The events of a fetch for an account\<close>

lemma extends_refl: "extends P tr tr"
  by (simp add: extends_def)


lemma extends_snoc: "extends P tr tr' \<Longrightarrow> P ev \<Longrightarrow> extends P tr (tr' @ [ev])"
  by (auto simp: extends_def)

lemma direct_phase_trace:
  assumes "forPages (listReposForUser p cl affs) page (acc, tr) = Some y"
    and "extends P tr0 tr"
    and "\<And>k. P (Request (token cl) (ReqListAffiliatedRepositories VisibilityPrivate k affs))"
  shows "extends P tr0 (case y of Inl s \<Rightarrow> snd s | Inr r \<Rightarrow> snd (snd (snd r)))"
proof -
  have "case y of Inl s' \<Rightarrow> extends P tr0 (snd s')
        | Inr r \<Rightarrow> extends P tr0 (snd (snd (snd r)))"
  proof (rule forPages_inv[OF assms(1), where I = "\<lambda>s. extends P tr0 (snd s)"])
    show "extends P tr0 (snd (acc, tr))" using assms(2) by simp
  next
    fix k s s' hn
    assume "extends P tr0 (snd s)" and "listReposForUser p cl affs k s = Next (s', hn)"
    then show "extends P tr0 (snd s')"
      by (cases s) (auto simp: listReposForUser_eq intro!: extends_snoc assms(3) split: prod.splits option.splits)
  next
    fix k s r
    assume "extends P tr0 (snd s)" and "listReposForUser p cl affs k s = Return r"
    then show "extends P tr0 (snd (snd (snd r)))"
      by (cases s) (auto simp: listReposForUser_eq intro!: extends_snoc assms(3) split: prod.splits option.splits)
  qed
  then show ?thesis by (cases y) auto
qed

lemma userSyncGroup_trace:
  assumes "userSyncGroup opts org team st = st'" and "extends P tr0 (snd (snd (snd st)))"
    and "\<And>g. P (InvalidateGroup g)"
  shows "extends P tr0 (snd (snd (snd st')))"
  using assms
  by (cases st) (auto simp: userSyncGroup_def invalidateGroup_def Let_def intro!: extends_snoc
        split: prod.splits if_splits)

lemma fold_trace:
  assumes "\<And>x st. x \<in> set xs \<Longrightarrow> extends P tr0 (T st) \<Longrightarrow> extends P tr0 (T (f x st))"
    and "extends P tr0 (T st)"
  shows "extends P tr0 (T (fold f xs st))"
  using assms by (induction xs arbitrary: st) auto

lemma listOrgsForUser_trace:
  assumes "listOrgsForUser cl opts k st = fl" and "extends P tr0 (snd (snd (snd st)))"
    and "\<And>g. P (InvalidateGroup g)"
    and "P (Request (token cl) (ReqGetAuthenticatedUserOrgsDetailsAndMembership k))"
  shows "extends P tr0 (case fl of Next (s', b) \<Rightarrow> snd (snd (snd s')) | Return r \<Rightarrow> snd (snd (snd r)))"
proof -
  obtain groups seen c tr where st: "st = (groups, seen, c, tr)" by (cases st)
  let ?tr = "tr @ [Request (token cl) (ReqGetAuthenticatedUserOrgsDetailsAndMembership k)]"
  have e: "extends P tr0 ?tr" using assms(2,4) st by (auto intro: extends_snoc)
  obtain orgs hn err where pg: "userOrgsDetailsAndMembership (codeHostAPI cl) (token cl) k = (orgs, hn, err)"
    by (cases "userOrgsDetailsAndMembership (codeHostAPI cl) (token cl) k")
  show ?thesis
  proof (cases err)
    case (Some e')
    with assms(1) st pg e show ?thesis
      by (auto simp: listOrgsForUser_def GetAuthenticatedUserOrgsDetailsAndMembership_def)
  next
    case None
    let ?f = "\<lambda>org st. if canViewOrgRepos org
                         then (case OrgDetails org of Some d \<Rightarrow> userSyncGroup opts (Login d) [] st | None \<Rightarrow> st)
                         else st"
    have "extends P tr0 (snd (snd (snd (fold ?f orgs (groups, seen, c, ?tr)))))"
      by (rule fold_trace[where T = "\<lambda>st. snd (snd (snd st))"])
         (auto simp: e intro: userSyncGroup_trace assms(3) split: option.splits)
    with assms(1) st pg None show ?thesis
      by (auto simp: listOrgsForUser_def GetAuthenticatedUserOrgsDetailsAndMembership_def)
  qed
qed

lemma listTeamsForUser_trace:
  assumes "listTeamsForUser cl opts k st = fl" and "extends P tr0 (snd (snd (snd st)))"
    and "\<And>g. P (InvalidateGroup g)"
    and "P (Request (token cl) (ReqGetAuthenticatedUserTeams k))"
  shows "extends P tr0 (case fl of Next (s', b) \<Rightarrow> snd (snd (snd s')) | Return r \<Rightarrow> snd (snd (snd r)))"
proof -
  obtain groups seen c tr where st: "st = (groups, seen, c, tr)" by (cases st)
  let ?tr = "tr @ [Request (token cl) (ReqGetAuthenticatedUserTeams k)]"
  have e: "extends P tr0 ?tr" using assms(2,4) st by (auto intro: extends_snoc)
  obtain teams hn err where pg: "userTeams (codeHostAPI cl) (token cl) k = (teams, hn, err)"
    by (cases "userTeams (codeHostAPI cl) (token cl) k")
  show ?thesis
  proof (cases err)
    case (Some e')
    with assms(1) st pg e show ?thesis
      by (auto simp: listTeamsForUser_def GetAuthenticatedUserTeams_def)
  next
    case None
    let ?f = "\<lambda>team st. case Organization team of
                           Some parent \<Rightarrow> if ReposCount team > 0
                                          then userSyncGroup opts (Login parent) (Slug team) st else st
                         | None \<Rightarrow> st"
    have "extends P tr0 (snd (snd (snd (fold ?f teams (groups, seen, c, ?tr)))))"
      by (rule fold_trace[where T = "\<lambda>st. snd (snd (snd st))"])
         (auto simp: e intro: userSyncGroup_trace assms(3) split: option.splits)
    with assms(1) st pg None show ?thesis
      by (auto simp: listTeamsForUser_def GetAuthenticatedUserTeams_def)
  qed
qed

lemma getUserAffiliatedGroups_trace:
  assumes "getUserAffiliatedGroups c cl opts tr = Some (groups, err, c', tr')"
    and "extends P tr0 tr"
    and "\<And>g. P (InvalidateGroup g)"
    and "\<And>k. P (Request (token cl) (ReqGetAuthenticatedUserOrgsDetailsAndMembership k))"
    and "\<And>k. P (Request (token cl) (ReqGetAuthenticatedUserTeams k))"
  shows "extends P tr0 tr'"
proof -
  obtain y where run1: "forPages (listOrgsForUser cl opts) 1 ([], {}, c, tr) = Some y"
    using assms(1) by (auto simp: getUserAffiliatedGroups_def split: option.splits)
  have r1: "case y of Inl s' \<Rightarrow> extends P tr0 (snd (snd (snd s')))
        | Inr r \<Rightarrow> extends P tr0 (snd (snd (snd r)))"
  proof (rule forPages_inv[OF run1, where I = "\<lambda>s. extends P tr0 (snd (snd (snd s)))"])
    show "extends P tr0 (snd (snd (snd ([], {}, c, tr))))" using assms(2) by simp
  next
    fix k s s' hn
    assume "extends P tr0 (snd (snd (snd s)))" and "listOrgsForUser cl opts k s = Next (s', hn)"
    from listOrgsForUser_trace[OF this(2) this(1) assms(3) assms(4)]
    show "extends P tr0 (snd (snd (snd s')))" by simp
  next
    fix k s r
    assume "extends P tr0 (snd (snd (snd s)))" and "listOrgsForUser cl opts k s = Return r"
    from listOrgsForUser_trace[OF this(2) this(1) assms(3) assms(4)]
    show "extends P tr0 (snd (snd (snd r)))" by simp
  qed
  show ?thesis
  proof (cases y)
    case (Inr r)
    with assms(1) run1 r1 show ?thesis by (auto simp: getUserAffiliatedGroups_def)
  next
    case (Inl st)
    with r1 have e1: "extends P tr0 (snd (snd (snd st)))" by simp
    obtain z where run2: "forPages (listTeamsForUser cl opts) 1 st = Some z"
      using assms(1) run1 Inl by (auto simp: getUserAffiliatedGroups_def split: option.splits)
    have r2: "case z of Inl s' \<Rightarrow> extends P tr0 (snd (snd (snd s')))
        | Inr r \<Rightarrow> extends P tr0 (snd (snd (snd r)))"
    proof (rule forPages_inv[OF run2, where I = "\<lambda>s. extends P tr0 (snd (snd (snd s)))"])
      show "extends P tr0 (snd (snd (snd st)))" by (rule e1)
    next
      fix k s s' hn
      assume "extends P tr0 (snd (snd (snd s)))" and "listTeamsForUser cl opts k s = Next (s', hn)"
      from listTeamsForUser_trace[OF this(2) this(1) assms(3) assms(5)]
      show "extends P tr0 (snd (snd (snd s')))" by simp
    next
      fix k s r
      assume "extends P tr0 (snd (snd (snd s)))" and "listTeamsForUser cl opts k s = Return r"
      from listTeamsForUser_trace[OF this(2) this(1) assms(3) assms(5)]
      show "extends P tr0 (snd (snd (snd r)))" by simp
    qed
    with assms(1) run1 Inl run2 show ?thesis
      by (cases z) (auto simp: getUserAffiliatedGroups_def)
  qed
qed

lemma addAccountToGroup_trace:
  assumes "addAccountToGroup accountID g (c, tr) = (g', c', tr')" and "extends P tr0 tr"
    and "\<And>g. P (SetGroup g)"
  shows "extends P tr0 tr'"
  using assms
  by (auto simp: addAccountToGroup_def setGroup_def Let_def intro!: extends_snoc split: if_splits)

lemma fullSyncRepos_trace:
  assumes "fullSyncRepos p g (acc, c, tr) = Some fl" and "extends P tr0 tr"
    and "\<And>g. P (SetGroup g)"
    and "\<And>isOrg g k. P (Request (token (client p)) (groupRequest isOrg g k))"
  shows "extends P tr0 (case fl of Next s \<Rightarrow> snd (snd s) | Return r \<Rightarrow> snd (snd (snd r)))"
proof -
  obtain y where run: "forPages (listReposForGroup p c (Team g = [])) 1 (g\<lparr>Repositories := []\<rparr>, acc, tr) = Some y"
    using assms(1) by (auto simp: fullSyncRepos_def split: option.splits)
  have "case y of Inl s' \<Rightarrow> extends P tr0 (snd (snd s'))
        | Inr r \<Rightarrow> extends P tr0 (snd (snd (snd r)))"
  proof (rule forPages_inv[OF run, where I = "\<lambda>s. extends P tr0 (snd (snd s))"])
    show "extends P tr0 (snd (snd (g\<lparr>Repositories := []\<rparr>, acc, tr)))" using assms(2) by simp
  next
    fix k s s' b
    assume "extends P tr0 (snd (snd s))" and "listReposForGroup p c (Team g = []) k s = Next (s', b)"
    then show "extends P tr0 (snd (snd s'))"
      by (cases s) (auto simp: listReposForGroup_eq intro!: extends_snoc assms(4) split: prod.splits option.splits)
  next
    fix k s r
    assume "extends P tr0 (snd (snd s))" and "listReposForGroup p c (Team g = []) k s = Return r"
    then show "extends P tr0 (snd (snd (snd r)))"
      by (cases s) (auto simp: listReposForGroup_eq intro!: extends_snoc assms(4) split: prod.splits option.splits)
  qed
  with assms(1) run show ?thesis
    by (cases y) (auto simp: fullSyncRepos_def setGroup_def intro!: extends_snoc assms(3) split: prod.splits)
qed

lemma syncUserGroup_trace:
  assumes "syncUserGroup p accountID g s = Some fl" and "extends P tr0 (snd (snd s))"
    and "\<And>g. P (SetGroup g)"
    and "\<And>isOrg g k. P (Request (token (client p)) (groupRequest isOrg g k))"
  shows "extends P tr0 (case fl of Next s \<Rightarrow> snd (snd s) | Return r \<Rightarrow> snd (snd (snd r)))"
proof -
  obtain acc c tr where s: "s = (acc, c, tr)" by (cases s)
  obtain g' c' tr' where a: "addAccountToGroup accountID g (c, tr) = (g', c', tr')"
    by (cases "addAccountToGroup accountID g (c, tr)")
  have e: "extends P tr0 tr'"
    by (rule addAccountToGroup_trace[OF a]) (use assms(2) s in \<open>simp_all add: assms(3)\<close>)
  show ?thesis
  proof (cases "Repositories g' \<noteq> []")
    case True
    with assms(1) s a e show ?thesis by (auto simp: syncUserGroup_def)
  next
    case False
    with assms(1) s a have "fullSyncRepos p g' (acc, c', tr') = Some fl"
      by (simp add: syncUserGroup_def)
    from fullSyncRepos_trace[OF this e assms(3) assms(4)] show ?thesis .
  qed
qed

lemma fetchUserPermsByToken_trace:
  assumes run: "fetchUserPermsByToken p accountID tok opts tr = Some (perms, err, c', tr')"
    and direct: "\<And>k. P (Request tok (ReqListAffiliatedRepositories VisibilityPrivate k
                   (if groupsCache p = None then [] else [AffiliationOwner, AffiliationCollaborator])))"
    and orgs: "\<And>k. P (Request tok (ReqGetAuthenticatedUserOrgsDetailsAndMembership k))"
    and teams: "\<And>k. P (Request tok (ReqGetAuthenticatedUserTeams k))"
    and repos: "\<And>isOrg g k. P (Request (token (client p)) (groupRequest isOrg g k))"
    and sets: "\<And>g. P (SetGroup g)"
    and invs: "\<And>g. P (InvalidateGroup g)"
  shows "extends P tr tr'"
proof -
  let ?cl = "WithToken (client p) tok"
  let ?affs = "if groupsCache p = None then [] else [AffiliationOwner, AffiliationCollaborator]"
  have tk: "token ?cl = tok" by (simp add: WithToken_def)
  obtain y where run1: "forPages (listReposForUser p ?cl ?affs) 1 ((\<lparr>Exacts = []\<rparr>, {}), tr) = Some y"
    using run by (auto simp: fetchUserPermsByToken_def Let_def split: option.splits)
  have d: "extends P tr (case y of Inl s \<Rightarrow> snd s | Inr r \<Rightarrow> snd (snd (snd r)))"
    by (rule direct_phase_trace[OF run1 extends_refl]) (simp add: tk direct)
  show ?thesis
  proof (cases y)
    case (Inr r)
    with run run1 d show ?thesis by (auto simp: fetchUserPermsByToken_def Let_def)
  next
    case (Inl s)
    obtain acc tr1 where s: "s = (acc, tr1)" by (cases s)
    have e1: "extends P tr tr1" using d Inl s by simp
    show ?thesis
    proof (cases "groupsCache p")
      case None
      with run run1 Inl s e1 show ?thesis
        by (auto simp: fetchUserPermsByToken_def Let_def)
    next
      case (Some c)
      obtain groups gerr c1 tr2 where g: "getUserAffiliatedGroups c ?cl opts tr1 = Some (groups, gerr, c1, tr2)"
        using run run1 Inl s Some
        by (auto simp: fetchUserPermsByToken_def Let_def split: option.splits)
      have e2: "extends P tr tr2"
        by (rule getUserAffiliatedGroups_trace[OF g e1]) (simp_all add: tk orgs teams invs)
      show ?thesis
      proof (cases gerr)
        case (Some e)
        with run run1 Inl s \<open>groupsCache p = Some c\<close> g e2 show ?thesis
          by (auto simp: fetchUserPermsByToken_def Let_def)
      next
        case None
        obtain z where loop: "forRange (syncUserGroup p accountID) groups (acc, c1, tr2) = Some z"
          using run run1 Inl s \<open>groupsCache p = Some c\<close> g None
          by (auto simp: fetchUserPermsByToken_def Let_def split: option.splits)
        have "case z of Inl s' \<Rightarrow> extends P tr (snd (snd s'))
              | Inr r \<Rightarrow> extends P tr (snd (snd (snd r)))"
        proof (rule forRange_rule[OF loop, where I = "\<lambda>s. extends P tr (snd (snd s))"])
          show "extends P tr (snd (snd (acc, c1, tr2)))" using e2 by simp
        next
          fix x s s'
          assume "extends P tr (snd (snd s))" "syncUserGroup p accountID x s = Some (Next s')"
          from syncUserGroup_trace[OF this(2) this(1) sets repos] show "extends P tr (snd (snd s'))" by simp
        next
          fix x s r
          assume "extends P tr (snd (snd s))" "syncUserGroup p accountID x s = Some (Return r)"
          from syncUserGroup_trace[OF this(2) this(1) sets repos] show "extends P tr (snd (snd (snd r)))" by simp
        qed
        with run run1 Inl s \<open>groupsCache p = Some c\<close> g None loop show ?thesis
          by (auto simp: fetchUserPermsByToken_def Let_def split: sum.splits)
      qed
    qed
  qed
qed

lemma FetchUserPerms_cases:
  assumes "FetchUserPerms p (Some a) opts tr = Some (Some perms, err, c', tr')"
  shows "\<exists>t. IsHostOfAccount (codeHost p) a \<and> GetExternalAccountData (AccountData a) = (Some t, None)
           \<and> fetchUserPermsByToken p (AccountID (AccountSpec a)) (AccessToken t) opts tr
               = Some (perms, err, c', tr')"
  using assms by (auto simp: FetchUserPerms_def split: option.splits if_splits prod.splits)

subsection \<open>Unrolling a listing that goes on\<close>

lemma forPages_unroll:
  assumes ok: "\<And>k s items hn. list k = (items, hn, None) \<Longrightarrow> body k s = Next (step k items s, hn)"
    and goes: "goesOn list n" and n: "1 \<le> n"
  shows "forPages body 1 s = forPages body n (fold (\<lambda>k. step k (fst (list k))) [1..<n] s)"
  using goes n
proof (induction n)
  case 0
  then show ?case by simp
next
  case (Suc n)
  show ?case
  proof (cases "n = 0")
    case True
    then show ?thesis by simp
  next
    case False
    then have n1: "1 \<le> n" by simp
    have g: "goesOn list n" using Suc.prems(1) by (simp add: goesOn_def)
    have "snd (list n) = (True, None)" using Suc.prems(1) n1 by (simp add: goesOn_def)
    then obtain items where l: "list n = (items, True, None)" by (cases "list n") simp
    let ?S = "fold (\<lambda>k. step k (fst (list k))) [1..<n] s"
    have "forPages body 1 s = forPages body n ?S" by (rule Suc.IH[OF g n1])
    also have "\<dots> = forPages body (Suc n) (step n items ?S)"
      by (subst forPages.simps) (simp add: ok[OF l])
    also have "step n items ?S = fold (\<lambda>k. step k (fst (list k))) [1..<Suc n] s"
      using n1 l by simp
    finally show ?thesis .
  qed
qed

lemma itemsBefore_Suc: "1 \<le> n \<Longrightarrow> itemsBefore list (Suc n) = itemsBefore list n @ fst (list n)"
  by (simp add: itemsBefore_def)

lemma itemsBefore_1 [simp]: "itemsBefore list (Suc 0) = []"
  by (simp add: itemsBefore_def)

lemma fold_addRepo_append:
  "fold (\<lambda>r. addRepoToUserPerms [ID r]) (xs @ ys) acc
     = fold (\<lambda>r. addRepoToUserPerms [ID r]) ys (fold (\<lambda>r. addRepoToUserPerms [ID r]) xs acc)"
  by simp

lemma direct_fold_pages:
  "1 \<le> n \<Longrightarrow>
   fold (\<lambda>k. (\<lambda>items (acc, tr). (fold (\<lambda>r. addRepoToUserPerms [ID r]) items acc, tr @ [directRequest tok affs k]))
                 (fst (list k))) [1..<n] (acc, tr)
   = (fold (\<lambda>r. addRepoToUserPerms [ID r]) (itemsBefore list n) acc, tr @ map (directRequest tok affs) [1..<n])"
proof (induction n)
  case 0
  then show ?case by simp
next
  case (Suc n)
  show ?case
  proof (cases "n = 0")
    case True
    then show ?thesis by simp
  next
    case False
    then have "1 \<le> n" by simp
    with Suc.IH show ?thesis by (simp add: itemsBefore_Suc)
  qed
qed

lemma direct_phase_unroll:
  assumes "goesOn (directPage (codeHostAPI cl) (token cl) affs) n" and "1 \<le> n"
  shows "forPages (listReposForUser p cl affs) 1 (acc, tr)
         = forPages (listReposForUser p cl affs) n
             (fold (\<lambda>r. addRepoToUserPerms [ID r])
                (itemsBefore (directPage (codeHostAPI cl) (token cl) affs) n) acc,
              tr @ map (directRequest (token cl) affs) [1..<n])"
proof -
  let ?list = "directPage (codeHostAPI cl) (token cl) affs"
  let ?step = "\<lambda>k items (acc, tr). (fold (\<lambda>r. addRepoToUserPerms [ID r]) items acc,
                  tr @ [directRequest (token cl) affs k])"
  have "forPages (listReposForUser p cl affs) 1 (acc, tr)
        = forPages (listReposForUser p cl affs) n (fold (\<lambda>k. ?step k (fst (?list k))) [1..<n] (acc, tr))"
  proof (rule forPages_unroll[OF _ assms])
    fix k s items hn
    assume "?list k = (items, hn, None)"
    then show "listReposForUser p cl affs k s = Next (?step k items s, hn)"
      by (cases s) (simp add: listReposForUser_eq directPage_def directRequest_def)
  qed
  then show ?thesis by (simp only: direct_fold_pages[OF assms(2)])
qed

lemma direct_phase_requests:
  assumes "forPages (listReposForUser p cl affs) 1 (acc, tr) = Some y"
  shows "\<exists>n. 1 \<le> n \<and> (case y of Inl s \<Rightarrow> snd s | Inr r \<Rightarrow> snd (snd (snd r)))
                 = tr @ map (directRequest (token cl) affs) [1..<Suc n]"
proof -
  let ?I = "\<lambda>k s. snd s = tr @ map (directRequest (token cl) affs) [1..<k]"
  have "case y of Inl s' \<Rightarrow> (\<exists>k. 1 \<le> k \<and> ?I (Suc k) s')
        | Inr r \<Rightarrow> (\<exists>n. 1 \<le> n \<and> snd (snd (snd r)) = tr @ map (directRequest (token cl) affs) [1..<Suc n])"
  proof (rule forPages_rule[OF assms, where I = ?I])
    show "?I 1 (acc, tr)" by simp
  next
    fix k s s' b
    assume "1 \<le> k" "?I k s" and "listReposForUser p cl affs k s = Next (s', b)"
    then show "?I (Suc k) s'"
      by (cases s) (auto simp: listReposForUser_eq directRequest_def split: prod.splits option.splits)
  next
    fix k s r
    assume "1 \<le> k" "?I k s" and "listReposForUser p cl affs k s = Return r"
    then have "1 \<le> k \<and> snd (snd (snd r)) = tr @ map (directRequest (token cl) affs) [1..<Suc k]"
      by (cases s) (auto simp: listReposForUser_eq directRequest_def split: prod.splits option.splits)
    then show "\<exists>n. 1 \<le> n \<and> snd (snd (snd r)) = tr @ map (directRequest (token cl) affs) [1..<Suc n]"
      by blast
  qed
  then show ?thesis by (cases y) auto
qed

lemma goesOn_page:
  "goesOn list n \<Longrightarrow> 1 \<le> k \<Longrightarrow> k < n \<Longrightarrow> \<exists>items. list k = (items, True, None)"
  by (cases "list k") (auto simp: goesOn_def)

lemma event_in_list_all: "list_all P xs \<Longrightarrow> ev \<in> set xs \<Longrightarrow> P ev"
  by (simp add: list_all_iff)

lemma forPages_unroll_inv:
  assumes ok: "\<And>k s items hn. Inv s \<Longrightarrow> list k = (items, hn, None)
                 \<Longrightarrow> body k s = Next (step k items s, hn) \<and> Inv (step k items s)"
    and inv: "Inv s"
    and goes: "goesOn list n" and n: "1 \<le> n"
  shows "forPages body 1 s = forPages body n (fold (\<lambda>k. step k (fst (list k))) [1..<n] s)
         \<and> Inv (fold (\<lambda>k. step k (fst (list k))) [1..<n] s)"
  using goes n
proof (induction n)
  case 0
  then show ?case by simp
next
  case (Suc n)
  show ?case
  proof (cases "n = 0")
    case True
    then show ?thesis using inv by simp
  next
    case False
    then have n1: "1 \<le> n" by simp
    have g: "goesOn list n" using Suc.prems(1) by (simp add: goesOn_def)
    have "snd (list n) = (True, None)" using Suc.prems(1) n1 by (simp add: goesOn_def)
    then obtain items where l: "list n = (items, True, None)" by (cases "list n") simp
    let ?S = "fold (\<lambda>k. step k (fst (list k))) [1..<n] s"
    from Suc.IH[OF g n1] have eq: "forPages body 1 s = forPages body n ?S" and i: "Inv ?S" by simp_all
    note b = ok[OF i l]
    have "forPages body n ?S = forPages body (Suc n) (step n items ?S)"
      using b by (subst forPages.simps) simp
    moreover have "step n items ?S = fold (\<lambda>k. step k (fst (list k))) [1..<Suc n] s"
      using n1 l by simp
    ultimately show ?thesis using eq b by simp
  qed
qed

lemma collaborator_fold_pages:
  "1 \<le> n \<Longrightarrow>
   fold (\<lambda>k. (\<lambda>items (acc, tr). (fold (\<lambda>u. addUserToRepoPerms [FormatInt (DatabaseID u)]) items acc, tr @ [req k]))
                 (fst (list k))) [1..<n] (acc, tr)
   = (fold (\<lambda>u. addUserToRepoPerms [FormatInt (DatabaseID u)]) (itemsBefore list n) acc, tr @ map req [1..<n])"
proof (induction n)
  case 0
  then show ?case by simp
next
  case (Suc n)
  show ?case
  proof (cases "n = 0")
    case True
    then show ?thesis by simp
  next
    case False
    then have "1 \<le> n" by simp
    with Suc.IH show ?thesis by (simp add: itemsBefore_Suc)
  qed
qed

lemma collaborators_phase_unroll:
  assumes "goesOn (collaboratorPage (codeHostAPI (client p)) (token (client p)) owner name aff) n"
    and "1 \<le> n"
  shows "forPages (listUsersForRepo p owner name aff) 1 (acc, tr)
         = forPages (listUsersForRepo p owner name aff) n
             (fold (\<lambda>u. addUserToRepoPerms [FormatInt (DatabaseID u)])
                (itemsBefore (collaboratorPage (codeHostAPI (client p)) (token (client p)) owner name aff) n) acc,
              tr @ map (collaboratorRequest (token (client p)) owner name aff) [1..<n])"
proof -
  let ?list = "collaboratorPage (codeHostAPI (client p)) (token (client p)) owner name aff"
  let ?req = "collaboratorRequest (token (client p)) owner name aff"
  let ?step = "\<lambda>k items (acc, tr). (fold (\<lambda>u. addUserToRepoPerms [FormatInt (DatabaseID u)]) items acc,
                  tr @ [?req k])"
  have "forPages (listUsersForRepo p owner name aff) 1 (acc, tr)
        = forPages (listUsersForRepo p owner name aff) n (fold (\<lambda>k. ?step k (fst (?list k))) [1..<n] (acc, tr))"
  proof (rule forPages_unroll[OF _ assms])
    fix k s items hn
    assume "?list k = (items, hn, None)"
    then show "listUsersForRepo p owner name aff k s = Next (?step k items s, hn)"
      by (cases s) (simp add: listUsersForRepo_eq collaboratorPage_def collaboratorRequest_def)
  qed
  then show ?thesis by (simp only: collaborator_fold_pages[OF assms(2)])
qed

lemma groupPage_cong: "Org g = Org g' \<Longrightarrow> Team g = Team g' \<Longrightarrow> groupPage p isOrg g = groupPage p isOrg g'"
  by (auto simp: groupPage_def fun_eq_iff)

lemma groupRequest_cong: "Org g = Org g' \<Longrightarrow> Team g = Team g' \<Longrightarrow> groupRequest isOrg g = groupRequest isOrg g'"
  by (auto simp: groupRequest_def fun_eq_iff)

lemma group_fold_pages:
  "1 \<le> n \<Longrightarrow>
   fold (\<lambda>k. (\<lambda>items (grp, acc, tr).
                 (grp\<lparr>Repositories := Repositories grp @ map ID items\<rparr>,
                  fold (\<lambda>r. addRepoToUserPerms [ID r]) items acc, tr @ [req k]))
                 (fst (list k))) [1..<n] (g, acc, tr)
   = (g\<lparr>Repositories := Repositories g @ map ID (itemsBefore list n)\<rparr>,
      fold (\<lambda>r. addRepoToUserPerms [ID r]) (itemsBefore list n) acc, tr @ map req [1..<n])"
proof (induction n)
  case 0
  then show ?case by simp
next
  case (Suc n)
  show ?case
  proof (cases "n = 0")
    case True
    then show ?thesis by simp
  next
    case False
    then have "1 \<le> n" by simp
    with Suc.IH show ?thesis by (simp add: itemsBefore_Suc)
  qed
qed

lemma group_phase_unroll:
  assumes "goesOn (groupPage p isOrg g) n" and "1 \<le> n"
  shows "forPages (listReposForGroup p c isOrg) 1 (g, acc, tr)
         = forPages (listReposForGroup p c isOrg) n
             (g\<lparr>Repositories := Repositories g @ map ID (itemsBefore (groupPage p isOrg g) n)\<rparr>,
              fold (\<lambda>r. addRepoToUserPerms [ID r]) (itemsBefore (groupPage p isOrg g) n) acc,
              tr @ map (\<lambda>k. Request (token (client p)) (groupRequest isOrg g k)) [1..<n])"
proof -
  let ?list = "groupPage p isOrg g"
  let ?req = "\<lambda>k. Request (token (client p)) (groupRequest isOrg g k)"
  let ?step = "\<lambda>k items (grp, acc, tr).
                 (grp\<lparr>Repositories := Repositories grp @ map ID items\<rparr>,
                  fold (\<lambda>r. addRepoToUserPerms [ID r]) items acc, tr @ [?req k])"
  let ?Inv = "\<lambda>s::cachedGroup \<times> userPerms \<times> trace. Org (fst s) = Org g \<and> Team (fst s) = Team g"
  have "forPages (listReposForGroup p c isOrg) 1 (g, acc, tr)
        = forPages (listReposForGroup p c isOrg) n (fold (\<lambda>k. ?step k (fst (?list k))) [1..<n] (g, acc, tr))
        \<and> ?Inv (fold (\<lambda>k. ?step k (fst (?list k))) [1..<n] (g, acc, tr))"
  proof (rule forPages_unroll_inv[OF _ _ assms, where Inv = ?Inv])
    show "?Inv (g, acc, tr)" by simp
  next
    fix k s items hn
    assume i: "?Inv s" and l: "?list k = (items, hn, None)"
    obtain grp acc' tr' where s: "s = (grp, acc', tr')" by (cases s)
    from i s have "groupPage p isOrg grp = groupPage p isOrg g" "groupRequest isOrg grp = groupRequest isOrg g"
      by (auto intro: groupPage_cong groupRequest_cong)
    with l s i show "listReposForGroup p c isOrg k s = Next (?step k items s, hn) \<and> ?Inv (?step k items s)"
      by (simp add: listReposForGroup_eq)
  qed
  then show ?thesis by (simp only: group_fold_pages[OF assms(2)])
qed

lemma memberPage_cong:
  "Team (embedded g) = Team (embedded g') \<Longrightarrow> adminsOnly g = adminsOnly g'
     \<Longrightarrow> memberPage p owner g = memberPage p owner g'"
  by (auto simp: memberPage_def fun_eq_iff)

lemma memberRequest_cong:
  "Team (embedded g) = Team (embedded g') \<Longrightarrow> adminsOnly g = adminsOnly g'
     \<Longrightarrow> memberRequest owner g = memberRequest owner g'"
  by (auto simp: memberRequest_def fun_eq_iff)

lemma member_fold_pages:
  "1 \<le> n \<Longrightarrow>
   fold (\<lambda>k. (\<lambda>items (grp, acc, tr).
                 (grp\<lparr>embedded := (embedded grp)\<lparr>Users := Users (embedded grp) @ map accountIDOf items\<rparr>\<rparr>,
                  fold (\<lambda>u. addUserToRepoPerms [FormatInt (DatabaseID u)]) items acc, tr @ [req k]))
                 (fst (list k))) [1..<n] (g, acc, tr)
   = (g\<lparr>embedded := (embedded g)\<lparr>Users := Users (embedded g) @ map accountIDOf (itemsBefore list n)\<rparr>\<rparr>,
      fold (\<lambda>u. addUserToRepoPerms [FormatInt (DatabaseID u)]) (itemsBefore list n) acc, tr @ map req [1..<n])"
proof (induction n)
  case 0
  then show ?case by simp
next
  case (Suc n)
  show ?case
  proof (cases "n = 0")
    case True
    then show ?thesis by simp
  next
    case False
    then have "1 \<le> n" by simp
    with Suc.IH show ?thesis by (simp add: itemsBefore_Suc)
  qed
qed

lemma member_phase_unroll:
  assumes "goesOn (memberPage p owner g) n" and "1 \<le> n"
  shows "forPages (listUsersForGroup p c owner) 1 (g, acc, tr)
         = forPages (listUsersForGroup p c owner) n
             (g\<lparr>embedded := (embedded g)
                   \<lparr>Users := Users (embedded g) @ map accountIDOf (itemsBefore (memberPage p owner g) n)\<rparr>\<rparr>,
              fold (\<lambda>u. addUserToRepoPerms [FormatInt (DatabaseID u)]) (itemsBefore (memberPage p owner g) n) acc,
              tr @ map (\<lambda>k. Request (token (client p)) (memberRequest owner g k)) [1..<n])"
proof -
  let ?list = "memberPage p owner g"
  let ?req = "\<lambda>k. Request (token (client p)) (memberRequest owner g k)"
  let ?step = "\<lambda>k items (grp, acc, tr).
                 (grp\<lparr>embedded := (embedded grp)\<lparr>Users := Users (embedded grp) @ map accountIDOf items\<rparr>\<rparr>,
                  fold (\<lambda>u. addUserToRepoPerms [FormatInt (DatabaseID u)]) items acc, tr @ [?req k])"
  let ?Inv = "\<lambda>s::repoAffiliatedGroup \<times> repoPerms \<times> trace.
                Team (embedded (fst s)) = Team (embedded g) \<and> adminsOnly (fst s) = adminsOnly g"
  have "forPages (listUsersForGroup p c owner) 1 (g, acc, tr)
        = forPages (listUsersForGroup p c owner) n (fold (\<lambda>k. ?step k (fst (?list k))) [1..<n] (g, acc, tr))
        \<and> ?Inv (fold (\<lambda>k. ?step k (fst (?list k))) [1..<n] (g, acc, tr))"
  proof (rule forPages_unroll_inv[OF _ _ assms, where Inv = ?Inv])
    show "?Inv (g, acc, tr)" by simp
  next
    fix k s items hn
    assume i: "?Inv s" and l: "?list k = (items, hn, None)"
    obtain grp acc' tr' where s: "s = (grp, acc', tr')" by (cases s)
    from i s have "memberPage p owner grp = memberPage p owner g" "memberRequest owner grp = memberRequest owner g"
      by (auto intro: memberPage_cong memberRequest_cong)
    with l s i show "listUsersForGroup p c owner k s = Next (?step k items s, hn) \<and> ?Inv (?step k items s)"
      by (simp add: listUsersForGroup_eq)
  qed
  then show ?thesis by (simp only: member_fold_pages[OF assms(2)])
qed

subsection \<open>The full sync of a group, page by page\<close>

lemma key_Repositories [simp]: "key (g\<lparr>Repositories := rs\<rparr>) = key g"
  by (simp add: key_def)

lemma key_Users [simp]: "key (g\<lparr>Users := us\<rparr>) = key g"
  by (simp add: key_def)

lemma groupPage_Repositories [simp]: "groupPage p isOrg (g\<lparr>Repositories := rs\<rparr>) = groupPage p isOrg g"
  by (simp add: groupPage_def fun_eq_iff)

lemma groupRequest_Repositories [simp]:
  "groupRequest isOrg (g\<lparr>Repositories := rs\<rparr>) = groupRequest isOrg g"
  by (simp add: groupRequest_def fun_eq_iff)

lemma memberPage_embedded [simp]:
  "Team e = Team (embedded g) \<Longrightarrow> memberPage p owner (g\<lparr>embedded := e\<rparr>) = memberPage p owner g"
  by (simp add: memberPage_def fun_eq_iff)

lemma memberRequest_embedded [simp]:
  "Team e = Team (embedded g) \<Longrightarrow> memberRequest owner (g\<lparr>embedded := e\<rparr>) = memberRequest owner g"
  by (simp add: memberRequest_def fun_eq_iff)

lemma fullSyncRepos_fails:
  assumes goes: "goesOn (groupPage p (Team g = []) g) n" and n: "1 \<le> n"
    and last: "groupPage p (Team g = []) g n = (items, hn, Some e)"
  shows "fullSyncRepos p g (acc, c, tr)
         = Some (Return (fst (fold (\<lambda>r. addRepoToUserPerms [ID r])
                                (itemsBefore (groupPage p (Team g = []) g) n @ items) acc),
                         Some (Wrap e ''list repos for group''), Some c,
                         tr @ map (\<lambda>k. Request (token (client p)) (groupRequest (Team g = []) g k)) [1..<Suc n]))"
proof -
  let ?g0 = "g\<lparr>Repositories := []\<rparr>"
  have "forPages (listReposForGroup p c (Team g = [])) 1 (?g0, acc, tr)
        = forPages (listReposForGroup p c (Team g = [])) n
            (?g0\<lparr>Repositories := Repositories ?g0 @ map ID (itemsBefore (groupPage p (Team g = []) g) n)\<rparr>,
             fold (\<lambda>r. addRepoToUserPerms [ID r]) (itemsBefore (groupPage p (Team g = []) g) n) acc,
             tr @ map (\<lambda>k. Request (token (client p)) (groupRequest (Team g = []) g k)) [1..<n])"
    using group_phase_unroll[of p "Team g = []" ?g0 n c acc tr] goes n by simp
  also have "\<dots> = Some (Inr (fst (fold (\<lambda>r. addRepoToUserPerms [ID r])
                                (itemsBefore (groupPage p (Team g = []) g) n @ items) acc),
                         Some (Wrap e ''list repos for group''), Some c,
                         tr @ map (\<lambda>k. Request (token (client p)) (groupRequest (Team g = []) g k)) [1..<Suc n]))"
    using last n
    by (subst forPages.simps)
       (simp add: listReposForGroup_eq)
  finally show ?thesis by (simp add: fullSyncRepos_def)
qed

lemma fullSyncRepos_completes:
  assumes goes: "goesOn (groupPage p (Team g = []) g) n" and n: "1 \<le> n"
    and last: "groupPage p (Team g = []) g n = (items, False, None)"
  shows "fullSyncRepos p g (acc, c, tr)
         = Some (Next (fold (\<lambda>r. addRepoToUserPerms [ID r])
                         (itemsBefore (groupPage p (Team g = []) g) (Suc n)) acc,
                       c(key g \<mapsto> g\<lparr>Repositories := map ID (itemsBefore (groupPage p (Team g = []) g) (Suc n))\<rparr>),
                       tr @ map (\<lambda>k. Request (token (client p)) (groupRequest (Team g = []) g k)) [1..<Suc n]
                          @ [SetGroup (g\<lparr>Repositories := map ID (itemsBefore (groupPage p (Team g = []) g) (Suc n))\<rparr>)]))"
proof -
  let ?g0 = "g\<lparr>Repositories := []\<rparr>"
  have "forPages (listReposForGroup p c (Team g = [])) 1 (?g0, acc, tr)
        = forPages (listReposForGroup p c (Team g = [])) n
            (?g0\<lparr>Repositories := Repositories ?g0 @ map ID (itemsBefore (groupPage p (Team g = []) g) n)\<rparr>,
             fold (\<lambda>r. addRepoToUserPerms [ID r]) (itemsBefore (groupPage p (Team g = []) g) n) acc,
             tr @ map (\<lambda>k. Request (token (client p)) (groupRequest (Team g = []) g k)) [1..<n])"
    using group_phase_unroll[of p "Team g = []" ?g0 n c acc tr] goes n by simp
  also have "\<dots> = Some (Inl (g\<lparr>Repositories := map ID (itemsBefore (groupPage p (Team g = []) g) (Suc n))\<rparr>,
                         fold (\<lambda>r. addRepoToUserPerms [ID r])
                           (itemsBefore (groupPage p (Team g = []) g) (Suc n)) acc,
                         tr @ map (\<lambda>k. Request (token (client p)) (groupRequest (Team g = []) g k)) [1..<Suc n]))"
    using last n
    by (subst forPages.simps)
       (simp add: listReposForGroup_eq itemsBefore_Suc)
  finally show ?thesis by (simp add: fullSyncRepos_def setGroup_def)
qed

lemma fullSyncUsers_fails:
  assumes goes: "goesOn (memberPage p owner g) n" and n: "1 \<le> n"
    and last: "memberPage p owner g n = (items, hn, Some e)"
  shows "fullSyncUsers p owner g (acc, c, tr)
         = Some (Return (Some (fst (fold (\<lambda>u. addUserToRepoPerms [FormatInt (DatabaseID u)])
                                (itemsBefore (memberPage p owner g) n) acc)),
                         Some (Wrap e ''list users for group''), Some c,
                         tr @ map (\<lambda>k. Request (token (client p)) (memberRequest owner g k)) [1..<Suc n]))"
proof -
  let ?g' = "g\<lparr>embedded := (embedded g)
                   \<lparr>Users := Users (embedded g) @ map accountIDOf (itemsBefore (memberPage p owner g) n)\<rparr>\<rparr>"
  have "forPages (listUsersForGroup p c owner) 1 (g, acc, tr)
        = forPages (listUsersForGroup p c owner) n
            (?g', fold (\<lambda>u. addUserToRepoPerms [FormatInt (DatabaseID u)]) (itemsBefore (memberPage p owner g) n) acc,
             tr @ map (\<lambda>k. Request (token (client p)) (memberRequest owner g k)) [1..<n])"
    by (rule member_phase_unroll[OF goes n])
  also have "\<dots> = Some (Inr (Some (fst (fold (\<lambda>u. addUserToRepoPerms [FormatInt (DatabaseID u)])
                                (itemsBefore (memberPage p owner g) n) acc)),
                         Some (Wrap e ''list users for group''), Some c,
                         tr @ map (\<lambda>k. Request (token (client p)) (memberRequest owner g k)) [1..<Suc n]))"
    using last n
    by (subst forPages.simps) (simp add: listUsersForGroup_eq)
  finally show ?thesis by (simp add: fullSyncUsers_def)
qed

lemma fullSyncUsers_completes:
  assumes goes: "goesOn (memberPage p owner g) n" and n: "1 \<le> n"
    and last: "memberPage p owner g n = (items, False, None)"
  shows "fullSyncUsers p owner g (acc, c, tr)
         = Some (Next (fold (\<lambda>u. addUserToRepoPerms [FormatInt (DatabaseID u)])
                         (itemsBefore (memberPage p owner g) (Suc n)) acc,
                       c(key (embedded g) \<mapsto> (embedded g)
                           \<lparr>Users := Users (embedded g) @ map accountIDOf (itemsBefore (memberPage p owner g) (Suc n))\<rparr>),
                       tr @ map (\<lambda>k. Request (token (client p)) (memberRequest owner g k)) [1..<Suc n]
                          @ [SetGroup ((embedded g)
                           \<lparr>Users := Users (embedded g) @ map accountIDOf (itemsBefore (memberPage p owner g) (Suc n))\<rparr>)]))"
proof -
  let ?g' = "g\<lparr>embedded := (embedded g)
                   \<lparr>Users := Users (embedded g) @ map accountIDOf (itemsBefore (memberPage p owner g) n)\<rparr>\<rparr>"
  have "forPages (listUsersForGroup p c owner) 1 (g, acc, tr)
        = forPages (listUsersForGroup p c owner) n
            (?g', fold (\<lambda>u. addUserToRepoPerms [FormatInt (DatabaseID u)]) (itemsBefore (memberPage p owner g) n) acc,
             tr @ map (\<lambda>k. Request (token (client p)) (memberRequest owner g k)) [1..<n])"
    by (rule member_phase_unroll[OF goes n])
  also have "\<dots> = Some (Inl (g\<lparr>embedded := (embedded g)
                   \<lparr>Users := Users (embedded g) @ map accountIDOf (itemsBefore (memberPage p owner g) (Suc n))\<rparr>\<rparr>,
                         fold (\<lambda>u. addUserToRepoPerms [FormatInt (DatabaseID u)])
                           (itemsBefore (memberPage p owner g) (Suc n)) acc,
                         tr @ map (\<lambda>k. Request (token (client p)) (memberRequest owner g k)) [1..<Suc n]))"
    using last n
    by (subst forPages.simps) (simp add: listUsersForGroup_eq itemsBefore_Suc)
  finally show ?thesis by (simp add: fullSyncUsers_def setGroup_def)
qed

subsection \<open>Small listings\<close>

lemma goesOn_1 [simp]: "goesOn list (Suc 0)"
  by (simp add: goesOn_def)

lemma goesOn_2: "snd (list 1) = (True, None) \<Longrightarrow> goesOn list 2"
  unfolding goesOn_def
proof (intro allI impI)
  fix k :: nat assume "snd (list 1) = (True, None)" "1 \<le> k \<and> k < 2"
  then have "k = 1" by simp
  with \<open>snd (list 1) = (True, None)\<close> show "snd (list k) = (True, None)" by simp
qed

lemma upt_1_3: "[1..<Suc 2] = [1, 2]" "[Suc 0..<3] = [Suc 0, 2]" "[Suc 0..<2] = [Suc 0]"
  by (simp_all add: upt_rec eval_nat_numeral)

subsection \<open>The listings of a fetch, page by page\<close>

lemma fold_addUser_result:
  assumes "repoPermsOK acc"
  shows "distinct (fst (fold (\<lambda>u. addUserToRepoPerms [FormatInt (DatabaseID u)]) users acc))"
    and "set (fst (fold (\<lambda>u. addUserToRepoPerms [FormatInt (DatabaseID u)]) users acc))
           = snd acc \<union> accountIDOf ` set users"
proof -
  let ?r = "fold (\<lambda>u. addUserToRepoPerms [FormatInt (DatabaseID u)]) users acc"
  from fold_addUserToRepoPerms_ok[OF assms, of users]
  have ok: "repoPermsOK ?r" and s: "snd ?r = snd acc \<union> accountIDOf ` set users" by blast+
  from ok show "distinct (fst ?r)" by (simp add: repoPermsOK_def)
  from ok have "snd ?r = set (fst ?r)" by (simp add: repoPermsOK_def)
  with s show "set (fst ?r) = snd acc \<union> accountIDOf ` set users" by simp
qed

lemma fold_addRepo_result:
  assumes "userPermsOK acc"
  shows "distinct (Exacts (fst (fold (\<lambda>r. addRepoToUserPerms [ID r]) repos acc)))"
    and "set (Exacts (fst (fold (\<lambda>r. addRepoToUserPerms [ID r]) repos acc)))
           = snd acc \<union> ID ` set repos"
proof -
  let ?r = "fold (\<lambda>r. addRepoToUserPerms [ID r]) repos acc"
  from fold_addRepoToUserPerms_ok[OF assms, of repos]
  have ok: "userPermsOK ?r" and s: "snd ?r = snd acc \<union> ID ` set repos" by blast+
  from ok show "distinct (Exacts (fst ?r))" by (simp add: userPermsOK_def)
  from ok have "snd ?r = set (Exacts (fst ?r))" by (simp add: userPermsOK_def)
  with s show "set (Exacts (fst ?r)) = snd acc \<union> ID ` set repos" by simp
qed

lemma collaborators_phase_completes:
  assumes goes: "goesOn (collaboratorPage (codeHostAPI (client p)) (token (client p)) owner name aff) n"
    and n: "1 \<le> n"
    and last: "collaboratorPage (codeHostAPI (client p)) (token (client p)) owner name aff n = (items, False, None)"
  shows "forPages (listUsersForRepo p owner name aff) 1 (acc, tr)
         = Some (Inl (fold (\<lambda>u. addUserToRepoPerms [FormatInt (DatabaseID u)])
                        (itemsBefore (collaboratorPage (codeHostAPI (client p)) (token (client p)) owner name aff) (Suc n)) acc,
                      tr @ map (collaboratorRequest (token (client p)) owner name aff) [1..<Suc n]))"
  using last n
  by (subst collaborators_phase_unroll[OF goes n], subst forPages.simps)
     (simp add: listUsersForRepo_eq collaboratorPage_def[symmetric] collaboratorRequest_def itemsBefore_Suc)

lemma collaborators_phase_fails:
  assumes goes: "goesOn (collaboratorPage (codeHostAPI (client p)) (token (client p)) owner name aff) n"
    and n: "1 \<le> n"
    and last: "collaboratorPage (codeHostAPI (client p)) (token (client p)) owner name aff n = (items, hn, Some e)"
  shows "forPages (listUsersForRepo p owner name aff) 1 (acc, tr)
         = Some (Inr (Some (fst (fold (\<lambda>u. addUserToRepoPerms [FormatInt (DatabaseID u)])
                        (itemsBefore (collaboratorPage (codeHostAPI (client p)) (token (client p)) owner name aff) n) acc)),
                      Some (Wrap e ''list users for repo''), groupsCache p,
                      tr @ map (collaboratorRequest (token (client p)) owner name aff) [1..<Suc n]))"
  using last n
  by (subst collaborators_phase_unroll[OF goes n], subst forPages.simps)
     (simp add: listUsersForRepo_eq collaboratorPage_def[symmetric] collaboratorRequest_def)

lemma direct_phase_completes:
  assumes goes: "goesOn (directPage (codeHostAPI cl) (token cl) affs) n" and n: "1 \<le> n"
    and last: "directPage (codeHostAPI cl) (token cl) affs n = (items, False, None)"
  shows "forPages (listReposForUser p cl affs) 1 (acc, tr)
         = Some (Inl (fold (\<lambda>r. addRepoToUserPerms [ID r])
                        (itemsBefore (directPage (codeHostAPI cl) (token cl) affs) (Suc n)) acc,
                      tr @ map (directRequest (token cl) affs) [1..<Suc n]))"
  using last n
  by (subst direct_phase_unroll[OF goes n], subst forPages.simps)
     (simp add: listReposForUser_eq directPage_def[symmetric] directRequest_def itemsBefore_Suc)

lemma direct_phase_fails:
  assumes goes: "goesOn (directPage (codeHostAPI cl) (token cl) affs) n" and n: "1 \<le> n"
    and last: "directPage (codeHostAPI cl) (token cl) affs n = (items, hn, Some e)"
  shows "forPages (listReposForUser p cl affs) 1 (acc, tr)
         = Some (Inr (fst (fold (\<lambda>r. addRepoToUserPerms [ID r])
                        (itemsBefore (directPage (codeHostAPI cl) (token cl) affs) n) acc),
                      Some (Wrap e ''list repos for user''), groupsCache p,
                      tr @ map (directRequest (token cl) affs) [1..<Suc n]))"
  using last n
  by (subst direct_phase_unroll[OF goes n], subst forPages.simps)
     (simp add: listReposForUser_eq directPage_def[symmetric] directRequest_def)

lemma getRepoAffiliatedGroups_lookup_error:
  assumes "getOrganization (codeHostAPI (client p)) (token (client p)) owner = (org, Some e)"
  shows "getRepoAffiliatedGroups p c owner name opts tr
         = Some ([], if IsNotFound e then None else Some e, c,
                 tr @ [Request (token (client p)) (ReqGetOrganization owner)])"
  using assms by (simp add: getRepoAffiliatedGroups_def GetOrganization_def)

lemma FetchRepoPerms_valid:
  assumes "IsHostOfRepo (codeHost p) (ExternalRepoSpec r)" and "nameWithOwner p r = Inr (owner, name)"
  shows "FetchRepoPerms p (Some r) opts tr =
     (case forPages (listUsersForRepo p owner name
                       (if groupsCache p = None then AffiliationAny else AffiliationDirect)) 1
             (([], {}), tr) of
        None \<Rightarrow> None
      | Some (Inr res) \<Rightarrow> Some res
      | Some (Inl (acc, tr)) \<Rightarrow>
          (case groupsCache p of
             None \<Rightarrow> Some (Some (fst acc), None, None, tr)
           | Some c \<Rightarrow>
               (case getRepoAffiliatedGroups p c owner name opts tr of
                  None \<Rightarrow> None
                | Some (groups, err, c, tr) \<Rightarrow>
                    (case err of
                       Some e \<Rightarrow>
                         Some (Some (fst acc), Some (Wrap e ''get groups affiliated with repo''), Some c, tr)
                     | None \<Rightarrow>
                         (case forRange (syncRepoGroup p owner (RepoSpecID (ExternalRepoSpec r)))
                                 groups (acc, c, tr) of
                            None \<Rightarrow> None
                          | Some (Inr res) \<Rightarrow> Some res
                          | Some (Inl (acc, c, tr)) \<Rightarrow> Some (Some (fst acc), None, Some c, tr))))))"
  using assms by (simp add: FetchRepoPerms_def nameWithOwner_def Let_def)

subsection \<open>Failing listings of a fetch\<close>

lemma FetchUserPerms_valid:
  assumes "IsHostOfAccount (codeHost p) a" and "GetExternalAccountData (AccountData a) = (Some t, None)"
  shows "FetchUserPerms p (Some a) opts tr
           = map_option (\<lambda>(perms, r). (Some perms, r))
               (fetchUserPermsByToken p (AccountID (AccountSpec a)) (AccessToken t) opts tr)"
  using assms by (simp add: FetchUserPerms_def)

lemma fetchUserPermsByToken_unfold:
  "fetchUserPermsByToken p accountID tok opts tr =
     (case forPages (listReposForUser p (WithToken (client p) tok) (affiliationsOf p)) 1
             ((\<lparr>Exacts = []\<rparr>, {}), tr) of
        None \<Rightarrow> None
      | Some (Inr r) \<Rightarrow> Some r
      | Some (Inl (acc, tr)) \<Rightarrow>
          (case groupsCache p of
             None \<Rightarrow> Some (fst acc, None, None, tr)
           | Some c \<Rightarrow>
               (case getUserAffiliatedGroups c (WithToken (client p) tok) opts tr of
                  None \<Rightarrow> None
                | Some (groups, err, c, tr) \<Rightarrow>
                    (case err of
                       Some e \<Rightarrow>
                         Some (fst acc, Some (Wrap e ''get groups affiliated with user''), Some c, tr)
                     | None \<Rightarrow>
                         (case forRange (syncUserGroup p accountID) groups (acc, c, tr) of
                            None \<Rightarrow> None
                          | Some (Inr r) \<Rightarrow> Some r
                          | Some (Inl (acc, c, tr)) \<Rightarrow> Some (fst acc, None, Some c, tr))))))"
  by (simp add: fetchUserPermsByToken_def affiliationsOf_def Let_def)

lemma WithToken_simps [simp]:
  "token (WithToken c tok) = tok" "codeHostAPI (WithToken c tok) = codeHostAPI c"
  by (simp_all add: WithToken_def)

lemma listOrgsForUser_Next:
  assumes "userOrgsPage (codeHostAPI cl) (token cl) k = (orgs, hn, None)"
  shows "\<exists>s'. listOrgsForUser cl opts k s = Next (s', hn)"
proof -
  obtain groups seen c tr where "s = (groups, seen, c, tr)" by (cases s)
  with assms show ?thesis
    by (simp add: listOrgsForUser_def GetAuthenticatedUserOrgsDetailsAndMembership_def userOrgsPage_def
          del: split_paired_Ex)
qed

lemma listOrgsForUser_Return:
  assumes "userOrgsPage (codeHostAPI cl) (token cl) k = (orgs, hn, Some e)"
  shows "\<exists>groups c1 tr1. listOrgsForUser cl opts k s = Return (groups, Some e, c1, tr1)"
proof -
  obtain groups seen c tr where "s = (groups, seen, c, tr)" by (cases s)
  with assms show ?thesis
    by (simp add: listOrgsForUser_def GetAuthenticatedUserOrgsDetailsAndMembership_def userOrgsPage_def
          del: split_paired_Ex)
qed

lemma listTeamsForUser_Next:
  assumes "userTeamsPage (codeHostAPI cl) (token cl) k = (teams, hn, None)"
  shows "\<exists>s'. listTeamsForUser cl opts k s = Next (s', hn)"
proof -
  obtain groups seen c tr where "s = (groups, seen, c, tr)" by (cases s)
  with assms show ?thesis
    by (simp add: listTeamsForUser_def GetAuthenticatedUserTeams_def userTeamsPage_def
          del: split_paired_Ex)
qed

lemma listTeamsForUser_Return:
  assumes "userTeamsPage (codeHostAPI cl) (token cl) k = (teams, hn, Some e)"
  shows "\<exists>groups c1 tr1. listTeamsForUser cl opts k s = Return (groups, Some e, c1, tr1)"
proof -
  obtain groups seen c tr where "s = (groups, seen, c, tr)" by (cases s)
  with assms show ?thesis
    by (simp add: listTeamsForUser_def GetAuthenticatedUserTeams_def userTeamsPage_def
          del: split_paired_Ex)
qed

lemma listTeamsForRepo_Next:
  assumes "repoTeamsPage (codeHostAPI (client p)) (token (client p)) owner name k = (teams, hn, None)"
  shows "\<exists>s'. listTeamsForRepo p opts owner name k s = Next (s', hn)"
proof -
  obtain groups c tr where "s = (groups, c, tr)" by (cases s)
  with assms show ?thesis
    by (simp add: listTeamsForRepo_def ListRepositoryTeams_def repoTeamsPage_def
          del: split_paired_Ex)
qed

lemma listTeamsForRepo_Return:
  assumes "repoTeamsPage (codeHostAPI (client p)) (token (client p)) owner name k = (teams, hn, Some e)"
  shows "\<exists>groups c1 tr1. listTeamsForRepo p opts owner name k s = Return (groups, Some e, c1, tr1)"
proof -
  obtain groups c tr where "s = (groups, c, tr)" by (cases s)
  with assms show ?thesis
    by (simp add: listTeamsForRepo_def ListRepositoryTeams_def repoTeamsPage_def
          del: split_paired_Ex)
qed

lemma forPages_fails_at:
  assumes goes: "goesOn list n" and n: "1 \<le> n" and last: "list n = (items, hn, Some e)"
    and ok: "\<And>k s items hn. list k = (items, hn, None) \<Longrightarrow> \<exists>s'. body k s = Next (s', hn)"
    and err: "\<And>s. \<exists>r. body n s = Return r \<and> Q r"
  shows "\<exists>r. forPages body 1 s = Some (Inr r) \<and> Q r"
proof -
  have "\<exists>y. forPages body 1 s = Some y \<and> (\<exists>r. y = Inr r \<and> Q r)"
  proof (rule forPages_total[where I = "\<lambda>k s. True" and n = n])
    show True ..
    show "1 \<le> n" by (rule n)
  next
    fix k s assume "1 \<le> k" "k < n"
    with goes obtain items where "list k = (items, True, None)"
      by (cases "list k") (auto simp: goesOn_def)
    from ok[OF this, of s] show "\<exists>s'. body k s = Next (s', True) \<and> True" by simp
  next
    fix s
    from err[of s]
    show "(\<exists>r. body n s = Return r \<and> (\<exists>r'. Inr r = Inr r' \<and> Q r'))
            \<or> (\<exists>s'. body n s = Next (s', False) \<and> (\<exists>r. Inl s' = Inr r \<and> Q r))"
      by auto
  qed
  then show ?thesis by auto
qed

lemma forPages_ends_at:
  assumes goes: "goesOn list n" and n: "1 \<le> n" and last: "snd (list n) = (False, None)"
    and ok: "\<And>k s items hn. list k = (items, hn, None) \<Longrightarrow> \<exists>s'. body k s = Next (s', hn)"
  shows "\<exists>s'. forPages body 1 s = Some (Inl s')"
proof -
  have "\<exists>y. forPages body 1 s = Some y \<and> (\<exists>s'. y = Inl s')"
  proof (rule forPages_total[where I = "\<lambda>k s. True" and n = n])
    show True ..
    show "1 \<le> n" by (rule n)
  next
    fix k s assume "1 \<le> k" "k < n"
    with goes obtain items where "list k = (items, True, None)"
      by (cases "list k") (auto simp: goesOn_def)
    from ok[OF this, of s] show "\<exists>s'. body k s = Next (s', True) \<and> True" by simp
  next
    fix s
    from last obtain items where "list n = (items, False, None)" by (cases "list n") auto
    from ok[OF this, of s]
    show "(\<exists>r. body n s = Return r \<and> (\<exists>s'. Inr r = Inl s'))
            \<or> (\<exists>s'. body n s = Next (s', False) \<and> (\<exists>s''. Inl s' = Inl s''))"
      by auto
  qed
  then show ?thesis by auto
qed

lemma getUserAffiliatedGroups_orgs_fail:
  assumes "goesOn (userOrgsPage (codeHostAPI cl) (token cl)) n" and "1 \<le> n"
    and "userOrgsPage (codeHostAPI cl) (token cl) n = (orgs, hn, Some e)"
  shows "\<exists>groups c1 tr1. getUserAffiliatedGroups c cl opts tr = Some (groups, Some e, c1, tr1)"
proof -
  have "\<exists>r. forPages (listOrgsForUser cl opts) 1 ([], {}, c, tr) = Some (Inr r)
           \<and> (\<exists>groups c1 tr1. r = (groups, Some e, c1, tr1))"
  proof (rule forPages_fails_at[OF assms])
    fix k s items hn'
    assume "userOrgsPage (codeHostAPI cl) (token cl) k = (items, hn', None)"
    then show "\<exists>s'. listOrgsForUser cl opts k s = Next (s', hn')"
      by (rule listOrgsForUser_Next)
  next
    fix s
    from listOrgsForUser_Return[OF assms(3)]
    show "\<exists>r. listOrgsForUser cl opts n s = Return r \<and> (\<exists>groups c1 tr1. r = (groups, Some e, c1, tr1))"
      by blast
  qed
  then show ?thesis by (auto simp: getUserAffiliatedGroups_def)
qed

lemma getUserAffiliatedGroups_teams_fail:
  assumes "goesOn (userOrgsPage (codeHostAPI cl) (token cl)) m" and "1 \<le> m"
    and "snd (userOrgsPage (codeHostAPI cl) (token cl) m) = (False, None)"
    and "goesOn (userTeamsPage (codeHostAPI cl) (token cl)) n" and "1 \<le> n"
    and "userTeamsPage (codeHostAPI cl) (token cl) n = (teams, hn, Some e)"
  shows "\<exists>groups c1 tr1. getUserAffiliatedGroups c cl opts tr = Some (groups, Some e, c1, tr1)"
proof -
  have "\<exists>s'. forPages (listOrgsForUser cl opts) 1 ([], {}, c, tr) = Some (Inl s')"
  proof (rule forPages_ends_at[OF assms(1,2,3)])
    fix k s items hn'
    assume "userOrgsPage (codeHostAPI cl) (token cl) k = (items, hn', None)"
    then show "\<exists>s'. listOrgsForUser cl opts k s = Next (s', hn')"
      by (rule listOrgsForUser_Next)
  qed
  then obtain st where 1: "forPages (listOrgsForUser cl opts) 1 ([], {}, c, tr) = Some (Inl st)" by blast
  have "\<exists>r. forPages (listTeamsForUser cl opts) 1 st = Some (Inr r)
           \<and> (\<exists>groups c1 tr1. r = (groups, Some e, c1, tr1))"
  proof (rule forPages_fails_at[OF assms(4,5,6)])
    fix k s items hn'
    assume "userTeamsPage (codeHostAPI cl) (token cl) k = (items, hn', None)"
    then show "\<exists>s'. listTeamsForUser cl opts k s = Next (s', hn')"
      by (rule listTeamsForUser_Next)
  next
    fix s
    from listTeamsForUser_Return[OF assms(6)]
    show "\<exists>r. listTeamsForUser cl opts n s = Return r \<and> (\<exists>groups c1 tr1. r = (groups, Some e, c1, tr1))"
      by blast
  qed
  with 1 show ?thesis by (auto simp: getUserAffiliatedGroups_def)
qed

lemma getRepoAffiliatedGroups_teams_fail:
  assumes "getOrganization (codeHostAPI (client p)) (token (client p)) owner = (org, None)"
    and "\<not> canViewOrgRepos \<lparr>OrgDetails = org, OrgMembership = None\<rparr>"
    and "goesOn (repoTeamsPage (codeHostAPI (client p)) (token (client p)) owner name) n" and "1 \<le> n"
    and "repoTeamsPage (codeHostAPI (client p)) (token (client p)) owner name n = (teams, hn, Some e)"
  shows "\<exists>groups c1 tr1. getRepoAffiliatedGroups p c owner name opts tr = Some (groups, Some e, c1, tr1)"
proof -
  let ?s0 = "repoSyncGroup opts owner [] True
               ([], c, tr @ [Request (token (client p)) (ReqGetOrganization owner)])"
  have "\<exists>r. forPages (listTeamsForRepo p opts owner name) 1 ?s0 = Some (Inr r)
           \<and> (\<exists>groups c1 tr1. r = (groups, Some e, c1, tr1))"
  proof (rule forPages_fails_at[OF assms(3,4,5)])
    fix k s items hn'
    assume "repoTeamsPage (codeHostAPI (client p)) (token (client p)) owner name k = (items, hn', None)"
    then show "\<exists>s'. listTeamsForRepo p opts owner name k s = Next (s', hn')"
      by (rule listTeamsForRepo_Next)
  next
    fix s
    from listTeamsForRepo_Return[OF assms(5)]
    show "\<exists>r. listTeamsForRepo p opts owner name n s = Return r
               \<and> (\<exists>groups c1 tr1. r = (groups, Some e, c1, tr1))"
      by blast
  qed
  with assms(1,2) show ?thesis
    by (auto simp: getRepoAffiliatedGroups_def GetOrganization_def)
qed

subsection \<open>The groups of a repository of a restrictive organization\<close>











subsection \<open>A page loop that ends\<close>

lemma forPages_run:
  assumes run: "forPages body page s = Some y"
    and inv: "Inv s"
    and nxt: "\<And>k s s' b. Inv s \<Longrightarrow> body k s = Next (s', b) \<Longrightarrow> Inv s' \<and> snd (list k) = (b, None)"
    and ret: "\<And>k s r. Inv s \<Longrightarrow> body k s = Return r \<Longrightarrow> snd (snd (list k)) \<noteq> None"
  shows "\<exists>n\<ge>page. (\<forall>k. page \<le> k \<and> k < n \<longrightarrow> snd (list k) = (True, None))
           \<and> (snd (list n) = (False, None) \<or> snd (snd (list n)) \<noteq> None)"
proof -
  let ?C = "\<lambda>k. \<exists>n\<ge>k. (\<forall>j. k \<le> j \<and> j < n \<longrightarrow> snd (list j) = (True, None))
           \<and> (snd (list n) = (False, None) \<or> snd (snd (list n)) \<noteq> None)"
  have "body = body \<longrightarrow> Inv s \<longrightarrow> ?C page"
  proof (rule forPages.raw_induct[where P = "\<lambda>b k s y. b = body \<longrightarrow> Inv s \<longrightarrow> ?C k", OF _ run])
    fix f b k s y
    assume IH: "\<And>b' p' s' y'. f b' p' s' = Some y' \<Longrightarrow> b' = body \<longrightarrow> Inv s' \<longrightarrow> ?C p'"
      and eq: "(case b k s of
                  Next (s', hasNextPage) \<Rightarrow> if hasNextPage then f b (k + 1) s' else Some (Inl s')
                | Return r \<Rightarrow> Some (Inr r)) = Some y"
    show "b = body \<longrightarrow> Inv s \<longrightarrow> ?C k"
    proof (intro impI)
      assume b: "b = body" and i: "Inv s"
      show "?C k"
      proof (cases "body k s")
        case (Return r)
        from ret[OF i Return] have "snd (snd (list k)) \<noteq> None" .
        then show ?thesis by (intro exI[of _ k]) auto
      next
        case (Next sb)
        obtain s' hn where sb: "sb = (s', hn)" by (cases sb)
        from nxt[OF i Next[unfolded sb]] have i': "Inv s'" and pg: "snd (list k) = (hn, None)" by simp_all
        show ?thesis
        proof (cases hn)
          case False
          with pg show ?thesis by (intro exI[of _ k]) auto
        next
          case True
          with eq b Next sb have "f body (k + 1) s' = Some y" by simp
          from IH[OF this] i' obtain n where n: "k + 1 \<le> n"
            and go: "\<forall>j. k + 1 \<le> j \<and> j < n \<longrightarrow> snd (list j) = (True, None)"
            and en: "snd (list n) = (False, None) \<or> snd (snd (list n)) \<noteq> None"
            by auto
          have "\<forall>j. k \<le> j \<and> j < n \<longrightarrow> snd (list j) = (True, None)"
          proof (intro allI impI)
            fix j assume j: "k \<le> j \<and> j < n"
            show "snd (list j) = (True, None)"
            proof (cases "j = k")
              case True
              with pg \<open>hn\<close> show ?thesis by simp
            next
              case False
              with j go show ?thesis by simp
            qed
          qed
          with n en show ?thesis by (intro exI[of _ n]) auto
        qed
      qed
    qed
  qed
  with inv show ?thesis by simp
qed

lemma withAccount_fields [simp]:
  "Org (withAccount a g) = Org g" "Team (withAccount a g) = Team g"
  "Repositories (withAccount a g) = Repositories g" "key (withAccount a g) = key g"
  by (simp_all add: withAccount_def)

lemma groupPage_Users [simp]: "groupPage p isOrg (g\<lparr>Users := us\<rparr>) = groupPage p isOrg g"
  by (simp add: groupPage_def fun_eq_iff)

lemma groupRequest_Users [simp]: "groupRequest isOrg (g\<lparr>Users := us\<rparr>) = groupRequest isOrg g"
  by (simp add: groupRequest_def fun_eq_iff)

lemma groupPage_withAccount [simp]: "groupPage p isOrg (withAccount a g) = groupPage p isOrg g"
  by (simp add: withAccount_def)

lemma groupRequest_withAccount [simp]: "groupRequest isOrg (withAccount a g) = groupRequest isOrg g"
  by (simp add: withAccount_def)

lemma repositoryRequests_withAccount [simp]:
  "repositoryRequests p (withAccount a g) n = repositoryRequests p g n"
  by (simp add: repositoryRequests_def)

lemma replay_requests [simp]: "fold replay (repositoryRequests p g n) c = c"
proof -
  have "\<And>xs. fold replay (map (\<lambda>k. Request (token (client p)) (groupRequest (Team g = []) g k)) xs) c = c"
  proof -
    fix xs :: "nat list"
    show "fold replay (map (\<lambda>k. Request (token (client p)) (groupRequest (Team g = []) g k)) xs) c = c"
      by (induction xs) simp_all
  qed
  then show ?thesis by (simp add: repositoryRequests_def)
qed

lemma addAccountToGroup_eq:
  "addAccountToGroup accountID g (c, tr)
     = (withAccount accountID g, fold replay (accountEvents accountID g) c, tr @ accountEvents accountID g)"
  by (simp add: addAccountToGroup_def withAccount_def accountEvents_def needsAccount_def setGroup_def Let_def)

lemma fullSyncRepos_pages:
  assumes run: "fullSyncRepos p g (acc, c, tr) = Some y"
  shows "\<exists>n\<ge>1. goesOn (groupPage p (Team g = []) g) n
           \<and> (snd (groupPage p (Team g = []) g n) = (False, None)
              \<or> snd (snd (groupPage p (Team g = []) g n)) \<noteq> None)"
proof -
  let ?list = "groupPage p (Team g = []) g"
  let ?Inv = "\<lambda>s :: cachedGroup \<times> userPerms \<times> trace. Org (fst s) = Org g \<and> Team (fst s) = Team g"
  from run obtain z where loop:
    "forPages (listReposForGroup p c (Team g = [])) 1 (g\<lparr>Repositories := []\<rparr>, acc, tr) = Some z"
    by (auto simp: fullSyncRepos_def split: option.splits)
  have same: "\<And>grp k. Org grp = Org g \<Longrightarrow> Team grp = Team g \<Longrightarrow>
                groupPage p (Team g = []) grp k = groupPage p (Team g = []) g k"
    by (simp add: groupPage_def)
  have "\<exists>n\<ge>1. (\<forall>k. 1 \<le> k \<and> k < n \<longrightarrow> snd (?list k) = (True, None))
           \<and> (snd (?list n) = (False, None) \<or> snd (snd (?list n)) \<noteq> None)"
  proof (rule forPages_run[OF loop, where Inv = ?Inv])
    show "?Inv (g\<lparr>Repositories := []\<rparr>, acc, tr)" by simp
  next
    fix k s s' b
    assume i: "?Inv s" and st: "listReposForGroup p c (Team g = []) k s = Next (s', b)"
    obtain grp a t where s: "s = (grp, a, t)" by (cases s)
    obtain items hn er where pg: "?list k = (items, hn, er)" by (cases "?list k") auto
    from i s have "groupPage p (Team g = []) grp k = ?list k" by (intro same) simp_all
    with st s pg show "?Inv s' \<and> snd (?list k) = (b, None)"
      using i by (auto simp: listReposForGroup_eq split: option.splits)
  next
    fix k s r
    assume i: "?Inv s" and st: "listReposForGroup p c (Team g = []) k s = Return r"
    obtain grp a t where s: "s = (grp, a, t)" by (cases s)
    obtain items hn er where pg: "?list k = (items, hn, er)" by (cases "?list k") auto
    from i s have "groupPage p (Team g = []) grp k = ?list k" by (intro same) simp_all
    with st s pg show "snd (snd (?list k)) \<noteq> None"
      by (auto simp: listReposForGroup_eq split: option.splits)
  qed
  then show ?thesis by (simp add: goesOn_def)
qed

lemma syncUserGroup_run:
  assumes run: "syncUserGroup p accountID g (acc, c, tr) = Some y"
  shows "\<exists>seg. (case y of
            Next (acc', c', tr') \<Rightarrow>
              userGroupEvents p accountID g seg \<and> tr' = tr @ seg \<and> c' = fold replay seg c
          | Return (perms, err, cfin, tr') \<Rightarrow>
              (\<exists>e. userGroupFailure p accountID g e seg \<and> err = Some (Wrap e ''list repos for group''))
              \<and> tr' = tr @ seg \<and> cfin = Some (fold replay seg c))"
proof (cases "Repositories g \<noteq> []")
  case True
  with run have "y = Next (addRepoToUserPerms (Repositories g) acc,
                           fold replay (accountEvents accountID g) c, tr @ accountEvents accountID g)"
    by (simp add: syncUserGroup_def addAccountToGroup_eq)
  with True show ?thesis
    by (intro exI[of _ "accountEvents accountID g"]) (simp add: userGroupEvents_def)
next
  case False
  let ?g1 = "withAccount accountID g"
  let ?c1 = "fold replay (accountEvents accountID g) c"
  let ?tr1 = "tr @ accountEvents accountID g"
  let ?list = "groupPage p (Team g = []) g"
  from False run have full: "fullSyncRepos p ?g1 (acc, ?c1, ?tr1) = Some y"
    by (simp add: syncUserGroup_def addAccountToGroup_eq)
  from fullSyncRepos_pages[OF full] obtain n where n: "1 \<le> n" and goes: "goesOn ?list n"
    and en: "snd (?list n) = (False, None) \<or> snd (snd (?list n)) \<noteq> None"
    by auto
  from en show ?thesis
  proof
    assume "snd (?list n) = (False, None)"
    then obtain items where last: "?list n = (items, False, None)" by (cases "?list n") auto
    let ?gf = "?g1\<lparr>Repositories := map ID (itemsBefore ?list (Suc n))\<rparr>"
    let ?seg = "accountEvents accountID g @ repositoryRequests p g n @ [SetGroup ?gf]"
    from fullSyncRepos_completes[of p ?g1 n items acc ?c1 ?tr1] goes n last full
    have y: "y = Next (fold (\<lambda>r. addRepoToUserPerms [ID r]) (itemsBefore ?list (Suc n)) acc,
                       ?c1(key g \<mapsto> ?gf), ?tr1 @ repositoryRequests p g n @ [SetGroup ?gf])"
      by (simp add: repositoryRequests_def)
    have "userGroupEvents p accountID g ?seg"
      unfolding userGroupEvents_def using False n goes last by (auto intro!: exI[of _ n])
    moreover have "fold replay ?seg c = ?c1(key g \<mapsto> ?gf)" by simp
    ultimately show ?thesis using y by (intro exI[of _ ?seg]) simp
  next
    assume "snd (snd (?list n)) \<noteq> None"
    then obtain items hn e where last: "?list n = (items, hn, Some e)" by (cases "?list n") auto
    let ?seg = "accountEvents accountID g @ repositoryRequests p g n"
    from fullSyncRepos_fails[of p ?g1 n items hn e acc ?c1 ?tr1] goes n last full
    have y: "y = Return (fst (fold (\<lambda>r. addRepoToUserPerms [ID r]) (itemsBefore ?list n @ items) acc),
                         Some (Wrap e ''list repos for group''), Some ?c1, ?tr1 @ repositoryRequests p g n)"
      by (simp add: repositoryRequests_def)
    have "userGroupFailure p accountID g e ?seg"
      unfolding userGroupFailure_def using False n goes last by (auto intro!: exI[of _ n])
    moreover have "fold replay ?seg c = ?c1" by simp
    ultimately show ?thesis using y by (intro exI[of _ ?seg]) simp
  qed
qed

lemma user_groups_run:
  assumes run: "forRange (syncUserGroup p accountID) groups (acc, c, tr) = Some z"
  shows "case z of
           Inl (acc', c', tr') \<Rightarrow>
             (\<exists>segs. list_all2 (userGroupEvents p accountID) groups segs
                \<and> tr' = tr @ concat segs \<and> c' = fold replay (concat segs) c)
         | Inr (perms, err, cfin, tr') \<Rightarrow>
             (\<exists>before g rest segs seg e.
                groups = before @ g # rest
                \<and> list_all2 (userGroupEvents p accountID) before segs
                \<and> userGroupFailure p accountID g e seg
                \<and> err = Some (Wrap e ''list repos for group'')
                \<and> tr' = tr @ concat segs @ seg \<and> cfin = Some (fold replay (concat segs @ seg) c))"
  using run
proof (induction groups arbitrary: acc c tr)
  case Nil
  then show ?case by auto
next
  case (Cons g groups)
  from Cons.prems obtain y where y: "syncUserGroup p accountID g (acc, c, tr) = Some y"
    by (auto split: option.splits)
  from syncUserGroup_run[OF y] obtain seg where seg:
    "case y of
       Next (acc', c', tr') \<Rightarrow>
         userGroupEvents p accountID g seg \<and> tr' = tr @ seg \<and> c' = fold replay seg c
     | Return (perms, err, cfin, tr') \<Rightarrow>
         (\<exists>e. userGroupFailure p accountID g e seg \<and> err = Some (Wrap e ''list repos for group''))
         \<and> tr' = tr @ seg \<and> cfin = Some (fold replay seg c)"
    by blast
  show ?case
  proof (cases y)
    case (Return r)
    obtain perms err cfin tr' where r: "r = (perms, err, cfin, tr')" by (cases r)
    from Cons.prems y Return have z: "z = Inr r" by simp
    from seg Return r obtain e where f: "userGroupFailure p accountID g e seg"
      and e: "err = Some (Wrap e ''list repos for group'')"
      and t: "tr' = tr @ seg" and cf: "cfin = Some (fold replay seg c)"
      by auto
    have "\<exists>before g' rest segs seg' e'.
                g # groups = before @ g' # rest
                \<and> list_all2 (userGroupEvents p accountID) before segs
                \<and> userGroupFailure p accountID g' e' seg'
                \<and> err = Some (Wrap e' ''list repos for group'')
                \<and> tr' = tr @ concat segs @ seg' \<and> cfin = Some (fold replay (concat segs @ seg') c)"
      apply (rule exI[of _ "[]"])
      apply (rule exI[of _ g])
      apply (rule exI[of _ groups])
      apply (rule exI[of _ "[]"])
      apply (rule exI[of _ seg])
      apply (rule exI[of _ e])
      using f e t cf apply simp
      done
    with z r show ?thesis by simp
  next
    case (Next s)
    obtain acc1 c1 tr1 where s: "s = (acc1, c1, tr1)" by (cases s)
    from seg Next s have ev: "userGroupEvents p accountID g seg"
      and t1: "tr1 = tr @ seg" and c1: "c1 = fold replay seg c" by auto
    from Cons.prems y Next s have rest: "forRange (syncUserGroup p accountID) groups (acc1, c1, tr1) = Some z"
      by simp
    note IH = Cons.IH[OF rest]
    show ?thesis
    proof (cases z)
      case (Inl s')
      obtain acc' c' tr' where s': "s' = (acc', c', tr')" by (cases s')
      from IH Inl s' obtain segs where a: "list_all2 (userGroupEvents p accountID) groups segs"
        and t: "tr' = tr1 @ concat segs" and cc: "c' = fold replay (concat segs) c1" by auto
      have "\<exists>segs'. list_all2 (userGroupEvents p accountID) (g # groups) segs'
                \<and> tr' = tr @ concat segs' \<and> c' = fold replay (concat segs') c"
        apply (rule exI[of _ "seg # segs"])
        using ev a t cc t1 c1 apply simp
        done
      with Inl s' show ?thesis by simp
    next
      case (Inr r)
      obtain perms err cfin tr' where r: "r = (perms, err, cfin, tr')" by (cases r)
      from IH Inr r obtain before g' rest' segs seg' e' where
        gs: "groups = before @ g' # rest'"
        and a: "list_all2 (userGroupEvents p accountID) before segs"
        and f: "userGroupFailure p accountID g' e' seg'"
        and e: "err = Some (Wrap e' ''list repos for group'')"
        and t: "tr' = tr1 @ concat segs @ seg'"
        and cf: "cfin = Some (fold replay (concat segs @ seg') c1)"
        by auto
      have "\<exists>before g'' rest segs' seg'' e''.
                g # groups = before @ g'' # rest
                \<and> list_all2 (userGroupEvents p accountID) before segs'
                \<and> userGroupFailure p accountID g'' e'' seg''
                \<and> err = Some (Wrap e'' ''list repos for group'')
                \<and> tr' = tr @ concat segs' @ seg'' \<and> cfin = Some (fold replay (concat segs' @ seg'') c)"
        apply (rule exI[of _ "g # before"])
        apply (rule exI[of _ g'])
        apply (rule exI[of _ rest'])
        apply (rule exI[of _ "seg # segs"])
        apply (rule exI[of _ seg'])
        apply (rule exI[of _ e'])
        using gs a f e t cf ev t1 c1 apply simp
        done
      with Inr r show ?thesis by simp
    qed
  qed
qed

subsection \<open>Groups whose listing is known to end\<close>

lemma listed_complete:
  assumes goes: "goesOn list n" and n: "1 \<le> n" and last: "snd (list n) = (False, None)"
  shows "listed list = set (itemsBefore list (Suc n))"
proof -
  have le: "\<And>k. goesOn list k \<Longrightarrow> k \<le> n"
  proof (rule ccontr)
    fix k assume g: "goesOn list k" and "\<not> k \<le> n"
    then have "n < k" by simp
    with g n have "snd (list n) = (True, None)" by (simp add: goesOn_def)
    with last show False by simp
  qed
  have ge: "\<And>k. k \<le> n \<Longrightarrow> goesOn list k" using goes by (simp add: goesOn_def)
  have "set (itemsBefore list (Suc n)) = {x. \<exists>k. 1 \<le> k \<and> k \<le> n \<and> x \<in> set (fst (list k))}"
    by (auto simp: itemsBefore_def)
  also have "\<dots> = listed list"
    unfolding listed_def using le ge by blast
  finally show ?thesis by simp
qed

lemma syncUserGroup_completes:
  assumes ok: "userPermsOK acc"
    and h: "Repositories g \<noteq> [] \<or> endsWell (groupPage p (Team g = []) g)"
  shows "\<exists>acc' c' tr'. syncUserGroup p accountID g (acc, c, tr) = Some (Next (acc', c', tr'))
           \<and> userPermsOK acc' \<and> snd acc' = snd acc \<union> groupRepositories p g"
proof (cases "Repositories g \<noteq> []")
  case True
  then have "syncUserGroup p accountID g (acc, c, tr)
               = Some (Next (addRepoToUserPerms (Repositories g) acc,
                           fold replay (accountEvents accountID g) c, tr @ accountEvents accountID g))"
    by (simp add: syncUserGroup_def addAccountToGroup_eq)
  with addRepoToUserPerms_ok[OF ok, of "Repositories g"] True show ?thesis
    by (simp add: groupRepositories_def)
next
  case False
  let ?g1 = "withAccount accountID g"
  let ?c1 = "fold replay (accountEvents accountID g) c"
  let ?tr1 = "tr @ accountEvents accountID g"
  let ?list = "groupPage p (Team g = []) g"
  from False h obtain n where n: "1 \<le> n" and goes: "goesOn ?list n" and e: "snd (?list n) = (False, None)"
    by (auto simp: endsWell_def)
  from e obtain items where last: "?list n = (items, False, None)" by (cases "?list n") auto
  from False have "syncUserGroup p accountID g (acc, c, tr) = fullSyncRepos p ?g1 (acc, ?c1, ?tr1)"
    by (simp add: syncUserGroup_def addAccountToGroup_eq)
  also from fullSyncRepos_completes[of p ?g1 n items acc ?c1 ?tr1] goes n last
  have "\<dots> = Some (Next (fold (\<lambda>r. addRepoToUserPerms [ID r]) (itemsBefore ?list (Suc n)) acc,
                       ?c1(key g \<mapsto> ?g1\<lparr>Repositories := map ID (itemsBefore ?list (Suc n))\<rparr>),
                       ?tr1 @ map (\<lambda>k. Request (token (client p)) (groupRequest (Team g = []) g k)) [1..<Suc n]
                          @ [SetGroup (?g1\<lparr>Repositories := map ID (itemsBefore ?list (Suc n))\<rparr>)]))"
    by simp
  finally have run: "syncUserGroup p accountID g (acc, c, tr)
     = Some (Next (fold (\<lambda>r. addRepoToUserPerms [ID r]) (itemsBefore ?list (Suc n)) acc,
                       ?c1(key g \<mapsto> ?g1\<lparr>Repositories := map ID (itemsBefore ?list (Suc n))\<rparr>),
                       ?tr1 @ map (\<lambda>k. Request (token (client p)) (groupRequest (Team g = []) g k)) [1..<Suc n]
                          @ [SetGroup (?g1\<lparr>Repositories := map ID (itemsBefore ?list (Suc n))\<rparr>)]))" .
  from fold_addRepoToUserPerms_ok[OF ok, of "itemsBefore ?list (Suc n)"] listed_complete[OF goes n e] False
  have "userPermsOK (fold (\<lambda>r. addRepoToUserPerms [ID r]) (itemsBefore ?list (Suc n)) acc)"
    and "snd (fold (\<lambda>r. addRepoToUserPerms [ID r]) (itemsBefore ?list (Suc n)) acc)
           = snd acc \<union> groupRepositories p g"
    by (simp_all add: groupRepositories_def)
  with run show ?thesis by blast
qed

lemma syncUserGroup_fails:
  assumes ok: "userPermsOK acc" and empty: "Repositories g = []"
    and n: "1 \<le> n" and goes: "goesOn (groupPage p (Team g = []) g) n"
    and last: "groupPage p (Team g = []) g n = (items, hn, Some e)"
  shows "\<exists>perms c' tr'. syncUserGroup p accountID g (acc, c, tr)
             = Some (Return (perms, Some (Wrap e ''list repos for group''), Some c', tr'))
           \<and> distinct (Exacts perms)
           \<and> set (Exacts perms)
               = snd acc \<union> ID ` set (itemsBefore (groupPage p (Team g = []) g) n) \<union> ID ` set items"
proof -
  let ?g1 = "withAccount accountID g"
  let ?c1 = "fold replay (accountEvents accountID g) c"
  let ?tr1 = "tr @ accountEvents accountID g"
  let ?list = "groupPage p (Team g = []) g"
  from empty have "syncUserGroup p accountID g (acc, c, tr) = fullSyncRepos p ?g1 (acc, ?c1, ?tr1)"
    by (simp add: syncUserGroup_def addAccountToGroup_eq)
  also from fullSyncRepos_fails[of p ?g1 n items hn e acc ?c1 ?tr1] goes n last
  have "\<dots> = Some (Return (fst (fold (\<lambda>r. addRepoToUserPerms [ID r]) (itemsBefore ?list n @ items) acc),
                         Some (Wrap e ''list repos for group''), Some ?c1,
                         ?tr1 @ map (\<lambda>k. Request (token (client p)) (groupRequest (Team g = []) g k)) [1..<Suc n]))"
    by simp
  finally have run: "syncUserGroup p accountID g (acc, c, tr)
     = Some (Return (fst (fold (\<lambda>r. addRepoToUserPerms [ID r]) (itemsBefore ?list n @ items) acc),
                         Some (Wrap e ''list repos for group''), Some ?c1,
                         ?tr1 @ map (\<lambda>k. Request (token (client p)) (groupRequest (Team g = []) g k)) [1..<Suc n]))" .
  from fold_addRepo_result[OF ok, of "itemsBefore ?list n @ items"]
  have "distinct (Exacts (fst (fold (\<lambda>r. addRepoToUserPerms [ID r]) (itemsBefore ?list n @ items) acc)))"
    and "set (Exacts (fst (fold (\<lambda>r. addRepoToUserPerms [ID r]) (itemsBefore ?list n @ items) acc)))
           = snd acc \<union> ID ` set (itemsBefore ?list n) \<union> ID ` set items"
    by (simp_all add: image_Un Un_assoc)
  with run show ?thesis by blast
qed

lemma user_groups_complete:
  assumes ok: "userPermsOK acc"
    and h: "\<forall>g \<in> set groups. Repositories g \<noteq> [] \<or> endsWell (groupPage p (Team g = []) g)"
  shows "\<exists>acc' c' tr'. forRange (syncUserGroup p accountID) groups (acc, c, tr) = Some (Inl (acc', c', tr'))
           \<and> userPermsOK acc' \<and> snd acc' = snd acc \<union> (\<Union>g \<in> set groups. groupRepositories p g)"
  using ok h
proof (induction groups arbitrary: acc c tr)
  case Nil
  then show ?case by simp
next
  case (Cons g groups)
  from Cons.prems(2) have hg: "Repositories g \<noteq> [] \<or> endsWell (groupPage p (Team g = []) g)" by simp
  from syncUserGroup_completes[OF Cons.prems(1) hg, of accountID c tr]
  obtain acc1 c1 tr1 where s: "syncUserGroup p accountID g (acc, c, tr) = Some (Next (acc1, c1, tr1))"
    and ok1: "userPermsOK acc1" and s1: "snd acc1 = snd acc \<union> groupRepositories p g" by blast
  from Cons.prems(2) have h': "\<forall>g \<in> set groups. Repositories g \<noteq> [] \<or> endsWell (groupPage p (Team g = []) g)"
    by simp
  from Cons.IH[OF ok1 h', of c1 tr1]
  obtain acc' c' tr' where r: "forRange (syncUserGroup p accountID) groups (acc1, c1, tr1) = Some (Inl (acc', c', tr'))"
    and ok': "userPermsOK acc'" and s': "snd acc' = snd acc1 \<union> (\<Union>g \<in> set groups. groupRepositories p g)"
    by blast
  from s r have "forRange (syncUserGroup p accountID) (g # groups) (acc, c, tr) = Some (Inl (acc', c', tr'))"
    by simp
  moreover from s1 s' have "snd acc' = snd acc \<union> (\<Union>g \<in> set (g # groups). groupRepositories p g)"
    by auto
  ultimately show ?case using ok' by blast
qed

lemma forRange_append:
  "forRange body (xs @ ys) s =
     (case forRange body xs s of
        None \<Rightarrow> None
      | Some (Inl s') \<Rightarrow> forRange body ys s'
      | Some (Inr r) \<Rightarrow> Some (Inr r))"
proof (induction xs arbitrary: s)
  case Nil
  show ?case by simp
next
  case (Cons x xs)
  show ?case
  proof (cases "body x s")
    case None
    then show ?thesis by simp
  next
    case (Some f)
    then show ?thesis using Cons.IH by (cases f) simp_all
  qed
qed

lemma user_groups_fail:
  assumes ok: "userPermsOK acc"
    and h: "\<forall>g \<in> set before. Repositories g \<noteq> [] \<or> endsWell (groupPage p (Team g = []) g)"
    and empty: "Repositories g = []"
    and n: "1 \<le> n" and goes: "goesOn (groupPage p (Team g = []) g) n"
    and last: "groupPage p (Team g = []) g n = (items, hn, Some e)"
  shows "\<exists>perms c' tr'. forRange (syncUserGroup p accountID) (before @ g # rest) (acc, c, tr)
             = Some (Inr (perms, Some (Wrap e ''list repos for group''), Some c', tr'))
           \<and> distinct (Exacts perms)
           \<and> set (Exacts perms)
               = snd acc \<union> (\<Union>g \<in> set before. groupRepositories p g)
                 \<union> ID ` set (itemsBefore (groupPage p (Team g = []) g) n) \<union> ID ` set items"
proof -
  from user_groups_complete[OF ok h, of accountID c tr]
  obtain acc1 c1 tr1 where r: "forRange (syncUserGroup p accountID) before (acc, c, tr) = Some (Inl (acc1, c1, tr1))"
    and ok1: "userPermsOK acc1" and s1: "snd acc1 = snd acc \<union> (\<Union>g \<in> set before. groupRepositories p g)"
    by blast
  from syncUserGroup_fails[OF ok1 empty n goes last, of accountID c1 tr1]
  obtain perms c' tr' where f: "syncUserGroup p accountID g (acc1, c1, tr1)
             = Some (Return (perms, Some (Wrap e ''list repos for group''), Some c', tr'))"
    and d: "distinct (Exacts perms)"
    and s: "set (Exacts perms)
               = snd acc1 \<union> ID ` set (itemsBefore (groupPage p (Team g = []) g) n) \<union> ID ` set items"
    by blast
  from r f have "forRange (syncUserGroup p accountID) (before @ g # rest) (acc, c, tr)
             = Some (Inr (perms, Some (Wrap e ''list repos for group''), Some c', tr'))"
    by (simp add: forRange_append)
  with d s s1 show ?thesis by blast
qed

subsection \<open>The group loop of a fetch for a repository\<close>

lemma withRepo_fields [simp]:
  "Org (embedded (withRepo r rg)) = Org (embedded rg)" "Team (embedded (withRepo r rg)) = Team (embedded rg)"
  "Users (embedded (withRepo r rg)) = Users (embedded rg)" "key (embedded (withRepo r rg)) = key (embedded rg)"
  "adminsOnly (withRepo r rg) = adminsOnly rg"
  by (simp_all add: withRepo_def)

lemma memberPage_withRepo [simp]: "memberPage p owner (withRepo r rg) = memberPage p owner rg"
  by (simp add: memberPage_def fun_eq_iff)

lemma memberRequest_withRepo [simp]: "memberRequest owner (withRepo r rg) = memberRequest owner rg"
  by (simp add: memberRequest_def fun_eq_iff)

lemma memberRequests_withRepo [simp]: "memberRequests p owner (withRepo r rg) n = memberRequests p owner rg n"
  by (simp add: memberRequests_def)

lemma replay_memberRequests [simp]: "fold replay (memberRequests p owner rg n) c = c"
proof -
  have "\<And>xs. fold replay (map (\<lambda>k. Request (token (client p)) (memberRequest owner rg k)) xs) c = c"
  proof -
    fix xs :: "nat list"
    show "fold replay (map (\<lambda>k. Request (token (client p)) (memberRequest owner rg k)) xs) c = c"
      by (induction xs) simp_all
  qed
  then show ?thesis by (simp add: memberRequests_def)
qed

lemma addRepoToGroup_eq:
  "addRepoToGroup repoID rg (c, tr)
     = (withRepo repoID rg, fold replay (repoEvents repoID rg) c, tr @ repoEvents repoID rg)"
  by (simp add: addRepoToGroup_def withRepo_def repoEvents_def needsRepo_def setGroup_def Let_def)

lemma fullSyncUsers_pages:
  assumes run: "fullSyncUsers p owner rg (acc, c, tr) = Some y"
  shows "\<exists>n\<ge>1. goesOn (memberPage p owner rg) n
           \<and> (snd (memberPage p owner rg n) = (False, None)
              \<or> snd (snd (memberPage p owner rg n)) \<noteq> None)"
proof -
  let ?list = "memberPage p owner rg"
  let ?Inv = "\<lambda>s :: repoAffiliatedGroup \<times> repoPerms \<times> trace.
                Team (embedded (fst s)) = Team (embedded rg) \<and> adminsOnly (fst s) = adminsOnly rg"
  from run obtain z where loop: "forPages (listUsersForGroup p c owner) 1 (rg, acc, tr) = Some z"
    by (auto simp: fullSyncUsers_def split: option.splits)
  have same: "\<And>grp k. Team (embedded grp) = Team (embedded rg) \<Longrightarrow> adminsOnly grp = adminsOnly rg \<Longrightarrow>
                memberPage p owner grp k = memberPage p owner rg k"
    by (simp add: memberPage_def)
  have "\<exists>n\<ge>1. (\<forall>k. 1 \<le> k \<and> k < n \<longrightarrow> snd (?list k) = (True, None))
           \<and> (snd (?list n) = (False, None) \<or> snd (snd (?list n)) \<noteq> None)"
  proof (rule forPages_run[OF loop, where Inv = ?Inv])
    show "?Inv (rg, acc, tr)" by simp
  next
    fix k s s' b
    assume i: "?Inv s" and st: "listUsersForGroup p c owner k s = Next (s', b)"
    obtain grp a t where s: "s = (grp, a, t)" by (cases s)
    obtain items hn er where pg: "?list k = (items, hn, er)" by (cases "?list k") auto
    from i s have "memberPage p owner grp k = ?list k" by (intro same) simp_all
    with st s pg show "?Inv s' \<and> snd (?list k) = (b, None)"
      using i by (auto simp: listUsersForGroup_eq split: option.splits)
  next
    fix k s r
    assume i: "?Inv s" and st: "listUsersForGroup p c owner k s = Return r"
    obtain grp a t where s: "s = (grp, a, t)" by (cases s)
    obtain items hn er where pg: "?list k = (items, hn, er)" by (cases "?list k") auto
    from i s have "memberPage p owner grp k = ?list k" by (intro same) simp_all
    with st s pg show "snd (snd (?list k)) \<noteq> None"
      by (auto simp: listUsersForGroup_eq split: option.splits)
  qed
  then show ?thesis by (simp add: goesOn_def)
qed

lemma syncRepoGroup_run:
  assumes run: "syncRepoGroup p owner repoID rg (acc, c, tr) = Some y"
  shows "\<exists>seg. (case y of
            Next (acc', c', tr') \<Rightarrow>
              repoGroupEvents p owner repoID rg seg \<and> tr' = tr @ seg \<and> c' = fold replay seg c
          | Return (ids, err, cfin, tr') \<Rightarrow>
              (\<exists>e. repoGroupFailure p owner repoID rg e seg \<and> err = Some (Wrap e ''list users for group''))
              \<and> tr' = tr @ seg \<and> cfin = Some (fold replay seg c))"
proof (cases "Users (embedded rg) \<noteq> []")
  case True
  with run have "y = Next (addUserToRepoPerms (Users (embedded rg)) acc,
                           fold replay (repoEvents repoID rg) c, tr @ repoEvents repoID rg)"
    by (simp add: syncRepoGroup_def addRepoToGroup_eq)
  with True show ?thesis
    by (intro exI[of _ "repoEvents repoID rg"]) (simp add: repoGroupEvents_def)
next
  case False
  let ?g1 = "withRepo repoID rg"
  let ?c1 = "fold replay (repoEvents repoID rg) c"
  let ?tr1 = "tr @ repoEvents repoID rg"
  let ?list = "memberPage p owner rg"
  from False run have full: "fullSyncUsers p owner ?g1 (acc, ?c1, ?tr1) = Some y"
    by (simp add: syncRepoGroup_def addRepoToGroup_eq)
  from fullSyncUsers_pages[OF full] obtain n where n: "1 \<le> n" and goes: "goesOn ?list n"
    and en: "snd (?list n) = (False, None) \<or> snd (snd (?list n)) \<noteq> None"
    by auto
  from en show ?thesis
  proof
    assume "snd (?list n) = (False, None)"
    then obtain items where last: "?list n = (items, False, None)" by (cases "?list n") auto
    let ?gf = "(embedded ?g1)\<lparr>Users := map accountIDOf (itemsBefore ?list (Suc n))\<rparr>"
    let ?seg = "repoEvents repoID rg @ memberRequests p owner rg n @ [SetGroup ?gf]"
    from fullSyncUsers_completes[of p owner ?g1 n items acc ?c1 ?tr1] goes n last full False
    have y: "y = Next (fold (\<lambda>u. addUserToRepoPerms [FormatInt (DatabaseID u)]) (itemsBefore ?list (Suc n)) acc,
                       ?c1(key (embedded rg) \<mapsto> ?gf), ?tr1 @ memberRequests p owner rg n @ [SetGroup ?gf])"
      by (simp add: memberRequests_def)
    have "repoGroupEvents p owner repoID rg ?seg"
      unfolding repoGroupEvents_def using False n goes last by (auto intro!: exI[of _ n])
    moreover have "fold replay ?seg c = ?c1(key (embedded rg) \<mapsto> ?gf)" by simp
    ultimately show ?thesis using y by (intro exI[of _ ?seg]) simp
  next
    assume "snd (snd (?list n)) \<noteq> None"
    then obtain items hn e where last: "?list n = (items, hn, Some e)" by (cases "?list n") auto
    let ?seg = "repoEvents repoID rg @ memberRequests p owner rg n"
    from fullSyncUsers_fails[of p owner ?g1 n items hn e acc ?c1 ?tr1] goes n last full
    have y: "y = Return (Some (fst (fold (\<lambda>u. addUserToRepoPerms [FormatInt (DatabaseID u)])
                                      (itemsBefore ?list n) acc)),
                         Some (Wrap e ''list users for group''), Some ?c1, ?tr1 @ memberRequests p owner rg n)"
      by (simp add: memberRequests_def)
    have "repoGroupFailure p owner repoID rg e ?seg"
      unfolding repoGroupFailure_def using False n goes last by (auto intro!: exI[of _ n])
    moreover have "fold replay ?seg c = ?c1" by simp
    ultimately show ?thesis using y by (intro exI[of _ ?seg]) simp
  qed
qed

lemma repo_groups_run:
  assumes run: "forRange (syncRepoGroup p owner repoID) groups (acc, c, tr) = Some z"
  shows "case z of
           Inl (acc', c', tr') \<Rightarrow>
             (\<exists>segs. list_all2 (repoGroupEvents p owner repoID) groups segs
                \<and> tr' = tr @ concat segs \<and> c' = fold replay (concat segs) c)
         | Inr (ids, err, cfin, tr') \<Rightarrow>
             (\<exists>before g rest segs seg e.
                groups = before @ g # rest
                \<and> list_all2 (repoGroupEvents p owner repoID) before segs
                \<and> repoGroupFailure p owner repoID g e seg
                \<and> err = Some (Wrap e ''list users for group'')
                \<and> tr' = tr @ concat segs @ seg \<and> cfin = Some (fold replay (concat segs @ seg) c))"
  using run
proof (induction groups arbitrary: acc c tr)
  case Nil
  then show ?case by auto
next
  case (Cons g groups)
  from Cons.prems obtain y where y: "syncRepoGroup p owner repoID g (acc, c, tr) = Some y"
    by (auto split: option.splits)
  from syncRepoGroup_run[OF y] obtain seg where seg:
    "case y of
       Next (acc', c', tr') \<Rightarrow>
         repoGroupEvents p owner repoID g seg \<and> tr' = tr @ seg \<and> c' = fold replay seg c
     | Return (ids, err, cfin, tr') \<Rightarrow>
         (\<exists>e. repoGroupFailure p owner repoID g e seg \<and> err = Some (Wrap e ''list users for group''))
         \<and> tr' = tr @ seg \<and> cfin = Some (fold replay seg c)"
    by blast
  show ?case
  proof (cases y)
    case (Return r)
    obtain ids err cfin tr' where r: "r = (ids, err, cfin, tr')" by (cases r)
    from Cons.prems y Return have z: "z = Inr r" by simp
    from seg Return r obtain e where f: "repoGroupFailure p owner repoID g e seg"
      and e: "err = Some (Wrap e ''list users for group'')"
      and t: "tr' = tr @ seg" and cf: "cfin = Some (fold replay seg c)"
      by auto
    have "\<exists>before g' rest segs seg' e'.
                g # groups = before @ g' # rest
                \<and> list_all2 (repoGroupEvents p owner repoID) before segs
                \<and> repoGroupFailure p owner repoID g' e' seg'
                \<and> err = Some (Wrap e' ''list users for group'')
                \<and> tr' = tr @ concat segs @ seg' \<and> cfin = Some (fold replay (concat segs @ seg') c)"
      apply (rule exI[of _ "[]"])
      apply (rule exI[of _ g])
      apply (rule exI[of _ groups])
      apply (rule exI[of _ "[]"])
      apply (rule exI[of _ seg])
      apply (rule exI[of _ e])
      using f e t cf apply simp
      done
    with z r show ?thesis by simp
  next
    case (Next s)
    obtain acc1 c1 tr1 where s: "s = (acc1, c1, tr1)" by (cases s)
    from seg Next s have ev: "repoGroupEvents p owner repoID g seg"
      and t1: "tr1 = tr @ seg" and c1: "c1 = fold replay seg c" by auto
    from Cons.prems y Next s have rest: "forRange (syncRepoGroup p owner repoID) groups (acc1, c1, tr1) = Some z"
      by simp
    note IH = Cons.IH[OF rest]
    show ?thesis
    proof (cases z)
      case (Inl s')
      obtain acc' c' tr' where s': "s' = (acc', c', tr')" by (cases s')
      from IH Inl s' obtain segs where a: "list_all2 (repoGroupEvents p owner repoID) groups segs"
        and t: "tr' = tr1 @ concat segs" and cc: "c' = fold replay (concat segs) c1" by auto
      have "\<exists>segs'. list_all2 (repoGroupEvents p owner repoID) (g # groups) segs'
                \<and> tr' = tr @ concat segs' \<and> c' = fold replay (concat segs') c"
        apply (rule exI[of _ "seg # segs"])
        using ev a t cc t1 c1 apply simp
        done
      with Inl s' show ?thesis by simp
    next
      case (Inr r)
      obtain ids err cfin tr' where r: "r = (ids, err, cfin, tr')" by (cases r)
      from IH Inr r obtain before g' rest' segs seg' e' where
        gs: "groups = before @ g' # rest'"
        and a: "list_all2 (repoGroupEvents p owner repoID) before segs"
        and f: "repoGroupFailure p owner repoID g' e' seg'"
        and e: "err = Some (Wrap e' ''list users for group'')"
        and t: "tr' = tr1 @ concat segs @ seg'"
        and cf: "cfin = Some (fold replay (concat segs @ seg') c1)"
        by auto
      have "\<exists>before g'' rest segs' seg'' e''.
                g # groups = before @ g'' # rest
                \<and> list_all2 (repoGroupEvents p owner repoID) before segs'
                \<and> repoGroupFailure p owner repoID g'' e'' seg''
                \<and> err = Some (Wrap e'' ''list users for group'')
                \<and> tr' = tr @ concat segs' @ seg'' \<and> cfin = Some (fold replay (concat segs' @ seg'') c)"
        apply (rule exI[of _ "g # before"])
        apply (rule exI[of _ g'])
        apply (rule exI[of _ rest'])
        apply (rule exI[of _ "seg # segs"])
        apply (rule exI[of _ seg'])
        apply (rule exI[of _ e'])
        using gs a f e t cf ev t1 c1 apply simp
        done
      with Inr r show ?thesis by simp
    qed
  qed
qed

lemma syncRepoGroup_completes:
  assumes ok: "repoPermsOK acc"
    and h: "Users (embedded rg) \<noteq> [] \<or> endsWell (memberPage p owner rg)"
  shows "\<exists>acc' c' tr'. syncRepoGroup p owner repoID rg (acc, c, tr) = Some (Next (acc', c', tr'))
           \<and> repoPermsOK acc' \<and> snd acc' = snd acc \<union> groupUsers p owner rg"
proof (cases "Users (embedded rg) \<noteq> []")
  case True
  then have "syncRepoGroup p owner repoID rg (acc, c, tr)
               = Some (Next (addUserToRepoPerms (Users (embedded rg)) acc,
                           fold replay (repoEvents repoID rg) c, tr @ repoEvents repoID rg))"
    by (simp add: syncRepoGroup_def addRepoToGroup_eq)
  with addUserToRepoPerms_ok[OF ok, of "Users (embedded rg)"] True show ?thesis
    by (simp add: groupUsers_def)
next
  case False
  let ?g1 = "withRepo repoID rg"
  let ?c1 = "fold replay (repoEvents repoID rg) c"
  let ?tr1 = "tr @ repoEvents repoID rg"
  let ?list = "memberPage p owner rg"
  from False h obtain n where n: "1 \<le> n" and goes: "goesOn ?list n" and e: "snd (?list n) = (False, None)"
    by (auto simp: endsWell_def)
  from e obtain items where last: "?list n = (items, False, None)" by (cases "?list n") auto
  from False have "syncRepoGroup p owner repoID rg (acc, c, tr) = fullSyncUsers p owner ?g1 (acc, ?c1, ?tr1)"
    by (simp add: syncRepoGroup_def addRepoToGroup_eq)
  also from fullSyncUsers_completes[of p owner ?g1 n items acc ?c1 ?tr1] goes n last
  have "\<dots> = Some (Next (fold (\<lambda>u. addUserToRepoPerms [FormatInt (DatabaseID u)]) (itemsBefore ?list (Suc n)) acc,
                       ?c1(key (embedded rg) \<mapsto> (embedded ?g1)
                           \<lparr>Users := Users (embedded rg) @ map accountIDOf (itemsBefore ?list (Suc n))\<rparr>),
                       ?tr1 @ map (\<lambda>k. Request (token (client p)) (memberRequest owner rg k)) [1..<Suc n]
                          @ [SetGroup ((embedded ?g1)
                           \<lparr>Users := Users (embedded rg) @ map accountIDOf (itemsBefore ?list (Suc n))\<rparr>)]))"
    by simp
  finally have run: "\<exists>c' tr'. syncRepoGroup p owner repoID rg (acc, c, tr)
     = Some (Next (fold (\<lambda>u. addUserToRepoPerms [FormatInt (DatabaseID u)]) (itemsBefore ?list (Suc n)) acc,
                   c', tr'))"
    by blast
  from fold_addUserToRepoPerms_ok[OF ok, of "itemsBefore ?list (Suc n)"] listed_complete[OF goes n e] False
  have "repoPermsOK (fold (\<lambda>u. addUserToRepoPerms [FormatInt (DatabaseID u)]) (itemsBefore ?list (Suc n)) acc)"
    and "snd (fold (\<lambda>u. addUserToRepoPerms [FormatInt (DatabaseID u)]) (itemsBefore ?list (Suc n)) acc)
           = snd acc \<union> groupUsers p owner rg"
    by (simp_all add: groupUsers_def)
  with run show ?thesis by blast
qed

lemma syncRepoGroup_fails:
  assumes ok: "repoPermsOK acc" and empty: "Users (embedded rg) = []"
    and n: "1 \<le> n" and goes: "goesOn (memberPage p owner rg) n"
    and last: "memberPage p owner rg n = (items, hn, Some e)"
  shows "\<exists>ids c' tr'. syncRepoGroup p owner repoID rg (acc, c, tr)
             = Some (Return (Some ids, Some (Wrap e ''list users for group''), Some c', tr'))
           \<and> distinct ids
           \<and> set ids = snd acc \<union> accountIDOf ` set (itemsBefore (memberPage p owner rg) n)"
proof -
  let ?g1 = "withRepo repoID rg"
  let ?c1 = "fold replay (repoEvents repoID rg) c"
  let ?tr1 = "tr @ repoEvents repoID rg"
  let ?list = "memberPage p owner rg"
  from empty have "syncRepoGroup p owner repoID rg (acc, c, tr) = fullSyncUsers p owner ?g1 (acc, ?c1, ?tr1)"
    by (simp add: syncRepoGroup_def addRepoToGroup_eq)
  also from fullSyncUsers_fails[of p owner ?g1 n items hn e acc ?c1 ?tr1] goes n last
  have "\<dots> = Some (Return (Some (fst (fold (\<lambda>u. addUserToRepoPerms [FormatInt (DatabaseID u)])
                                          (itemsBefore ?list n) acc)),
                         Some (Wrap e ''list users for group''), Some ?c1,
                         ?tr1 @ map (\<lambda>k. Request (token (client p)) (memberRequest owner rg k)) [1..<Suc n]))"
    by simp
  finally have run: "syncRepoGroup p owner repoID rg (acc, c, tr)
     = Some (Return (Some (fst (fold (\<lambda>u. addUserToRepoPerms [FormatInt (DatabaseID u)])
                                          (itemsBefore ?list n) acc)),
                         Some (Wrap e ''list users for group''), Some ?c1,
                         ?tr1 @ map (\<lambda>k. Request (token (client p)) (memberRequest owner rg k)) [1..<Suc n]))" .
  from fold_addUser_result[OF ok, of "itemsBefore ?list n"]
  have "distinct (fst (fold (\<lambda>u. addUserToRepoPerms [FormatInt (DatabaseID u)]) (itemsBefore ?list n) acc))"
    and "set (fst (fold (\<lambda>u. addUserToRepoPerms [FormatInt (DatabaseID u)]) (itemsBefore ?list n) acc))
           = snd acc \<union> accountIDOf ` set (itemsBefore ?list n)"
    by simp_all
  with run show ?thesis by blast
qed

lemma repo_groups_complete:
  assumes ok: "repoPermsOK acc"
    and h: "\<forall>g \<in> set groups. Users (embedded g) \<noteq> [] \<or> endsWell (memberPage p owner g)"
  shows "\<exists>acc' c' tr'. forRange (syncRepoGroup p owner repoID) groups (acc, c, tr) = Some (Inl (acc', c', tr'))
           \<and> repoPermsOK acc' \<and> snd acc' = snd acc \<union> (\<Union>g \<in> set groups. groupUsers p owner g)"
  using ok h
proof (induction groups arbitrary: acc c tr)
  case Nil
  then show ?case by simp
next
  case (Cons g groups)
  from Cons.prems(2) have hg: "Users (embedded g) \<noteq> [] \<or> endsWell (memberPage p owner g)" by simp
  from syncRepoGroup_completes[OF Cons.prems(1) hg, of repoID c tr]
  obtain acc1 c1 tr1 where s: "syncRepoGroup p owner repoID g (acc, c, tr) = Some (Next (acc1, c1, tr1))"
    and ok1: "repoPermsOK acc1" and s1: "snd acc1 = snd acc \<union> groupUsers p owner g" by blast
  from Cons.prems(2) have h': "\<forall>g \<in> set groups. Users (embedded g) \<noteq> [] \<or> endsWell (memberPage p owner g)"
    by simp
  from Cons.IH[OF ok1 h', of c1 tr1]
  obtain acc' c' tr' where r: "forRange (syncRepoGroup p owner repoID) groups (acc1, c1, tr1) = Some (Inl (acc', c', tr'))"
    and ok': "repoPermsOK acc'" and s': "snd acc' = snd acc1 \<union> (\<Union>g \<in> set groups. groupUsers p owner g)"
    by blast
  from s r have "forRange (syncRepoGroup p owner repoID) (g # groups) (acc, c, tr) = Some (Inl (acc', c', tr'))"
    by simp
  moreover from s1 s' have "snd acc' = snd acc \<union> (\<Union>g \<in> set (g # groups). groupUsers p owner g)"
    by auto
  ultimately show ?case using ok' by blast
qed

lemma repo_groups_fail:
  assumes ok: "repoPermsOK acc"
    and h: "\<forall>g \<in> set before. Users (embedded g) \<noteq> [] \<or> endsWell (memberPage p owner g)"
    and empty: "Users (embedded rg) = []"
    and n: "1 \<le> n" and goes: "goesOn (memberPage p owner rg) n"
    and last: "memberPage p owner rg n = (items, hn, Some e)"
  shows "\<exists>ids c' tr'. forRange (syncRepoGroup p owner repoID) (before @ rg # rest) (acc, c, tr)
             = Some (Inr (Some ids, Some (Wrap e ''list users for group''), Some c', tr'))
           \<and> distinct ids
           \<and> set ids = snd acc \<union> (\<Union>g \<in> set before. groupUsers p owner g)
                 \<union> accountIDOf ` set (itemsBefore (memberPage p owner rg) n)"
proof -
  from repo_groups_complete[OF ok h, of repoID c tr]
  obtain acc1 c1 tr1 where r: "forRange (syncRepoGroup p owner repoID) before (acc, c, tr) = Some (Inl (acc1, c1, tr1))"
    and ok1: "repoPermsOK acc1" and s1: "snd acc1 = snd acc \<union> (\<Union>g \<in> set before. groupUsers p owner g)"
    by blast
  from syncRepoGroup_fails[OF ok1 empty n goes last, of repoID c1 tr1]
  obtain ids c' tr' where f: "syncRepoGroup p owner repoID rg (acc1, c1, tr1)
             = Some (Return (Some ids, Some (Wrap e ''list users for group''), Some c', tr'))"
    and d: "distinct ids"
    and s: "set ids = snd acc1 \<union> accountIDOf ` set (itemsBefore (memberPage p owner rg) n)"
    by blast
  from r f have "forRange (syncRepoGroup p owner repoID) (before @ rg # rest) (acc, c, tr)
             = Some (Inr (Some ids, Some (Wrap e ''list users for group''), Some c', tr'))"
    by (simp add: forRange_append)
  with d s s1 show ?thesis by blast
qed

subsection \<open>A fetch up to its group loop\<close>

lemma FetchUserPerms_groups:
  assumes va: "IsHostOfAccount (codeHost p) a"
    and vt: "GetExternalAccountData (AccountData a) = (Some t, None)"
    and cache: "groupsCache p = Some c"
    and m: "1 \<le> m"
    and goes: "goesOn (directPage (codeHostAPI (client p)) (AccessToken t) (affiliationsOf p)) m"
    and last: "snd (directPage (codeHostAPI (client p)) (AccessToken t) (affiliationsOf p) m) = (False, None)"
    and disc: "getUserAffiliatedGroups c (WithToken (client p) (AccessToken t)) opts
                 (tr @ map (directRequest (AccessToken t) (affiliationsOf p)) [1..<Suc m])
               = Some (groups, None, c1, tr2)"
  shows "FetchUserPerms p (Some a) opts tr =
           (case forRange (syncUserGroup p (AccountID (AccountSpec a))) groups
                   (fold (\<lambda>r. addRepoToUserPerms [ID r])
                      (itemsBefore (directPage (codeHostAPI (client p)) (AccessToken t) (affiliationsOf p)) (Suc m))
                      (\<lparr>Exacts = []\<rparr>, {}), c1, tr2) of
              None \<Rightarrow> None
            | Some (Inr (perms, r)) \<Rightarrow> Some (Some perms, r)
            | Some (Inl (acc, c', tr')) \<Rightarrow> Some (Some (fst acc), None, Some c', tr'))"
proof -
  let ?cl = "WithToken (client p) (AccessToken t)"
  let ?list = "directPage (codeHostAPI (client p)) (AccessToken t) (affiliationsOf p)"
  let ?acc = "fold (\<lambda>r. addRepoToUserPerms [ID r]) (itemsBefore ?list (Suc m)) (\<lparr>Exacts = []\<rparr>, {})"
  let ?tr1 = "tr @ map (directRequest (AccessToken t) (affiliationsOf p)) [1..<Suc m]"
  from last obtain items where l: "?list m = (items, False, None)" by (cases "?list m") auto
  have run: "forPages (listReposForUser p ?cl (affiliationsOf p)) 1 ((\<lparr>Exacts = []\<rparr>, {}), tr)
         = Some (Inl (?acc, ?tr1))"
    using direct_phase_completes[of ?cl "affiliationsOf p" m items p "(\<lparr>Exacts = []\<rparr>, {})" tr] goes m l
    by simp
  have "fetchUserPermsByToken p (AccountID (AccountSpec a)) (AccessToken t) opts tr
          = (case forRange (syncUserGroup p (AccountID (AccountSpec a))) groups (?acc, c1, tr2) of
              None \<Rightarrow> None
            | Some (Inr r) \<Rightarrow> Some r
            | Some (Inl (acc, c', tr')) \<Rightarrow> Some (fst acc, None, Some c', tr'))"
    unfolding fetchUserPermsByToken_unfold run using cache disc by simp
  then show ?thesis
    using va vt by (auto simp: FetchUserPerms_valid[of p a t] split: option.splits sum.splits)
qed

lemma FetchRepoPerms_groups:
  assumes vr: "IsHostOfRepo (codeHost p) (ExternalRepoSpec r)"
    and nwo: "nameWithOwner p r = Inr (owner, name)"
    and cache: "groupsCache p = Some c"
    and m: "1 \<le> m"
    and goes: "goesOn (collaboratorPage (codeHostAPI (client p)) (token (client p)) owner name
                         (collaboratorAffiliationOf p)) m"
    and last: "snd (collaboratorPage (codeHostAPI (client p)) (token (client p)) owner name
                      (collaboratorAffiliationOf p) m) = (False, None)"
    and disc: "getRepoAffiliatedGroups p c owner name opts
                 (tr @ map (collaboratorRequest (token (client p)) owner name (collaboratorAffiliationOf p))
                        [1..<Suc m])
               = Some (groups, None, c1, tr2)"
  shows "FetchRepoPerms p (Some r) opts tr =
           (case forRange (syncRepoGroup p owner (RepoSpecID (ExternalRepoSpec r))) groups
                   (fold (\<lambda>u. addUserToRepoPerms [FormatInt (DatabaseID u)])
                      (itemsBefore (collaboratorPage (codeHostAPI (client p)) (token (client p)) owner name
                                      (collaboratorAffiliationOf p)) (Suc m))
                      ([], {}), c1, tr2) of
              None \<Rightarrow> None
            | Some (Inr res) \<Rightarrow> Some res
            | Some (Inl (acc, c', tr')) \<Rightarrow> Some (Some (fst acc), None, Some c', tr'))"
proof -
  let ?aff = "collaboratorAffiliationOf p"
  let ?list = "collaboratorPage (codeHostAPI (client p)) (token (client p)) owner name ?aff"
  let ?acc = "fold (\<lambda>u. addUserToRepoPerms [FormatInt (DatabaseID u)]) (itemsBefore ?list (Suc m)) ([], {})"
  let ?tr1 = "tr @ map (collaboratorRequest (token (client p)) owner name ?aff) [1..<Suc m]"
  from last obtain items where l: "?list m = (items, False, None)" by (cases "?list m") auto
  have run: "forPages (listUsersForRepo p owner name ?aff) 1 (([], {}), tr) = Some (Inl (?acc, ?tr1))"
    using collaborators_phase_completes[of p owner name ?aff m items "([], {})" tr] goes m l by simp
  show ?thesis
    unfolding FetchRepoPerms_valid[OF vr nwo] collaboratorAffiliationOf_def[symmetric] run
    using cache disc by simp
qed



lemma SetGroup_notin_repositoryRequests [simp]: "SetGroup g' \<notin> set (repositoryRequests p g n)"
  by (auto simp: repositoryRequests_def)

lemma SetGroup_notin_memberRequests [simp]: "SetGroup g' \<notin> set (memberRequests p owner rg n)"
  by (auto simp: memberRequests_def)







text \<open>The run of the group loop of a fetch, read off its result.\<close>

lemma user_fetch_run:
  assumes va: "IsHostOfAccount (codeHost p) a"
    and vt: "GetExternalAccountData (AccountData a) = (Some t, None)"
    and cache: "groupsCache p = Some c"
    and m: "1 \<le> m"
    and goes: "goesOn (directPage (codeHostAPI (client p)) (AccessToken t) (affiliationsOf p)) m"
    and last: "snd (directPage (codeHostAPI (client p)) (AccessToken t) (affiliationsOf p) m) = (False, None)"
    and disc: "getUserAffiliatedGroups c (WithToken (client p) (AccessToken t)) opts
                 (tr @ map (directRequest (AccessToken t) (affiliationsOf p)) [1..<Suc m])
               = Some (groups, None, c1, tr2)"
    and run: "FetchUserPerms p (Some a) opts tr = Some (Some perms, err, cfin, tr')"
  shows "case err of
           None \<Rightarrow>
             (\<exists>segs. list_all2 (userGroupEvents p (AccountID (AccountSpec a))) groups segs
                \<and> tr' = tr2 @ concat segs \<and> cfin = Some (fold replay (concat segs) c1))
         | Some e' \<Rightarrow>
             (\<exists>before g rest segs seg e.
                groups = before @ g # rest
                \<and> list_all2 (userGroupEvents p (AccountID (AccountSpec a))) before segs
                \<and> userGroupFailure p (AccountID (AccountSpec a)) g e seg
                \<and> e' = Wrap e ''list repos for group''
                \<and> tr' = tr2 @ concat segs @ seg \<and> cfin = Some (fold replay (concat segs @ seg) c1))"
proof -
  let ?acc = "fold (\<lambda>r. addRepoToUserPerms [ID r])
                (itemsBefore (directPage (codeHostAPI (client p)) (AccessToken t) (affiliationsOf p)) (Suc m))
                (\<lparr>Exacts = []\<rparr>, {})"
  note unf = FetchUserPerms_groups[OF va vt cache m goes last disc]
  from run unf obtain z where z: "forRange (syncUserGroup p (AccountID (AccountSpec a))) groups (?acc, c1, tr2) = Some z"
    by (auto split: option.splits)
  note G = user_groups_run[OF z]
  show ?thesis
  proof (cases z)
    case (Inl s)
    obtain acc' c' t' where s: "s = (acc', c', t')" by (cases s)
    from run unf z Inl s have "err = None" "cfin = Some c'" "tr' = t'" by simp_all
    with G Inl s show ?thesis by simp
  next
    case (Inr r)
    obtain perms' err' cfin' t' where r: "r = (perms', err', cfin', t')" by (cases r)
    from run unf z Inr r have e: "err = err'" "cfin = cfin'" "tr' = t'" by simp_all
    from G Inr r obtain before g rest segs seg e0 where
      "groups = before @ g # rest"
      "list_all2 (userGroupEvents p (AccountID (AccountSpec a))) before segs"
      "userGroupFailure p (AccountID (AccountSpec a)) g e0 seg"
      "err' = Some (Wrap e0 ''list repos for group'')"
      "t' = tr2 @ concat segs @ seg" "cfin' = Some (fold replay (concat segs @ seg) c1)"
      by auto
    with e show ?thesis by auto
  qed
qed

lemma repo_fetch_run:
  assumes vr: "IsHostOfRepo (codeHost p) (ExternalRepoSpec r)"
    and nwo: "nameWithOwner p r = Inr (owner, name)"
    and cache: "groupsCache p = Some c"
    and m: "1 \<le> m"
    and goes: "goesOn (collaboratorPage (codeHostAPI (client p)) (token (client p)) owner name
                         (collaboratorAffiliationOf p)) m"
    and last: "snd (collaboratorPage (codeHostAPI (client p)) (token (client p)) owner name
                      (collaboratorAffiliationOf p) m) = (False, None)"
    and disc: "getRepoAffiliatedGroups p c owner name opts
                 (tr @ map (collaboratorRequest (token (client p)) owner name (collaboratorAffiliationOf p))
                        [1..<Suc m])
               = Some (groups, None, c1, tr2)"
    and run: "FetchRepoPerms p (Some r) opts tr = Some (Some ids, err, cfin, tr')"
  shows "case err of
           None \<Rightarrow>
             (\<exists>segs. list_all2 (repoGroupEvents p owner (RepoSpecID (ExternalRepoSpec r))) groups segs
                \<and> tr' = tr2 @ concat segs \<and> cfin = Some (fold replay (concat segs) c1))
         | Some e' \<Rightarrow>
             (\<exists>before g rest segs seg e.
                groups = before @ g # rest
                \<and> list_all2 (repoGroupEvents p owner (RepoSpecID (ExternalRepoSpec r))) before segs
                \<and> repoGroupFailure p owner (RepoSpecID (ExternalRepoSpec r)) g e seg
                \<and> e' = Wrap e ''list users for group''
                \<and> tr' = tr2 @ concat segs @ seg \<and> cfin = Some (fold replay (concat segs @ seg) c1))"
proof -
  let ?acc = "fold (\<lambda>u. addUserToRepoPerms [FormatInt (DatabaseID u)])
                (itemsBefore (collaboratorPage (codeHostAPI (client p)) (token (client p)) owner name
                                (collaboratorAffiliationOf p)) (Suc m))
                ([], {})"
  note unf = FetchRepoPerms_groups[OF vr nwo cache m goes last disc]
  from run unf obtain z where z: "forRange (syncRepoGroup p owner (RepoSpecID (ExternalRepoSpec r))) groups (?acc, c1, tr2) = Some z"
    by (auto split: option.splits)
  note G = repo_groups_run[OF z]
  show ?thesis
  proof (cases z)
    case (Inl s)
    obtain acc' c' t' where s: "s = (acc', c', t')" by (cases s)
    from run unf z Inl s have "err = None" "cfin = Some c'" "tr' = t'" by simp_all
    with G Inl s show ?thesis by simp
  next
    case (Inr res)
    obtain ids' err' cfin' t' where r: "res = (ids', err', cfin', t')" by (cases res)
    from run unf z Inr r have e: "err = err'" "cfin = cfin'" "tr' = t'" by simp_all
    from G Inr r obtain before g rest segs seg e0 where
      "groups = before @ g # rest"
      "list_all2 (repoGroupEvents p owner (RepoSpecID (ExternalRepoSpec r))) before segs"
      "repoGroupFailure p owner (RepoSpecID (ExternalRepoSpec r)) g e0 seg"
      "err' = Some (Wrap e0 ''list users for group'')"
      "t' = tr2 @ concat segs @ seg" "cfin' = Some (fold replay (concat segs @ seg) c1)"
      by auto
    with e show ?thesis by auto
  qed
qed

subsection \<open>Group discovery makes no cache write\<close>

lemma onlyInvalidates_refl: "onlyInvalidates c tr c tr"
  by (simp add: onlyInvalidates_def)

lemma onlyInvalidates_request:
  "onlyInvalidates c0 tr0 c tr \<Longrightarrow> onlyInvalidates c0 tr0 c (tr @ [Request tok rq])"
  unfolding onlyInvalidates_def
proof -
  assume "\<exists>new. tr = tr0 @ new \<and> c = fold replay new c0 \<and> (\<forall>g. SetGroup g \<notin> set new)"
  then obtain new where n: "tr = tr0 @ new" "c = fold replay new c0" "\<forall>g. SetGroup g \<notin> set new" by blast
  show "\<exists>new. tr @ [Request tok rq] = tr0 @ new \<and> c = fold replay new c0 \<and> (\<forall>g. SetGroup g \<notin> set new)"
    by (rule exI[of _ "new @ [Request tok rq]"]) (use n in simp)
qed

lemma onlyInvalidates_invalidate:
  "onlyInvalidates c0 tr0 c tr \<Longrightarrow> onlyInvalidates c0 tr0 (c(key g := None)) (tr @ [InvalidateGroup g])"
  unfolding onlyInvalidates_def
proof -
  assume "\<exists>new. tr = tr0 @ new \<and> c = fold replay new c0 \<and> (\<forall>g. SetGroup g \<notin> set new)"
  then obtain new where n: "tr = tr0 @ new" "c = fold replay new c0" "\<forall>g. SetGroup g \<notin> set new" by blast
  show "\<exists>new. tr @ [InvalidateGroup g] = tr0 @ new \<and> c(key g := None) = fold replay new c0
          \<and> (\<forall>g. SetGroup g \<notin> set new)"
    by (rule exI[of _ "new @ [InvalidateGroup g]"]) (use n in simp)
qed

lemma userSyncGroup_onlyInvalidates:
  assumes "onlyInvalidates c0 tr0 (fst (snd (snd s))) (snd (snd (snd s)))"
  shows "onlyInvalidates c0 tr0 (fst (snd (snd (userSyncGroup opts org team s))))
           (snd (snd (snd (userSyncGroup opts org team s))))"
proof -
  obtain groups seen c tr where s: "s = (groups, seen, c, tr)" by (cases s)
  obtain g ex where gg: "getGroup c org team = (g, ex)" by (cases "getGroup c org team")
  from assms s have oi: "onlyInvalidates c0 tr0 c tr" by simp
  show ?thesis
  proof (cases "team \<noteq> [] \<and> team \<in> seen")
    case True
    with s oi show ?thesis by (simp add: userSyncGroup_def)
  next
    case False
    show ?thesis
    proof (cases "ex \<and> InvalidateCaches opts")
      case True
      with False s gg have "userSyncGroup opts org team s
              = (groups @ [g\<lparr>Repositories := [], Users := []\<rparr>],
                 insert (key (g\<lparr>Repositories := [], Users := []\<rparr>)) seen,
                 c(key g := None), tr @ [InvalidateGroup g])"
        by (simp add: userSyncGroup_def invalidateGroup_def)
      with onlyInvalidates_invalidate[OF oi, of g] show ?thesis by simp
    next
      case False
      with \<open>\<not> (team \<noteq> [] \<and> team \<in> seen)\<close> s gg
      have "userSyncGroup opts org team s = (groups @ [g], insert (key g) seen, c, tr)"
        by (auto simp: userSyncGroup_def)
      with oi show ?thesis by simp
    qed
  qed
qed

lemma fold_onlyInvalidates:
  assumes step: "\<And>x s. x \<in> set xs \<Longrightarrow> onlyInvalidates c0 tr0 (fst (snd (snd s))) (snd (snd (snd s)))
                   \<Longrightarrow> onlyInvalidates c0 tr0 (fst (snd (snd (f x s)))) (snd (snd (snd (f x s))))"
    and init: "onlyInvalidates c0 tr0 (fst (snd (snd s))) (snd (snd (snd s)))"
  shows "onlyInvalidates c0 tr0 (fst (snd (snd (fold f xs s)))) (snd (snd (snd (fold f xs s))))"
  using step init
proof (induction xs arbitrary: s)
  case Nil
  then show ?case by simp
next
  case (Cons x xs)
  have "onlyInvalidates c0 tr0 (fst (snd (snd (f x s)))) (snd (snd (snd (f x s))))"
    by (rule Cons.prems(1)) (simp_all add: Cons.prems(2))
  then have "onlyInvalidates c0 tr0 (fst (snd (snd (fold f xs (f x s))))) (snd (snd (snd (fold f xs (f x s)))))"
    by (intro Cons.IH) (simp_all add: Cons.prems(1))
  then show ?case by simp
qed

lemma listOrgsForUser_onlyInvalidates:
  assumes "onlyInvalidates c0 tr0 (fst (snd (snd s))) (snd (snd (snd s)))"
  shows "case listOrgsForUser cl opts k s of
           Next (s', b) \<Rightarrow> onlyInvalidates c0 tr0 (fst (snd (snd s'))) (snd (snd (snd s')))
         | Return r \<Rightarrow> onlyInvalidates c0 tr0 (fst (snd (snd r))) (snd (snd (snd r)))"
proof -
  obtain groups seen c tr where s: "s = (groups, seen, c, tr)" by (cases s)
  obtain orgs hn er where pg: "userOrgsDetailsAndMembership (codeHostAPI cl) (token cl) k = (orgs, hn, er)"
    by (cases "userOrgsDetailsAndMembership (codeHostAPI cl) (token cl) k") auto
  let ?tr = "tr @ [Request (token cl) (ReqGetAuthenticatedUserOrgsDetailsAndMembership k)]"
  from assms s have oi: "onlyInvalidates c0 tr0 c ?tr" by (simp add: onlyInvalidates_request)
  show ?thesis
  proof (cases er)
    case (Some e)
    with s pg oi show ?thesis
      by (simp add: listOrgsForUser_def GetAuthenticatedUserOrgsDetailsAndMembership_def)
  next
    case None
    let ?f = "\<lambda>org st. if canViewOrgRepos org
                         then (case OrgDetails org of
                                 Some d \<Rightarrow> userSyncGroup opts (Login d) [] st
                               | None \<Rightarrow> st)
                         else st"
    have "onlyInvalidates c0 tr0 (fst (snd (snd (fold ?f orgs (groups, seen, c, ?tr)))))
            (snd (snd (snd (fold ?f orgs (groups, seen, c, ?tr)))))"
    proof (rule fold_onlyInvalidates)
      show "onlyInvalidates c0 tr0 (fst (snd (snd (groups, seen, c, ?tr)))) (snd (snd (snd (groups, seen, c, ?tr))))"
        using oi by simp
    next
      fix x and st :: userGroups
      assume "onlyInvalidates c0 tr0 (fst (snd (snd st))) (snd (snd (snd st)))"
      then show "onlyInvalidates c0 tr0 (fst (snd (snd (?f x st)))) (snd (snd (snd (?f x st))))"
        by (auto simp: userSyncGroup_onlyInvalidates split: option.splits)
    qed
    with None s pg show ?thesis
      by (simp add: listOrgsForUser_def GetAuthenticatedUserOrgsDetailsAndMembership_def)
  qed
qed

lemma listTeamsForUser_onlyInvalidates:
  assumes "onlyInvalidates c0 tr0 (fst (snd (snd s))) (snd (snd (snd s)))"
  shows "case listTeamsForUser cl opts k s of
           Next (s', b) \<Rightarrow> onlyInvalidates c0 tr0 (fst (snd (snd s'))) (snd (snd (snd s')))
         | Return r \<Rightarrow> onlyInvalidates c0 tr0 (fst (snd (snd r))) (snd (snd (snd r)))"
proof -
  obtain groups seen c tr where s: "s = (groups, seen, c, tr)" by (cases s)
  obtain teams hn er where pg: "userTeams (codeHostAPI cl) (token cl) k = (teams, hn, er)"
    by (cases "userTeams (codeHostAPI cl) (token cl) k") auto
  let ?tr = "tr @ [Request (token cl) (ReqGetAuthenticatedUserTeams k)]"
  from assms s have oi: "onlyInvalidates c0 tr0 c ?tr" by (simp add: onlyInvalidates_request)
  show ?thesis
  proof (cases er)
    case (Some e)
    with s pg oi show ?thesis
      by (simp add: listTeamsForUser_def GetAuthenticatedUserTeams_def)
  next
    case None
    let ?f = "\<lambda>team st. case Organization team of
                           Some parent \<Rightarrow>
                             if ReposCount team > 0
                             then userSyncGroup opts (Login parent) (Slug team) st
                             else st
                         | None \<Rightarrow> st"
    have "onlyInvalidates c0 tr0 (fst (snd (snd (fold ?f teams (groups, seen, c, ?tr)))))
            (snd (snd (snd (fold ?f teams (groups, seen, c, ?tr)))))"
    proof (rule fold_onlyInvalidates)
      show "onlyInvalidates c0 tr0 (fst (snd (snd (groups, seen, c, ?tr)))) (snd (snd (snd (groups, seen, c, ?tr))))"
        using oi by simp
    next
      fix x and st :: userGroups
      assume "onlyInvalidates c0 tr0 (fst (snd (snd st))) (snd (snd (snd st)))"
      then show "onlyInvalidates c0 tr0 (fst (snd (snd (?f x st)))) (snd (snd (snd (?f x st))))"
        by (auto simp: userSyncGroup_onlyInvalidates split: option.splits)
    qed
    with None s pg show ?thesis
      by (simp add: listTeamsForUser_def GetAuthenticatedUserTeams_def)
  qed
qed

lemma getUserAffiliatedGroups_onlyInvalidates:
  assumes run: "getUserAffiliatedGroups c cl opts tr = Some (groups, err, c1, tr1)"
  shows "onlyInvalidates c tr c1 tr1"
proof -
  let ?I = "\<lambda>s :: userGroups. onlyInvalidates c tr (fst (snd (snd s))) (snd (snd (snd s)))"
  let ?Q = "\<lambda>r :: userGroupsResult. onlyInvalidates c tr (fst (snd (snd r))) (snd (snd (snd r)))"
  from run obtain y where r1: "forPages (listOrgsForUser cl opts) 1 ([], {}, c, tr) = Some y"
    by (auto simp: getUserAffiliatedGroups_def split: option.splits)
  have p1: "case y of Inl s' \<Rightarrow> ?I s' | Inr r \<Rightarrow> ?Q r"
  proof (rule forPages_inv[OF r1, where I = ?I and Q = ?Q])
    show "?I ([], {}, c, tr)" by (simp add: onlyInvalidates_refl)
  next
    fix k s s' b assume "?I s" "listOrgsForUser cl opts k s = Next (s', b)"
    with listOrgsForUser_onlyInvalidates[of c tr s cl opts k] show "?I s'" by simp
  next
    fix k s r assume "?I s" "listOrgsForUser cl opts k s = Return r"
    with listOrgsForUser_onlyInvalidates[of c tr s cl opts k] show "?Q r" by simp
  qed
  show ?thesis
  proof (cases y)
    case (Inr r)
    with run r1 have "r = (groups, err, c1, tr1)" by (simp add: getUserAffiliatedGroups_def)
    with p1 Inr show ?thesis by simp
  next
    case (Inl st)
    with run r1 obtain z where r2: "forPages (listTeamsForUser cl opts) 1 st = Some z"
      by (auto simp: getUserAffiliatedGroups_def split: option.splits)
    from p1 Inl have i: "?I st" by simp
    have p2: "case z of Inl s' \<Rightarrow> ?I s' | Inr r \<Rightarrow> ?Q r"
    proof (rule forPages_inv[OF r2, where I = ?I and Q = ?Q])
      show "?I st" by (rule i)
    next
      fix k s s' b assume "?I s" "listTeamsForUser cl opts k s = Next (s', b)"
      with listTeamsForUser_onlyInvalidates[of c tr s cl opts k] show "?I s'" by simp
    next
      fix k s r assume "?I s" "listTeamsForUser cl opts k s = Return r"
      with listTeamsForUser_onlyInvalidates[of c tr s cl opts k] show "?Q r" by simp
    qed
    show ?thesis
    proof (cases z)
      case (Inr r)
      with run r1 r2 Inl have "r = (groups, err, c1, tr1)" by (simp add: getUserAffiliatedGroups_def)
      with p2 Inr show ?thesis by simp
    next
      case (Inl s')
      obtain g' sn' c' t' where s': "s' = (g', sn', c', t')" by (cases s')
      with run r1 r2 \<open>y = Inl st\<close> Inl have "c1 = c'" "tr1 = t'" by (simp_all add: getUserAffiliatedGroups_def)
      with p2 Inl s' show ?thesis by simp
    qed
  qed
qed

lemma repoSyncGroup_onlyInvalidates:
  assumes "onlyInvalidates c0 tr0 (fst (snd s)) (snd (snd s))"
  shows "onlyInvalidates c0 tr0 (fst (snd (repoSyncGroup opts owner team admins s)))
           (snd (snd (repoSyncGroup opts owner team admins s)))"
proof -
  obtain groups c tr where s: "s = (groups, c, tr)" by (cases s)
  obtain g ex where gg: "getGroup c owner team = (g, ex)" by (cases "getGroup c owner team")
  from assms s have oi: "onlyInvalidates c0 tr0 c tr" by simp
  show ?thesis
  proof (cases "ex \<and> InvalidateCaches opts")
    case True
    with s gg have "repoSyncGroup opts owner team admins s
            = (groups @ [\<lparr>embedded = g\<lparr>Repositories := [], Users := []\<rparr>, adminsOnly = admins\<rparr>],
               c(key g := None), tr @ [InvalidateGroup g])"
      by (simp add: repoSyncGroup_def invalidateGroup_def)
    with onlyInvalidates_invalidate[OF oi, of g] show ?thesis by simp
  next
    case False
    with s gg have "repoSyncGroup opts owner team admins s
            = (groups @ [\<lparr>embedded = g, adminsOnly = admins\<rparr>], c, tr)"
      by (auto simp: repoSyncGroup_def)
    with oi show ?thesis by simp
  qed
qed

lemma fold_repo_onlyInvalidates:
  assumes init: "onlyInvalidates c0 tr0 (fst (snd s)) (snd (snd s))"
  shows "onlyInvalidates c0 tr0
           (fst (snd (fold (\<lambda>t. repoSyncGroup opts owner (Slug t) False) teams s)))
           (snd (snd (fold (\<lambda>t. repoSyncGroup opts owner (Slug t) False) teams s)))"
  using init
proof (induction teams arbitrary: s)
  case Nil
  then show ?case by simp
next
  case (Cons t teams)
  from repoSyncGroup_onlyInvalidates[OF Cons.prems, of opts owner "Slug t" False]
  have "onlyInvalidates c0 tr0 (fst (snd (repoSyncGroup opts owner (Slug t) False s)))
          (snd (snd (repoSyncGroup opts owner (Slug t) False s)))" .
  from Cons.IH[OF this] show ?case by simp
qed

lemma getRepoAffiliatedGroups_onlyInvalidates:
  assumes run: "getRepoAffiliatedGroups p c owner name opts tr = Some (groups, err, c1, tr1)"
  shows "onlyInvalidates c tr c1 tr1"
proof -
  let ?tr = "tr @ [Request (token (client p)) (ReqGetOrganization owner)]"
  have oi0: "onlyInvalidates c tr c ?tr" by (rule onlyInvalidates_request[OF onlyInvalidates_refl])
  obtain org er where lk: "getOrganization (codeHostAPI (client p)) (token (client p)) owner = (org, er)"
    by (cases "getOrganization (codeHostAPI (client p)) (token (client p)) owner") auto
  show ?thesis
  proof (cases er)
    case (Some e)
    with run lk have "c1 = c" "tr1 = ?tr"
      by (auto simp: getRepoAffiliatedGroups_lookup_error)
    with oi0 show ?thesis by simp
  next
    case None
    show ?thesis
    proof (cases "canViewOrgRepos \<lparr>OrgDetails = org, OrgMembership = None\<rparr>")
      case True
      from repoSyncGroup_onlyInvalidates[of c tr "([], c, ?tr)" opts owner "[]" False] oi0
      have "onlyInvalidates c tr (fst (snd (repoSyncGroup opts owner [] False ([], c, ?tr))))
              (snd (snd (repoSyncGroup opts owner [] False ([], c, ?tr))))" by simp
      moreover from run lk None True
      have "c1 = fst (snd (repoSyncGroup opts owner [] False ([], c, ?tr)))"
           "tr1 = snd (snd (repoSyncGroup opts owner [] False ([], c, ?tr)))"
        by (auto simp: getRepoAffiliatedGroups_def GetOrganization_def Let_def split: prod.splits)
      ultimately show ?thesis by simp
    next
      case False
      let ?s0 = "repoSyncGroup opts owner [] True ([], c, ?tr)"
      let ?I = "\<lambda>s :: repoGroups. onlyInvalidates c tr (fst (snd s)) (snd (snd s))"
      let ?Q = "\<lambda>r :: repoGroupsResult. onlyInvalidates c tr (fst (snd (snd r))) (snd (snd (snd r)))"
      from repoSyncGroup_onlyInvalidates[of c tr "([], c, ?tr)" opts owner "[]" True] oi0
      have i0: "?I ?s0" by simp
      from run lk None False obtain y where
        loop: "forPages (listTeamsForRepo p opts owner name) 1 ?s0 = Some y"
        and res: "(case y of Inr r \<Rightarrow> r | Inl (groups, c, tr) \<Rightarrow> (groups, None, c, tr)) = (groups, err, c1, tr1)"
        by (auto simp: getRepoAffiliatedGroups_def GetOrganization_def Let_def
                 split: option.splits sum.splits prod.splits)
      have L: "case y of Inl s' \<Rightarrow> ?I s' | Inr r \<Rightarrow> ?Q r"
      proof (rule forPages_inv[OF loop, where I = ?I and Q = ?Q])
        show "?I ?s0" by (rule i0)
      next
        fix k s s' b
        assume I: "?I s" and step: "listTeamsForRepo p opts owner name k s = Next (s', b)"
        obtain gs cc tt where s: "s = (gs, cc, tt)" by (cases s)
        obtain teams hn e where pg:
          "repositoryTeams (codeHostAPI (client p)) (token (client p)) owner name k = (teams, hn, e)"
          by (cases "repositoryTeams (codeHostAPI (client p)) (token (client p)) owner name k") auto
        let ?tt = "tt @ [Request (token (client p)) (ReqListRepositoryTeams owner name k)]"
        from step s pg have s': "s' = fold (\<lambda>t. repoSyncGroup opts owner (Slug t) False) teams (gs, cc, ?tt)"
          by (auto simp: listTeamsForRepo_def ListRepositoryTeams_def split: option.splits)
        from I s have "onlyInvalidates c tr cc ?tt" by (simp add: onlyInvalidates_request)
        then have "?I (gs, cc, ?tt)" by simp
        from fold_repo_onlyInvalidates[OF this] s' show "?I s'" by simp
      next
        fix k s r
        assume I: "?I s" and step: "listTeamsForRepo p opts owner name k s = Return r"
        obtain gs cc tt where s: "s = (gs, cc, tt)" by (cases s)
        obtain teams hn e where pg:
          "repositoryTeams (codeHostAPI (client p)) (token (client p)) owner name k = (teams, hn, e)"
          by (cases "repositoryTeams (codeHostAPI (client p)) (token (client p)) owner name k") auto
        let ?tt = "tt @ [Request (token (client p)) (ReqListRepositoryTeams owner name k)]"
        from step s pg obtain e' where r: "r = (gs, Some e', cc, ?tt)"
          by (auto simp: listTeamsForRepo_def ListRepositoryTeams_def split: option.splits)
        from I s have "onlyInvalidates c tr cc ?tt" by (simp add: onlyInvalidates_request)
        with r show "?Q r" by simp
      qed
      with res show ?thesis by (cases y) auto
    qed
  qed
qed

subsection \<open>Reading a run of the examples\<close>

lemma discoveryOutcome_SomeD: "discoveryOutcome r = Some (g, e, t) \<Longrightarrow> \<exists>c. r = Some (g, e, c, t)"
  by (cases r) (auto simp: discoveryOutcome_def)

lemma withoutCache_SomeD: "withoutCache r = Some (x, e, t) \<Longrightarrow> \<exists>c. r = Some (x, e, c, t)"
  by (cases r) (auto simp: withoutCache_def)

lemma providerWith_simps:
  "codeHostAPI (client (providerWith h c)) = h" "token (client (providerWith h c)) = ''base-token''"
  "groupsCache (providerWith h c) = Some c" "codeHost (providerWith h c) = githubDotCom"
  "affiliationsOf (providerWith h c) = [AffiliationOwner, AffiliationCollaborator]"
  "collaboratorAffiliationOf (providerWith h c) = AffiliationDirect"
  by (simp_all add: providerWith_def exampleProvider_def affiliationsOf_def collaboratorAffiliationOf_def)

subsection \<open>The cache writes of the group loop\<close>





subsection \<open>A group listing that fails inside a fetch\<close>

lemma user_fetch_group_fails:
  assumes va: "IsHostOfAccount (codeHost p) a"
    and vt: "GetExternalAccountData (AccountData a) = (Some t, None)"
    and cache: "groupsCache p = Some c"
    and m: "1 \<le> m"
    and goes: "goesOn (directPage (codeHostAPI (client p)) (AccessToken t) (affiliationsOf p)) m"
    and last: "snd (directPage (codeHostAPI (client p)) (AccessToken t) (affiliationsOf p) m) = (False, None)"
    and disc: "getUserAffiliatedGroups c (WithToken (client p) (AccessToken t)) opts
                 (tr @ map (directRequest (AccessToken t) (affiliationsOf p)) [1..<Suc m])
               = Some (before @ g # rest, None, c1, tr2)"
    and h: "\<forall>g' \<in> set before. Repositories g' \<noteq> [] \<or> endsWell (groupPage p (Team g' = []) g')"
    and empty: "Repositories g = []"
    and n: "1 \<le> n" and ggoes: "goesOn (groupPage p (Team g = []) g) n"
    and glast: "groupPage p (Team g = []) g n = (items, hn, Some e)"
  shows "\<exists>perms cfin tr'. FetchUserPerms p (Some a) opts tr
             = Some (Some perms, Some (Wrap e ''list repos for group''), Some cfin, tr')
           \<and> distinct (Exacts perms)
           \<and> set (Exacts perms)
               = ID ` set (itemsBefore (directPage (codeHostAPI (client p)) (AccessToken t) (affiliationsOf p))
                             (Suc m))
                 \<union> (\<Union>g' \<in> set before. groupRepositories p g')
                 \<union> ID ` set (itemsBefore (groupPage p (Team g = []) g) n) \<union> ID ` set items"
proof -
  let ?list = "directPage (codeHostAPI (client p)) (AccessToken t) (affiliationsOf p)"
  let ?acc = "fold (\<lambda>r. addRepoToUserPerms [ID r]) (itemsBefore ?list (Suc m)) (\<lparr>Exacts = []\<rparr>, {})"
  have ok0: "userPermsOK (\<lparr>Exacts = []\<rparr>, {})" by (simp add: userPermsOK_def)
  from fold_addRepoToUserPerms_ok[OF ok0, of "itemsBefore ?list (Suc m)"]
  have ok: "userPermsOK ?acc" and s: "snd ?acc = ID ` set (itemsBefore ?list (Suc m))" by simp_all
  from user_groups_fail[OF ok h empty n ggoes glast, of "AccountID (AccountSpec a)" rest c1 tr2]
  obtain perms c' tr' where
    r: "forRange (syncUserGroup p (AccountID (AccountSpec a))) (before @ g # rest) (?acc, c1, tr2)
          = Some (Inr (perms, Some (Wrap e ''list repos for group''), Some c', tr'))"
    and d: "distinct (Exacts perms)"
    and e: "set (Exacts perms)
               = snd ?acc \<union> (\<Union>g' \<in> set before. groupRepositories p g')
                 \<union> ID ` set (itemsBefore (groupPage p (Team g = []) g) n) \<union> ID ` set items"
    by (elim exE conjE) (rule that)
  have f: "FetchUserPerms p (Some a) opts tr
          = Some (Some perms, Some (Wrap e ''list repos for group''), Some c', tr')"
    unfolding FetchUserPerms_groups[OF va vt cache m goes last disc] r by simp
  show ?thesis
    apply (rule exI[of _ perms])
    apply (rule exI[of _ c'])
    apply (rule exI[of _ tr'])
    apply (intro conjI)
      apply (rule f)
     apply (rule d)
    apply (simp only: e s)
    done
qed

lemma repo_fetch_group_fails:
  assumes vr: "IsHostOfRepo (codeHost p) (ExternalRepoSpec r)"
    and nwo: "nameWithOwner p r = Inr (owner, name)"
    and cache: "groupsCache p = Some c"
    and m: "1 \<le> m"
    and goes: "goesOn (collaboratorPage (codeHostAPI (client p)) (token (client p)) owner name
                         (collaboratorAffiliationOf p)) m"
    and last: "snd (collaboratorPage (codeHostAPI (client p)) (token (client p)) owner name
                      (collaboratorAffiliationOf p) m) = (False, None)"
    and disc: "getRepoAffiliatedGroups p c owner name opts
                 (tr @ map (collaboratorRequest (token (client p)) owner name (collaboratorAffiliationOf p))
                        [1..<Suc m])
               = Some (before @ rg # rest, None, c1, tr2)"
    and h: "\<forall>g' \<in> set before. Users (embedded g') \<noteq> [] \<or> endsWell (memberPage p owner g')"
    and empty: "Users (embedded rg) = []"
    and n: "1 \<le> n" and ggoes: "goesOn (memberPage p owner rg) n"
    and glast: "memberPage p owner rg n = (items, hn, Some e)"
  shows "\<exists>ids cfin tr'. FetchRepoPerms p (Some r) opts tr
             = Some (Some ids, Some (Wrap e ''list users for group''), Some cfin, tr')
           \<and> distinct ids
           \<and> set ids
               = accountIDOf ` set (itemsBefore
                    (collaboratorPage (codeHostAPI (client p)) (token (client p)) owner name
                       (collaboratorAffiliationOf p)) (Suc m))
                 \<union> (\<Union>g' \<in> set before. groupUsers p owner g')
                 \<union> accountIDOf ` set (itemsBefore (memberPage p owner rg) n)"
proof -
  let ?list = "collaboratorPage (codeHostAPI (client p)) (token (client p)) owner name
                 (collaboratorAffiliationOf p)"
  let ?acc = "fold (\<lambda>u. addUserToRepoPerms [FormatInt (DatabaseID u)]) (itemsBefore ?list (Suc m)) ([], {})"
  have ok0: "repoPermsOK ([], {})" by (simp add: repoPermsOK_def)
  from fold_addUserToRepoPerms_ok[OF ok0, of "itemsBefore ?list (Suc m)"]
  have ok: "repoPermsOK ?acc" and s: "snd ?acc = accountIDOf ` set (itemsBefore ?list (Suc m))" by simp_all
  from repo_groups_fail[OF ok h empty n ggoes glast, of "RepoSpecID (ExternalRepoSpec r)" rest c1 tr2]
  obtain ids c' tr' where
    r: "forRange (syncRepoGroup p owner (RepoSpecID (ExternalRepoSpec r))) (before @ rg # rest) (?acc, c1, tr2)
          = Some (Inr (Some ids, Some (Wrap e ''list users for group''), Some c', tr'))"
    and d: "distinct ids"
    and e: "set ids = snd ?acc \<union> (\<Union>g' \<in> set before. groupUsers p owner g')
                 \<union> accountIDOf ` set (itemsBefore (memberPage p owner rg) n)"
    by (elim exE conjE) (rule that)
  have f: "FetchRepoPerms p (Some r) opts tr
          = Some (Some ids, Some (Wrap e ''list users for group''), Some c', tr')"
    unfolding FetchRepoPerms_groups[OF vr nwo cache m goes last disc] r by simp
  show ?thesis
    apply (rule exI[of _ ids])
    apply (rule exI[of _ c'])
    apply (rule exI[of _ tr'])
    apply (intro conjI)
      apply (rule f)
     apply (rule d)
    apply (simp only: e s)
    done
qed

section \<open>The claims\<close>

text \<open>
  Claim C2. Whatever the pages and the groups the directory client returns, also
  overlapping ones, and whatever the cache holds: when \<open>FetchUserPerms\<close> returns
  permissions, no repository identifier is listed twice in them, and when
  \<open>FetchRepoPerms\<close> returns account identifiers, none is listed twice.
\<close>

theorem fetch_has_no_duplicates:
  "(FetchUserPerms p account opts tr = Some (Some perms, err, c', tr') \<longrightarrow> distinct (Exacts perms))
   \<and> (FetchRepoPerms p repo opts tr = Some (Some userIDs, err2, c2, tr2) \<longrightarrow> distinct userIDs)"
proof (intro conjI impI)
  assume "FetchUserPerms p account opts tr = Some (Some perms, err, c', tr')"
  then obtain accountID tok where
    "fetchUserPermsByToken p accountID tok opts tr = Some (perms, err, c', tr')"
    by (auto simp: FetchUserPerms_def split: option.splits if_splits prod.splits)
  then show "distinct (Exacts perms)" by (rule fetchUserPermsByToken_distinct)
next
  assume "FetchRepoPerms p repo opts tr = Some (Some userIDs, err2, c2, tr2)"
  then show "distinct userIDs" by (rule FetchRepoPerms_distinct)
qed

text \<open>Witness: the two fetches of the examples, whose pages overlap.\<close>

theorem fetch_has_no_duplicates_witness:
  "(\<exists>c' tr'. FetchUserPerms exampleProvider (Some exampleAccount) noOptions []
        = Some (Some \<lparr>Exacts = [''r1'', ''r2'', ''r3'', ''r4'', ''r5'']\<rparr>, None, c', tr'))
   \<and> distinct [''r1'', ''r2'', ''r3'', ''r4'', ''r5'']
   \<and> (\<exists>c2 tr2. FetchRepoPerms exampleProvider (Some exampleRepo) noOptions []
        = Some (Some [''10'', ''11'', ''12'', ''13''], None, c2, tr2))
   \<and> distinct [''10'', ''11'', ''12'', ''13'']"
proof -
  have "map_option (\<lambda>(x, err, c, tr). (x, err))
          (FetchUserPerms exampleProvider (Some exampleAccount) noOptions [])
        = Some (Some \<lparr>Exacts = [''r1'', ''r2'', ''r3'', ''r4'', ''r5'']\<rparr>, None)"
    by code_simp
  then obtain c' tr' where u: "FetchUserPerms exampleProvider (Some exampleAccount) noOptions []
        = Some (Some \<lparr>Exacts = [''r1'', ''r2'', ''r3'', ''r4'', ''r5'']\<rparr>, None, c', tr')"
    by auto
  have "map_option (\<lambda>(x, err, c, tr). (x, err))
          (FetchRepoPerms exampleProvider (Some exampleRepo) noOptions [])
        = Some (Some [''10'', ''11'', ''12'', ''13''], None)"
    by code_simp
  then obtain c2 tr2 where r: "FetchRepoPerms exampleProvider (Some exampleRepo) noOptions []
        = Some (Some [''10'', ''11'', ''12'', ''13''], None, c2, tr2)"
    by auto
  from fetch_has_no_duplicates[of exampleProvider "Some exampleAccount" noOptions "[]"
        "\<lparr>Exacts = [''r1'', ''r2'', ''r3'', ''r4'', ''r5'']\<rparr>" None c' tr'
        "Some exampleRepo" "[''10'', ''11'', ''12'', ''13'']" None c2 tr2] u r
  show ?thesis by auto
qed

text \<open>
  Claim C7. \<open>FetchUserPerms\<close> fails fast when the account does not belong to the
  provider's code host or when the account data holds no token, and \<open>FetchRepoPerms\<close>
  when the repository does not belong to the provider's code host: it returns an error
  and nil in place of a result, and the trace and the cache are as they were, so no
  request was sent to the code host.
\<close>

theorem fetch_fails_fast:
  "(\<not> IsHostOfAccount (codeHost p) a \<or> fst (GetExternalAccountData (AccountData a)) = None
      \<longrightarrow> (\<exists>e. FetchUserPerms p (Some a) opts tr = Some (None, Some e, groupsCache p, tr)))
   \<and> (\<not> IsHostOfRepo (codeHost p) (ExternalRepoSpec r)
      \<longrightarrow> (\<exists>e. FetchRepoPerms p (Some r) opts tr = Some (None, Some e, groupsCache p, tr)))"
  by (cases "AccountData a") (auto simp: FetchUserPerms_def FetchRepoPerms_def split: option.splits prod.splits)

text \<open>Witness: an account of another code host, an account without a token and a
  repository of another code host.\<close>

theorem fetch_fails_fast_witness:
  "(\<exists>e. FetchUserPerms exampleProvider (Some foreignAccount) noOptions []
           = Some (None, Some e, groupsCache exampleProvider, []))
   \<and> (\<exists>e. FetchUserPerms exampleProvider (Some tokenlessAccount) noOptions []
           = Some (None, Some e, groupsCache exampleProvider, []))
   \<and> (\<exists>e. FetchRepoPerms exampleProvider (Some foreignRepo) noOptions []
           = Some (None, Some e, groupsCache exampleProvider, []))"
proof -
  have 1: "\<not> IsHostOfAccount (codeHost exampleProvider) foreignAccount" by code_simp
  have 2: "fst (GetExternalAccountData (AccountData tokenlessAccount)) = None" by code_simp
  have 3: "\<not> IsHostOfRepo (codeHost exampleProvider) (ExternalRepoSpec foreignRepo)" by code_simp
  from fetch_fails_fast[of exampleProvider foreignAccount noOptions "[]" foreignRepo]
       fetch_fails_fast[of exampleProvider tokenlessAccount noOptions "[]" foreignRepo] 1 2 3
  show ?thesis by blast
qed

text \<open>
  Claim C3. For an account of the provider's code host with a token: when group caching
  is disabled and the direct listing of the account's repositories, asked for every kind
  of affiliation, has \<open>n\<close> pages, \<open>FetchUserPerms\<close> returns without an error exactly
  the identifiers of those pages, none twice, and the requests it sent are the \<open>n\<close>
  requests of that listing. Whenever it returns with group caching disabled, also on an
  error, the requests it sent are requests of that listing only: no group is discovered
  and no repository of a group is listed. With group caching enabled every request of the
  direct listing asks for the owner and collaborator affiliations.
\<close>

theorem disabled_cache_fallback:
  assumes acct: "IsHostOfAccount (codeHost p) a"
    and tok: "GetExternalAccountData (AccountData a) = (Some t, None)"
  shows "(groupsCache p = None \<and> 1 \<le> n
            \<and> goesOn (directPage (codeHostAPI (client p)) (AccessToken t) []) n
            \<and> snd (directPage (codeHostAPI (client p)) (AccessToken t) [] n) = (False, None)
          \<longrightarrow> (\<exists>perms. FetchUserPerms p (Some a) opts tr
                   = Some (Some perms, None, None, tr @ map (directRequest (AccessToken t) []) [1..<Suc n])
                 \<and> distinct (Exacts perms)
                 \<and> set (Exacts perms)
                     = ID ` set (itemsBefore (directPage (codeHostAPI (client p)) (AccessToken t) []) (Suc n))))
       \<and> (groupsCache p = None \<and> FetchUserPerms p (Some a) opts tr = Some (res, err, c', tr')
          \<longrightarrow> c' = None \<and> (\<exists>m. tr' = tr @ map (directRequest (AccessToken t) []) [1..<Suc m]))
       \<and> (groupsCache p \<noteq> None \<and> FetchUserPerms p (Some a) opts tr = Some (res, err, c', tr')
          \<longrightarrow> (\<exists>new. tr' = tr @ new \<and>
                 (\<forall>tk v k affs. Request tk (ReqListAffiliatedRepositories v k affs) \<in> set new
                    \<longrightarrow> affs = [AffiliationOwner, AffiliationCollaborator])))"
proof (intro conjI impI)
  let ?cl = "WithToken (client p) (AccessToken t)"
  have F: "FetchUserPerms p (Some a) opts tr
           = map_option (\<lambda>(perms, r). (Some perms, r))
               (fetchUserPermsByToken p (AccountID (AccountSpec a)) (AccessToken t) opts tr)"
    using acct tok by (simp add: FetchUserPerms_def)
  have cl: "token ?cl = AccessToken t" "codeHostAPI ?cl = codeHostAPI (client p)"
    by (simp_all add: WithToken_def)
  {
    let ?list = "directPage (codeHostAPI (client p)) (AccessToken t) []"
    assume A: "groupsCache p = None \<and> 1 \<le> n \<and> goesOn ?list n \<and> snd (?list n) = (False, None)"
    then obtain items where last: "?list n = (items, False, None)" by (cases "?list n") auto
    let ?acc = "fold (\<lambda>r. addRepoToUserPerms [ID r]) (itemsBefore ?list n) (\<lparr>Exacts = []\<rparr>, {})"
    let ?acc' = "fold (\<lambda>r. addRepoToUserPerms [ID r]) (itemsBefore ?list (Suc n)) (\<lparr>Exacts = []\<rparr>, {})"
    have ok0: "userPermsOK (\<lparr>Exacts = []\<rparr>, {})" by (simp add: userPermsOK_def)
    have "forPages (listReposForUser p ?cl []) 1 ((\<lparr>Exacts = []\<rparr>, {}), tr)
          = forPages (listReposForUser p ?cl []) n
              (?acc, tr @ map (directRequest (AccessToken t) []) [1..<n])"
      using direct_phase_unroll[of ?cl "[]" n p "(\<lparr>Exacts = []\<rparr>, {})" tr] A by (simp add: cl)
    also have "\<dots> = Some (Inl (?acc', tr @ map (directRequest (AccessToken t) []) [1..<Suc n]))"
      using last A
      by (subst forPages.simps)
         (simp add: listReposForUser_eq cl directPage_def[symmetric] itemsBefore_Suc directRequest_def)
    finally have run: "forPages (listReposForUser p ?cl []) 1 ((\<lparr>Exacts = []\<rparr>, {}), tr)
          = Some (Inl (?acc', tr @ map (directRequest (AccessToken t) []) [1..<Suc n]))" .
    have res: "FetchUserPerms p (Some a) opts tr
          = Some (Some (fst ?acc'), None, None, tr @ map (directRequest (AccessToken t) []) [1..<Suc n])"
      using A run by (simp add: F fetchUserPermsByToken_def Let_def)
    from fold_addRepoToUserPerms_ok[OF ok0, of "itemsBefore ?list (Suc n)"]
    have "userPermsOK ?acc'" and "snd ?acc' = ID ` set (itemsBefore ?list (Suc n))" by simp_all
    then have "distinct (Exacts (fst ?acc'))" "set (Exacts (fst ?acc')) = ID ` set (itemsBefore ?list (Suc n))"
      by (simp_all add: userPermsOK_def)
    with res show "\<exists>perms. FetchUserPerms p (Some a) opts tr
                   = Some (Some perms, None, None, tr @ map (directRequest (AccessToken t) []) [1..<Suc n])
                 \<and> distinct (Exacts perms)
                 \<and> set (Exacts perms) = ID ` set (itemsBefore ?list (Suc n))"
      by blast
  }
  {
    assume B: "groupsCache p = None \<and> FetchUserPerms p (Some a) opts tr = Some (res, err, c', tr')"
    then obtain perms where f: "fetchUserPermsByToken p (AccountID (AccountSpec a)) (AccessToken t) opts tr
         = Some (perms, err, c', tr')"
      by (auto simp: F)
    then obtain y where run: "forPages (listReposForUser p ?cl []) 1 ((\<lparr>Exacts = []\<rparr>, {}), tr) = Some y"
      using B by (auto simp: fetchUserPermsByToken_def Let_def split: option.splits)
    from direct_phase_requests[OF run] obtain m where
      m: "(case y of Inl s \<Rightarrow> snd s | Inr r \<Rightarrow> snd (snd (snd r)))
            = tr @ map (directRequest (AccessToken t) []) [1..<Suc m]"
      by (auto simp: cl)
    have none: "\<And>r. y = Inr r \<Longrightarrow> fst (snd (snd r)) = None"
    proof -
      fix r assume "y = Inr r"
      have "case y of Inl s' \<Rightarrow> True | Inr r \<Rightarrow> fst (snd (snd r)) = None"
        by (rule forPages_inv[OF run, where I = "\<lambda>s. True"])
           (auto simp: listReposForUser_eq B split: prod.splits option.splits)
      with \<open>y = Inr r\<close> show "fst (snd (snd r)) = None" by simp
    qed
    show "c' = None" using f run B none
      by (cases y) (auto simp: fetchUserPermsByToken_def Let_def)
    show "\<exists>m. tr' = tr @ map (directRequest (AccessToken t) []) [1..<Suc m]"
      using f run B m by (cases y) (auto simp: fetchUserPermsByToken_def Let_def)
  }
  {
    assume C: "groupsCache p \<noteq> None \<and> FetchUserPerms p (Some a) opts tr = Some (res, err, c', tr')"
    then obtain perms where f: "fetchUserPermsByToken p (AccountID (AccountSpec a)) (AccessToken t) opts tr
         = Some (perms, err, c', tr')"
      by (auto simp: F)
    let ?P = "userFetchEvent (AccessToken t) (token (client p)) [AffiliationOwner, AffiliationCollaborator]"
    have "extends ?P tr tr'"
      by (rule fetchUserPermsByToken_trace[OF f]) (use C in \<open>simp_all add: groupRequest_def\<close>)
    then obtain new where new: "tr' = tr @ new" "list_all ?P new" by (auto simp: extends_def)
    have "\<forall>tk v k affs. Request tk (ReqListAffiliatedRepositories v k affs) \<in> set new
                    \<longrightarrow> affs = [AffiliationOwner, AffiliationCollaborator]"
    proof (intro allI impI)
      fix tk v k affs
      assume "Request tk (ReqListAffiliatedRepositories v k affs) \<in> set new"
      with new(2) have "?P (Request tk (ReqListAffiliatedRepositories v k affs))"
        unfolding list_all_iff by blast
      then show "affs = [AffiliationOwner, AffiliationCollaborator]" by simp
    qed
    with new(1) show "\<exists>new. tr' = tr @ new \<and>
                 (\<forall>tk v k affs. Request tk (ReqListAffiliatedRepositories v k affs) \<in> set new
                    \<longrightarrow> affs = [AffiliationOwner, AffiliationCollaborator])"
      by blast
  }
qed

text \<open>Witness: the account of the examples, with group caching disabled (two pages) and
  enabled.\<close>

theorem disabled_cache_fallback_witness:
  "(\<exists>perms. FetchUserPerms uncachedProvider (Some exampleAccount) noOptions []
        = Some (Some perms, None, None,
                [directRequest ''user-token'' [] 1, directRequest ''user-token'' [] 2])
      \<and> distinct (Exacts perms) \<and> set (Exacts perms) = {''r1'', ''r2'', ''r3''})
   \<and> (\<exists>res err c' new. FetchUserPerms exampleProvider (Some exampleAccount) noOptions []
        = Some (res, err, c', new)
      \<and> directRequest ''user-token'' [AffiliationOwner, AffiliationCollaborator] 1 \<in> set new
      \<and> (\<forall>tk v k affs. Request tk (ReqListAffiliatedRepositories v k affs) \<in> set new
            \<longrightarrow> affs = [AffiliationOwner, AffiliationCollaborator]))"
proof -
  let ?t = "\<lparr>AccessToken = ''user-token''\<rparr>"
  let ?list = "directPage (codeHostAPI (client uncachedProvider)) (AccessToken ?t) []"
  have acct: "IsHostOfAccount (codeHost uncachedProvider) exampleAccount"
    and acct': "IsHostOfAccount (codeHost exampleProvider) exampleAccount"
    by code_simp+
  have tok: "GetExternalAccountData (AccountData exampleAccount) = (Some ?t, None)"
    by (simp add: exampleAccount_def)
  have off: "groupsCache uncachedProvider = None" and on: "groupsCache exampleProvider \<noteq> None"
    by (simp_all add: uncachedProvider_def exampleProvider_def)
  have p1: "?list 1 = ([\<lparr>ID = ''r1''\<rparr>, \<lparr>ID = ''r2''\<rparr>], True, None)"
    and p2: "?list 2 = ([\<lparr>ID = ''r2''\<rparr>, \<lparr>ID = ''r3''\<rparr>], False, None)"
    by (simp_all add: directPage_def uncachedProvider_def exampleProvider_def exampleHost_def)
  have goes: "goesOn ?list 2"
    unfolding goesOn_def
  proof (intro allI impI)
    fix k :: nat assume "1 \<le> k \<and> k < 2"
    then have "k = 1" by simp
    with p1 show "snd (?list k) = (True, None)" by simp
  qed
  have items: "ID ` set (itemsBefore ?list (Suc 2)) = {''r1'', ''r2'', ''r3''}"
  proof -
    have "[1..<Suc 2] = [1, 2]" by (simp add: upt_rec)
    then show ?thesis using p1 p2 by (auto simp: itemsBefore_def)
  qed
  have reqs: "map (directRequest ''user-token'' []) [1..<Suc 2]
               = [directRequest ''user-token'' [] 1, directRequest ''user-token'' [] 2]"
    by (simp add: upt_rec numeral_2_eq_2)
  have "map_option (\<lambda>(x, err, c, tr). tr)
          (FetchUserPerms exampleProvider (Some exampleAccount) noOptions [])
        = Some [Request ''user-token'' (ReqListAffiliatedRepositories VisibilityPrivate 1
                  [AffiliationOwner, AffiliationCollaborator]),
                Request ''user-token'' (ReqListAffiliatedRepositories VisibilityPrivate 2
                  [AffiliationOwner, AffiliationCollaborator]),
                Request ''user-token'' (ReqGetAuthenticatedUserOrgsDetailsAndMembership 1),
                Request ''user-token'' (ReqGetAuthenticatedUserTeams 1),
                Request ''base-token'' (ReqListOrgRepositories ''acme'' 1 []),
                SetGroup \<lparr>Org = ''acme'', Team = [], Repositories = [''r3'', ''r4''], Users = []\<rparr>,
                Request ''base-token'' (ReqListTeamRepositories ''acme'' ''eng'' 1),
                SetGroup \<lparr>Org = ''acme'', Team = ''eng'', Repositories = [''r4''], Users = []\<rparr>,
                Request ''base-token'' (ReqListTeamRepositories ''initech'' ''ops'' 1),
                SetGroup \<lparr>Org = ''initech'', Team = ''ops'', Repositories = [''r5''], Users = []\<rparr>]"
    (is "_ = Some ?new")
    by code_simp
  then obtain res err c' where run: "FetchUserPerms exampleProvider (Some exampleAccount) noOptions []
        = Some (res, err, c', ?new)"
    by auto
  note thm1 = disabled_cache_fallback[OF acct tok, of 2 noOptions "[]"]
  note thm2 = disabled_cache_fallback[OF acct' tok, of _ noOptions "[]" res err c' ?new]
  have A: "\<exists>perms. FetchUserPerms uncachedProvider (Some exampleAccount) noOptions []
        = Some (Some perms, None, None,
                [directRequest ''user-token'' [] 1, directRequest ''user-token'' [] 2])
      \<and> distinct (Exacts perms) \<and> set (Exacts perms) = {''r1'', ''r2'', ''r3''}"
    using thm1[THEN conjunct1] off goes p2 items reqs by simp
  from thm2[THEN conjunct2, THEN conjunct2] on run
  have "\<forall>tk v k affs. Request tk (ReqListAffiliatedRepositories v k affs) \<in> set ?new
            \<longrightarrow> affs = [AffiliationOwner, AffiliationCollaborator]"
    by simp
  with run A show ?thesis
    by (intro conjI exI[of _ res] exI[of _ err] exI[of _ c'] exI[of _ ?new]) (simp_all add: directRequest_def)
qed

text \<open>
  Claim C10. When \<open>FetchUserPerms\<close> returns permissions, every request it sent for the
  repositories affiliated with the account carries the account's own token, and every
  request for the repositories of an organization or of a team carries the token of the
  provider's client.
\<close>

theorem tokens_of_repository_listings:
  assumes "FetchUserPerms p (Some a) opts tr = Some (Some perms, err, c', tr')"
  shows "\<exists>t new. GetExternalAccountData (AccountData a) = (Some t, None) \<and> tr' = tr @ new \<and>
     (\<forall>tk v k affs. Request tk (ReqListAffiliatedRepositories v k affs) \<in> set new
        \<longrightarrow> tk = AccessToken t) \<and>
     (\<forall>tk org k repoType. Request tk (ReqListOrgRepositories org k repoType) \<in> set new
        \<longrightarrow> tk = token (client p)) \<and>
     (\<forall>tk org team k. Request tk (ReqListTeamRepositories org team k) \<in> set new
        \<longrightarrow> tk = token (client p))"
proof -
  from FetchUserPerms_cases[OF assms] obtain t where
    tok: "GetExternalAccountData (AccountData a) = (Some t, None)"
    and f: "fetchUserPermsByToken p (AccountID (AccountSpec a)) (AccessToken t) opts tr
              = Some (perms, err, c', tr')"
    by blast
  let ?P = "userFetchEvent (AccessToken t) (token (client p))
              (if groupsCache p = None then [] else [AffiliationOwner, AffiliationCollaborator])"
  have "extends ?P tr tr'"
    by (rule fetchUserPermsByToken_trace[OF f]) (simp_all add: groupRequest_def)
  then obtain new where new: "tr' = tr @ new" "list_all ?P new" by (auto simp: extends_def)
  have 1: "\<forall>tk v k affs. Request tk (ReqListAffiliatedRepositories v k affs) \<in> set new
        \<longrightarrow> tk = AccessToken t"
  proof (intro allI impI)
    fix tk v k affs
    assume "Request tk (ReqListAffiliatedRepositories v k affs) \<in> set new"
    from event_in_list_all[OF new(2) this] show "tk = AccessToken t" by simp
  qed
  have 2: "\<forall>tk org k repoType. Request tk (ReqListOrgRepositories org k repoType) \<in> set new
        \<longrightarrow> tk = token (client p)"
  proof (intro allI impI)
    fix tk org k repoType
    assume "Request tk (ReqListOrgRepositories org k repoType) \<in> set new"
    from event_in_list_all[OF new(2) this] show "tk = token (client p)" by simp
  qed
  have 3: "\<forall>tk org team k. Request tk (ReqListTeamRepositories org team k) \<in> set new
        \<longrightarrow> tk = token (client p)"
  proof (intro allI impI)
    fix tk org team k
    assume "Request tk (ReqListTeamRepositories org team k) \<in> set new"
    from event_in_list_all[OF new(2) this] show "tk = token (client p)" by simp
  qed
  from tok new(1) 1 2 3 show ?thesis by blast
qed

text \<open>Witness: the fetch of the examples, which lists one organization and two
  teams.\<close>

theorem tokens_of_repository_listings_witness:
  "\<exists>perms err c' new.
     FetchUserPerms exampleProvider (Some exampleAccount) noOptions [] = Some (Some perms, err, c', new)
     \<and> Request ''user-token'' (ReqListAffiliatedRepositories VisibilityPrivate 1
          [AffiliationOwner, AffiliationCollaborator]) \<in> set new
     \<and> Request ''base-token'' (ReqListOrgRepositories ''acme'' 1 []) \<in> set new
     \<and> Request ''base-token'' (ReqListTeamRepositories ''initech'' ''ops'' 1) \<in> set new
     \<and> (\<forall>tk v k affs. Request tk (ReqListAffiliatedRepositories v k affs) \<in> set new
           \<longrightarrow> tk = ''user-token'')
     \<and> (\<forall>tk org k repoType. Request tk (ReqListOrgRepositories org k repoType) \<in> set new
           \<longrightarrow> tk = ''base-token'')
     \<and> (\<forall>tk org team k. Request tk (ReqListTeamRepositories org team k) \<in> set new
           \<longrightarrow> tk = ''base-token'')"
proof -
  have "withoutCache (FetchUserPerms exampleProvider (Some exampleAccount) noOptions [])
        = Some (Some \<lparr>Exacts = [''r1'', ''r2'', ''r3'', ''r4'', ''r5'']\<rparr>, None,
               [Request ''user-token'' (ReqListAffiliatedRepositories VisibilityPrivate 1
                  [AffiliationOwner, AffiliationCollaborator]),
                Request ''user-token'' (ReqListAffiliatedRepositories VisibilityPrivate 2
                  [AffiliationOwner, AffiliationCollaborator]),
                Request ''user-token'' (ReqGetAuthenticatedUserOrgsDetailsAndMembership 1),
                Request ''user-token'' (ReqGetAuthenticatedUserTeams 1),
                Request ''base-token'' (ReqListOrgRepositories ''acme'' 1 []),
                SetGroup \<lparr>Org = ''acme'', Team = [], Repositories = [''r3'', ''r4''], Users = []\<rparr>,
                Request ''base-token'' (ReqListTeamRepositories ''acme'' ''eng'' 1),
                SetGroup \<lparr>Org = ''acme'', Team = ''eng'', Repositories = [''r4''], Users = []\<rparr>,
                Request ''base-token'' (ReqListTeamRepositories ''initech'' ''ops'' 1),
                SetGroup \<lparr>Org = ''initech'', Team = ''ops'', Repositories = [''r5''], Users = []\<rparr>])"
    (is "_ = Some (Some ?perms, None, ?new)")
    by code_simp
  then obtain c' where run: "FetchUserPerms exampleProvider (Some exampleAccount) noOptions []
        = Some (Some ?perms, None, c', ?new)"
    by (auto simp: withoutCache_def)
  have tok: "GetExternalAccountData (AccountData exampleAccount) = (Some \<lparr>AccessToken = ''user-token''\<rparr>, None)"
    by (simp add: exampleAccount_def)
  have base: "token (client exampleProvider) = ''base-token''"
    by (simp add: exampleProvider_def)
  from tokens_of_repository_listings[OF run] obtain t new where
    t: "GetExternalAccountData (AccountData exampleAccount) = (Some t, None)"
    and n: "?new = [] @ new"
    and 1: "\<forall>tk v k affs. Request tk (ReqListAffiliatedRepositories v k affs) \<in> set new
              \<longrightarrow> tk = AccessToken t"
    and 2: "\<forall>tk org k repoType. Request tk (ReqListOrgRepositories org k repoType) \<in> set new
              \<longrightarrow> tk = token (client exampleProvider)"
    and 3: "\<forall>tk org team k. Request tk (ReqListTeamRepositories org team k) \<in> set new
              \<longrightarrow> tk = token (client exampleProvider)"
    by blast
  from t tok have "t = \<lparr>AccessToken = ''user-token''\<rparr>" by simp
  then have t': "AccessToken t = ''user-token''" by simp
  from n have n': "new = ?new" by simp
  have m1: "Request ''user-token'' (ReqListAffiliatedRepositories VisibilityPrivate 1
          [AffiliationOwner, AffiliationCollaborator]) \<in> set ?new" by simp
  have m2: "Request ''base-token'' (ReqListOrgRepositories ''acme'' 1 []) \<in> set ?new" by simp
  have m3: "Request ''base-token'' (ReqListTeamRepositories ''initech'' ''ops'' 1) \<in> set ?new" by simp
  have a1: "\<forall>tk v k affs. Request tk (ReqListAffiliatedRepositories v k affs) \<in> set ?new
           \<longrightarrow> tk = ''user-token''"
    using 1 unfolding n' t' .
  have a2: "\<forall>tk org k repoType. Request tk (ReqListOrgRepositories org k repoType) \<in> set ?new
           \<longrightarrow> tk = ''base-token''"
    using 2 unfolding n' base .
  have a3: "\<forall>tk org team k. Request tk (ReqListTeamRepositories org team k) \<in> set ?new
           \<longrightarrow> tk = ''base-token''"
    using 3 unfolding n' base .
  show ?thesis
    apply (rule exI[of _ ?perms])
    apply (rule exI[of _ None])
    apply (rule exI[of _ c'])
    apply (rule exI[of _ ?new])
    apply (intro conjI)
          apply (rule run)
         apply (rule m1)
        apply (rule m2)
       apply (rule m3)
      apply (rule a1)
     apply (rule a2)
    apply (rule a3)
    done
qed

text \<open>
  Claim C5, at inputs where it fails. The listing of the repositories of the
  organization \<open>acme\<close> fails on its second page. First the cache holds a record of
  \<open>acme\<close> with the member \<open>7\<close> and no repository: the fetch for the account \<open>11\<close>
  registers the account in the record, which is a cache write, and then starts the
  enumeration, which fails; after the fetch the cached record of \<open>acme\<close> has the
  members \<open>7\<close> and \<open>11\<close>. Then the cache holds a record of \<open>acme\<close> with a member and
  a repository and the fetch is asked to invalidate the caches: discovery deletes the
  record, the enumeration fails, and after the fetch nothing is cached for \<open>acme\<close>.
\<close>

theorem failed_enumeration_changes_cached_entry:
  "usersOnlyCache ''acme'' = Some usersOnlyGroup
   \<and> withoutCache (FetchUserPerms (providerWith flakyHost usersOnlyCache) (Some exampleAccount) noOptions [])
     = Some (Some \<lparr>Exacts = [''r1'', ''r2'', ''r3'', ''r9'']\<rparr>,
             Some (Wrap (New ''rate limit exceeded'') ''list repos for group''),
             [Request ''user-token'' (ReqListAffiliatedRepositories VisibilityPrivate 1
                [AffiliationOwner, AffiliationCollaborator]),
              Request ''user-token'' (ReqListAffiliatedRepositories VisibilityPrivate 2
                [AffiliationOwner, AffiliationCollaborator]),
              Request ''user-token'' (ReqGetAuthenticatedUserOrgsDetailsAndMembership 1),
              Request ''user-token'' (ReqGetAuthenticatedUserTeams 1),
              SetGroup (usersOnlyGroup\<lparr>Users := [''7'', ''11'']\<rparr>),
              Request ''base-token'' (ReqListOrgRepositories ''acme'' 1 []),
              Request ''base-token'' (ReqListOrgRepositories ''acme'' 2 [])])
   \<and> cachedAfter (FetchUserPerms (providerWith flakyHost usersOnlyCache) (Some exampleAccount) noOptions [])
        ''acme''
     = Some (usersOnlyGroup\<lparr>Users := [''7'', ''11'']\<rparr>)
   \<and> partialCache ''acme'' = Some partialGroup
   \<and> withoutCache (FetchUserPerms (providerWith flakyHost partialCache) (Some exampleAccount) refresh [])
     = Some (Some \<lparr>Exacts = [''r1'', ''r2'', ''r3'', ''r9'']\<rparr>,
             Some (Wrap (New ''rate limit exceeded'') ''list repos for group''),
             [Request ''user-token'' (ReqListAffiliatedRepositories VisibilityPrivate 1
                [AffiliationOwner, AffiliationCollaborator]),
              Request ''user-token'' (ReqListAffiliatedRepositories VisibilityPrivate 2
                [AffiliationOwner, AffiliationCollaborator]),
              Request ''user-token'' (ReqGetAuthenticatedUserOrgsDetailsAndMembership 1),
              InvalidateGroup partialGroup,
              Request ''user-token'' (ReqGetAuthenticatedUserTeams 1),
              Request ''base-token'' (ReqListOrgRepositories ''acme'' 1 []),
              Request ''base-token'' (ReqListOrgRepositories ''acme'' 2 [])])
   \<and> cachedAfter (FetchUserPerms (providerWith flakyHost partialCache) (Some exampleAccount) refresh [])
        ''acme''
     = None"
proof (intro conjI)
  show "usersOnlyCache ''acme'' = Some usersOnlyGroup" by (simp add: usersOnlyCache_def)
  show "partialCache ''acme'' = Some partialGroup" by (simp add: partialCache_def)
qed code_simp+


text \<open>
  Claim C5, amended. Take a fetch with group caching enabled whose direct listing has
  \<open>m\<close> pages, whose discovery returns the groups \<open>groups\<close> without an error, and which
  returns permissions. Discovery adds requests and invalidations to the trace and no
  cache write. After it the trace goes on group by group, in the order of discovery.
  When the fetch returns no error, the events of each group are: the registration write
  of the target if it is due; and, if the field to enumerate is empty, the requests for
  the pages \<open>1\<close> to \<open>n\<close> of a listing that ends at page \<open>n\<close> without an error, and
  then one cache write of the group with the items of these \<open>n\<close> pages. When the fetch
  returns an error, this holds of the groups before the one that failed, the events of
  the group that failed are the registration write of the target if it is due and the
  requests for the pages \<open>1\<close> to \<open>n\<close> of its listing, of which page \<open>n\<close> failed, with
  no cache write after them, and no later group is processed. The cache returned is the
  cache at the start with all these events replayed in order: the entry of a group whose
  enumeration failed is the previous one except for an invalidation by discovery and
  for the registration write.
\<close>

theorem cache_written_after_complete_enumeration:
  "(IsHostOfAccount (codeHost p) a \<and> GetExternalAccountData (AccountData a) = (Some t, None)
      \<and> groupsCache p = Some c
      \<and> 1 \<le> m \<and> goesOn (directPage (codeHostAPI (client p)) (AccessToken t) (affiliationsOf p)) m
      \<and> snd (directPage (codeHostAPI (client p)) (AccessToken t) (affiliationsOf p) m) = (False, None)
      \<and> getUserAffiliatedGroups c (WithToken (client p) (AccessToken t)) opts
           (tr @ map (directRequest (AccessToken t) (affiliationsOf p)) [1..<Suc m])
         = Some (groups, None, c1, tr2)
      \<and> FetchUserPerms p (Some a) opts tr = Some (Some perms, err, cfin, tr')
    \<longrightarrow> onlyInvalidates c (tr @ map (directRequest (AccessToken t) (affiliationsOf p)) [1..<Suc m]) c1 tr2
      \<and> (case err of
           None \<Rightarrow>
             (\<exists>segs. list_all2 (userGroupEvents p (AccountID (AccountSpec a))) groups segs
                \<and> tr' = tr2 @ concat segs \<and> cfin = Some (fold replay (concat segs) c1))
         | Some e' \<Rightarrow>
             (\<exists>before g rest segs seg e.
                groups = before @ g # rest
                \<and> list_all2 (userGroupEvents p (AccountID (AccountSpec a))) before segs
                \<and> userGroupFailure p (AccountID (AccountSpec a)) g e seg
                \<and> e' = Wrap e ''list repos for group''
                \<and> tr' = tr2 @ concat segs @ seg
                \<and> cfin = Some (fold replay (concat segs @ seg) c1))))
   \<and> (IsHostOfRepo (codeHost p) (ExternalRepoSpec r) \<and> nameWithOwner p r = Inr (owner, name)
      \<and> groupsCache p = Some c
      \<and> 1 \<le> m
      \<and> goesOn (collaboratorPage (codeHostAPI (client p)) (token (client p)) owner name
                   (collaboratorAffiliationOf p)) m
      \<and> snd (collaboratorPage (codeHostAPI (client p)) (token (client p)) owner name
                (collaboratorAffiliationOf p) m) = (False, None)
      \<and> getRepoAffiliatedGroups p c owner name opts
           (tr @ map (collaboratorRequest (token (client p)) owner name (collaboratorAffiliationOf p))
                  [1..<Suc m])
         = Some (rgroups, None, c1, tr2)
      \<and> FetchRepoPerms p (Some r) opts tr = Some (Some ids, err, cfin, tr')
    \<longrightarrow> onlyInvalidates c
          (tr @ map (collaboratorRequest (token (client p)) owner name (collaboratorAffiliationOf p))
                 [1..<Suc m]) c1 tr2
      \<and> (case err of
           None \<Rightarrow>
             (\<exists>segs. list_all2 (repoGroupEvents p owner (RepoSpecID (ExternalRepoSpec r))) rgroups segs
                \<and> tr' = tr2 @ concat segs \<and> cfin = Some (fold replay (concat segs) c1))
         | Some e' \<Rightarrow>
             (\<exists>before g rest segs seg e.
                rgroups = before @ g # rest
                \<and> list_all2 (repoGroupEvents p owner (RepoSpecID (ExternalRepoSpec r))) before segs
                \<and> repoGroupFailure p owner (RepoSpecID (ExternalRepoSpec r)) g e seg
                \<and> e' = Wrap e ''list users for group''
                \<and> tr' = tr2 @ concat segs @ seg
                \<and> cfin = Some (fold replay (concat segs @ seg) c1))))"
proof (rule conjI; rule impI)
  assume H: "IsHostOfAccount (codeHost p) a \<and> GetExternalAccountData (AccountData a) = (Some t, None)
      \<and> groupsCache p = Some c
      \<and> 1 \<le> m \<and> goesOn (directPage (codeHostAPI (client p)) (AccessToken t) (affiliationsOf p)) m
      \<and> snd (directPage (codeHostAPI (client p)) (AccessToken t) (affiliationsOf p) m) = (False, None)
      \<and> getUserAffiliatedGroups c (WithToken (client p) (AccessToken t)) opts
           (tr @ map (directRequest (AccessToken t) (affiliationsOf p)) [1..<Suc m])
         = Some (groups, None, c1, tr2)
      \<and> FetchUserPerms p (Some a) opts tr = Some (Some perms, err, cfin, tr')"
  then have h: "IsHostOfAccount (codeHost p) a" "GetExternalAccountData (AccountData a) = (Some t, None)"
    "groupsCache p = Some c" "1 \<le> m"
    "goesOn (directPage (codeHostAPI (client p)) (AccessToken t) (affiliationsOf p)) m"
    "snd (directPage (codeHostAPI (client p)) (AccessToken t) (affiliationsOf p) m) = (False, None)"
    "getUserAffiliatedGroups c (WithToken (client p) (AccessToken t)) opts
           (tr @ map (directRequest (AccessToken t) (affiliationsOf p)) [1..<Suc m])
         = Some (groups, None, c1, tr2)"
    "FetchUserPerms p (Some a) opts tr = Some (Some perms, err, cfin, tr')"
    by blast+
  have "case err of
           None \<Rightarrow>
             (\<exists>segs. list_all2 (userGroupEvents p (AccountID (AccountSpec a))) groups segs
                \<and> tr' = tr2 @ concat segs \<and> cfin = Some (fold replay (concat segs) c1))
         | Some e' \<Rightarrow>
             (\<exists>before g rest segs seg e.
                groups = before @ g # rest
                \<and> list_all2 (userGroupEvents p (AccountID (AccountSpec a))) before segs
                \<and> userGroupFailure p (AccountID (AccountSpec a)) g e seg
                \<and> e' = Wrap e ''list repos for group''
                \<and> tr' = tr2 @ concat segs @ seg
                \<and> cfin = Some (fold replay (concat segs @ seg) c1))"
    by (rule user_fetch_run[OF h])
  with getUserAffiliatedGroups_onlyInvalidates[OF h(7)]
  show "onlyInvalidates c (tr @ map (directRequest (AccessToken t) (affiliationsOf p)) [1..<Suc m]) c1 tr2
      \<and> (case err of
           None \<Rightarrow>
             (\<exists>segs. list_all2 (userGroupEvents p (AccountID (AccountSpec a))) groups segs
                \<and> tr' = tr2 @ concat segs \<and> cfin = Some (fold replay (concat segs) c1))
         | Some e' \<Rightarrow>
             (\<exists>before g rest segs seg e.
                groups = before @ g # rest
                \<and> list_all2 (userGroupEvents p (AccountID (AccountSpec a))) before segs
                \<and> userGroupFailure p (AccountID (AccountSpec a)) g e seg
                \<and> e' = Wrap e ''list repos for group''
                \<and> tr' = tr2 @ concat segs @ seg
                \<and> cfin = Some (fold replay (concat segs @ seg) c1)))"
    by (rule conjI)
next
  assume H: "IsHostOfRepo (codeHost p) (ExternalRepoSpec r) \<and> nameWithOwner p r = Inr (owner, name)
      \<and> groupsCache p = Some c
      \<and> 1 \<le> m
      \<and> goesOn (collaboratorPage (codeHostAPI (client p)) (token (client p)) owner name
                   (collaboratorAffiliationOf p)) m
      \<and> snd (collaboratorPage (codeHostAPI (client p)) (token (client p)) owner name
                (collaboratorAffiliationOf p) m) = (False, None)
      \<and> getRepoAffiliatedGroups p c owner name opts
           (tr @ map (collaboratorRequest (token (client p)) owner name (collaboratorAffiliationOf p))
                  [1..<Suc m])
         = Some (rgroups, None, c1, tr2)
      \<and> FetchRepoPerms p (Some r) opts tr = Some (Some ids, err, cfin, tr')"
  then have h: "IsHostOfRepo (codeHost p) (ExternalRepoSpec r)" "nameWithOwner p r = Inr (owner, name)"
    "groupsCache p = Some c" "1 \<le> m"
    "goesOn (collaboratorPage (codeHostAPI (client p)) (token (client p)) owner name
                   (collaboratorAffiliationOf p)) m"
    "snd (collaboratorPage (codeHostAPI (client p)) (token (client p)) owner name
                (collaboratorAffiliationOf p) m) = (False, None)"
    "getRepoAffiliatedGroups p c owner name opts
           (tr @ map (collaboratorRequest (token (client p)) owner name (collaboratorAffiliationOf p))
                  [1..<Suc m])
         = Some (rgroups, None, c1, tr2)"
    "FetchRepoPerms p (Some r) opts tr = Some (Some ids, err, cfin, tr')"
    by blast+
  have "case err of
           None \<Rightarrow>
             (\<exists>segs. list_all2 (repoGroupEvents p owner (RepoSpecID (ExternalRepoSpec r))) rgroups segs
                \<and> tr' = tr2 @ concat segs \<and> cfin = Some (fold replay (concat segs) c1))
         | Some e' \<Rightarrow>
             (\<exists>before g rest segs seg e.
                rgroups = before @ g # rest
                \<and> list_all2 (repoGroupEvents p owner (RepoSpecID (ExternalRepoSpec r))) before segs
                \<and> repoGroupFailure p owner (RepoSpecID (ExternalRepoSpec r)) g e seg
                \<and> e' = Wrap e ''list users for group''
                \<and> tr' = tr2 @ concat segs @ seg
                \<and> cfin = Some (fold replay (concat segs @ seg) c1))"
    by (rule repo_fetch_run[OF h])
  with getRepoAffiliatedGroups_onlyInvalidates[OF h(7)]
  show "onlyInvalidates c
          (tr @ map (collaboratorRequest (token (client p)) owner name (collaboratorAffiliationOf p))
                 [1..<Suc m]) c1 tr2
      \<and> (case err of
           None \<Rightarrow>
             (\<exists>segs. list_all2 (repoGroupEvents p owner (RepoSpecID (ExternalRepoSpec r))) rgroups segs
                \<and> tr' = tr2 @ concat segs \<and> cfin = Some (fold replay (concat segs) c1))
         | Some e' \<Rightarrow>
             (\<exists>before g rest segs seg e.
                rgroups = before @ g # rest
                \<and> list_all2 (repoGroupEvents p owner (RepoSpecID (ExternalRepoSpec r))) before segs
                \<and> repoGroupFailure p owner (RepoSpecID (ExternalRepoSpec r)) g e seg
                \<and> e' = Wrap e ''list users for group''
                \<and> tr' = tr2 @ concat segs @ seg
                \<and> cfin = Some (fold replay (concat segs @ seg) c1)))"
    by (rule conjI)
qed


text \<open>Witness: fetches for the account and for the repository of the examples with a
  cached record of the group, on the code host of the examples and on one whose listing
  of the organization fails on the second page.\<close>

theorem cache_written_after_complete_enumeration_witness:
  "(\<exists>groups c1 tr2 perms cfin tr' segs.
      getUserAffiliatedGroups partialCache
          (WithToken (client (providerWith exampleHost partialCache)) ''user-token'') noOptions
          (map (directRequest ''user-token'' [AffiliationOwner, AffiliationCollaborator]) [1, 2])
        = Some (groups, None, c1, tr2)
      \<and> FetchUserPerms (providerWith exampleHost partialCache) (Some exampleAccount) noOptions []
        = Some (Some perms, None, cfin, tr')
      \<and> list_all2 (userGroupEvents (providerWith exampleHost partialCache) ''11'') groups segs
      \<and> tr' = tr2 @ concat segs \<and> cfin = Some (fold replay (concat segs) c1)
      \<and> SetGroup (partialGroup\<lparr>Users := [''7'', ''11'']\<rparr>) \<in> set tr')
   \<and> (\<exists>groups c1 tr2 perms cfin tr' before g rest segs seg.
      getUserAffiliatedGroups usersOnlyCache
          (WithToken (client (providerWith flakyHost usersOnlyCache)) ''user-token'') noOptions
          (map (directRequest ''user-token'' [AffiliationOwner, AffiliationCollaborator]) [1, 2])
        = Some (groups, None, c1, tr2)
      \<and> FetchUserPerms (providerWith flakyHost usersOnlyCache) (Some exampleAccount) noOptions []
        = Some (Some perms, Some (Wrap (New ''rate limit exceeded'') ''list repos for group''), cfin, tr')
      \<and> groups = before @ g # rest
      \<and> list_all2 (userGroupEvents (providerWith flakyHost usersOnlyCache) ''11'') before segs
      \<and> userGroupFailure (providerWith flakyHost usersOnlyCache) ''11'' g (New ''rate limit exceeded'') seg
      \<and> tr' = tr2 @ concat segs @ seg \<and> cfin = Some (fold replay (concat segs @ seg) c1)
      \<and> SetGroup (usersOnlyGroup\<lparr>Users := [''7'', ''11'']\<rparr>) \<in> set tr')
   \<and> (\<exists>groups c1 tr2 ids cfin tr' segs.
      getRepoAffiliatedGroups (providerWith exampleHost reposOnlyCache) reposOnlyCache ''initech'' ''app''
          noOptions
          (map (collaboratorRequest ''base-token'' ''initech'' ''app'' AffiliationDirect) [1, 2])
        = Some (groups, None, c1, tr2)
      \<and> FetchRepoPerms (providerWith exampleHost reposOnlyCache) (Some exampleRepo) noOptions []
        = Some (Some ids, None, cfin, tr')
      \<and> list_all2 (repoGroupEvents (providerWith exampleHost reposOnlyCache) ''initech'' ''r5'') groups segs
      \<and> tr' = tr2 @ concat segs \<and> cfin = Some (fold replay (concat segs) c1)
      \<and> SetGroup (reposOnlyGroup\<lparr>Repositories := [''r6'', ''r5''], Users := [''10'']\<rparr>) \<in> set tr')
   \<and> (\<exists>groups c1 tr2 ids cfin tr' before g rest segs seg.
      getRepoAffiliatedGroups (providerWith flakyHost reposOnlyCache) reposOnlyCache ''initech'' ''app''
          noOptions
          (map (collaboratorRequest ''base-token'' ''initech'' ''app'' AffiliationDirect) [1, 2])
        = Some (groups, None, c1, tr2)
      \<and> FetchRepoPerms (providerWith flakyHost reposOnlyCache) (Some exampleRepo) noOptions []
        = Some (Some ids, Some (Wrap (New ''rate limit exceeded'') ''list users for group''), cfin, tr')
      \<and> groups = before @ g # rest
      \<and> list_all2 (repoGroupEvents (providerWith flakyHost reposOnlyCache) ''initech'' ''r5'') before segs
      \<and> repoGroupFailure (providerWith flakyHost reposOnlyCache) ''initech'' ''r5'' g
           (New ''rate limit exceeded'') seg
      \<and> tr' = tr2 @ concat segs @ seg \<and> cfin = Some (fold replay (concat segs @ seg) c1)
      \<and> SetGroup (reposOnlyGroup\<lparr>Repositories := [''r6'', ''r5'']\<rparr>) \<in> set tr')"
proof -
  let ?tk = "\<lparr>AccessToken = ''user-token''\<rparr>"
  let ?affs = "[AffiliationOwner, AffiliationCollaborator]"
  let ?err = "New ''rate limit exceeded''"
  note pw = providerWith_simps
  have acct: "IsHostOfAccount githubDotCom exampleAccount"
    "GetExternalAccountData (AccountData exampleAccount) = (Some ?tk, None)"
    by code_simp+
  have aid: "AccountID (AccountSpec exampleAccount) = ''11''" by (simp add: exampleAccount_def)
  have repo: "IsHostOfRepo githubDotCom (ExternalRepoSpec exampleRepo)" by code_simp
  have nwo: "\<And>h c. nameWithOwner (providerWith h c) exampleRepo = Inr (''initech'', ''app'')"
    by (simp add: nameWithOwner_def pw) code_simp
  have rid: "RepoSpecID (ExternalRepoSpec exampleRepo) = ''r5''" by (simp add: exampleRepo_def)
  have same: "affiliatedRepositories flakyHost = affiliatedRepositories exampleHost"
    "repositoryCollaborators flakyHost = repositoryCollaborators exampleHost"
    by (simp_all add: flakyHost_def)
  have d1: "\<And>h. affiliatedRepositories h = affiliatedRepositories exampleHost \<Longrightarrow>
              snd (directPage h ''user-token'' ?affs 1) = (True, None)"
    and d2: "\<And>h. affiliatedRepositories h = affiliatedRepositories exampleHost \<Longrightarrow>
              snd (directPage h ''user-token'' ?affs 2) = (False, None)"
    by (simp_all add: directPage_def exampleHost_def)
  have k1: "\<And>h. repositoryCollaborators h = repositoryCollaborators exampleHost \<Longrightarrow>
              snd (collaboratorPage h ''base-token'' ''initech'' ''app'' AffiliationDirect 1) = (True, None)"
    and k2: "\<And>h. repositoryCollaborators h = repositoryCollaborators exampleHost \<Longrightarrow>
              snd (collaboratorPage h ''base-token'' ''initech'' ''app'' AffiliationDirect 2) = (False, None)"
    by (simp_all add: collaboratorPage_def exampleHost_def)
  have direct: "\<And>h. affiliatedRepositories h = affiliatedRepositories exampleHost \<Longrightarrow>
                  goesOn (directPage h ''user-token'' ?affs) 2"
    by (rule goesOn_2) (rule d1)
  have collab: "\<And>h. repositoryCollaborators h = repositoryCollaborators exampleHost \<Longrightarrow>
                  goesOn (collaboratorPage h ''base-token'' ''initech'' ''app'' AffiliationDirect) 2"
    by (rule goesOn_2) (rule k1)
  have two: "[1..<Suc 2] = [1, 2::nat]" by (simp add: upt_1_3)
  note T = cache_written_after_complete_enumeration
  let ?eng = "\<lparr>Org = ''acme'', Team = ''eng'', Repositories = [], Users = []\<rparr>"
  let ?ops = "\<lparr>Org = ''initech'', Team = ''ops'', Repositories = [], Users = []\<rparr>"
  let ?D = "map (directRequest ''user-token'' ?affs) [1, 2]
              @ [Request ''user-token'' (ReqGetAuthenticatedUserOrgsDetailsAndMembership 1),
                 Request ''user-token'' (ReqGetAuthenticatedUserTeams 1)]"
  \<comment> \<open>a complete fetch for an account, with a cached organization\<close>
  let ?P1 = "providerWith exampleHost partialCache"
  let ?G1 = "[partialGroup, ?eng, ?ops]"
  let ?T1 = "?D @ [SetGroup (partialGroup\<lparr>Users := [''7'', ''11'']\<rparr>),
                   Request ''base-token'' (ReqListTeamRepositories ''acme'' ''eng'' 1),
                   SetGroup (?eng\<lparr>Repositories := [''r4'']\<rparr>),
                   Request ''base-token'' (ReqListTeamRepositories ''initech'' ''ops'' 1),
                   SetGroup (?ops\<lparr>Repositories := [''r5'']\<rparr>)]"
  have "discoveryOutcome (getUserAffiliatedGroups partialCache (WithToken (client ?P1) ''user-token'') noOptions
           (map (directRequest ''user-token'' ?affs) [1, 2]))
        = Some (?G1, None, ?D)"
    by code_simp
  from discoveryOutcome_SomeD[OF this] obtain c1 where
    disc1: "getUserAffiliatedGroups partialCache (WithToken (client ?P1) ''user-token'') noOptions
           (map (directRequest ''user-token'' ?affs) [1, 2]) = Some (?G1, None, c1, ?D)"
    by blast
  have "withoutCache (FetchUserPerms ?P1 (Some exampleAccount) noOptions [])
        = Some (Some \<lparr>Exacts = [''r1'', ''r2'', ''r3'', ''r4'', ''r5'']\<rparr>, None, ?T1)"
    by code_simp
  from withoutCache_SomeD[OF this] obtain cfin1 where
    run1: "FetchUserPerms ?P1 (Some exampleAccount) noOptions []
        = Some (Some \<lparr>Exacts = [''r1'', ''r2'', ''r3'', ''r4'', ''r5'']\<rparr>, None, cfin1, ?T1)"
    by blast
  have h1: "IsHostOfAccount (codeHost ?P1) exampleAccount" by (simp add: pw acct)
  have h3: "groupsCache ?P1 = Some partialCache" by (simp add: pw)
  have h4: "1 \<le> (2::nat)" by simp
  have h5: "goesOn (directPage (codeHostAPI (client ?P1)) (AccessToken ?tk) (affiliationsOf ?P1)) 2"
    by (simp add: pw direct)
  have h6: "snd (directPage (codeHostAPI (client ?P1)) (AccessToken ?tk) (affiliationsOf ?P1) 2) = (False, None)"
    by (simp add: pw d2)
  have h7: "getUserAffiliatedGroups partialCache (WithToken (client ?P1) (AccessToken ?tk)) noOptions
              ([] @ map (directRequest (AccessToken ?tk) (affiliationsOf ?P1)) [1..<Suc 2])
            = Some (?G1, None, c1, ?D)"
    using disc1 by (simp add: pw upt_1_3)
  note C1 = T[where p = ?P1 and a = exampleAccount and t = ?tk and c = partialCache and m = 2
           and opts = noOptions and tr = "[]", THEN conjunct1, THEN mp,
           OF conjI[OF h1 conjI[OF acct(2) conjI[OF h3 conjI[OF h4 conjI[OF h5 conjI[OF h6 conjI[OF h7 run1]]]]]]]]
  from C1 obtain segs1 where
    a1: "list_all2 (userGroupEvents ?P1 ''11'') ?G1 segs1"
    and a2: "?T1 = ?D @ concat segs1" and a3: "cfin1 = Some (fold replay (concat segs1) c1)"
    unfolding aid by auto
  have a4: "SetGroup (partialGroup\<lparr>Users := [''7'', ''11'']\<rparr>) \<in> set ?T1" by simp
  have A: "\<exists>groups c1 tr2 perms cfin tr' segs.
      getUserAffiliatedGroups partialCache
          (WithToken (client (providerWith exampleHost partialCache)) ''user-token'') noOptions
          (map (directRequest ''user-token'' [AffiliationOwner, AffiliationCollaborator]) [1, 2])
        = Some (groups, None, c1, tr2)
      \<and> FetchUserPerms (providerWith exampleHost partialCache) (Some exampleAccount) noOptions []
        = Some (Some perms, None, cfin, tr')
      \<and> list_all2 (userGroupEvents (providerWith exampleHost partialCache) ''11'') groups segs
      \<and> tr' = tr2 @ concat segs \<and> cfin = Some (fold replay (concat segs) c1)
      \<and> SetGroup (partialGroup\<lparr>Users := [''7'', ''11'']\<rparr>) \<in> set tr'"
    apply (rule exI[of _ ?G1])
    apply (rule exI[of _ c1])
    apply (rule exI[of _ ?D])
    apply (rule exI[of _ "\<lparr>Exacts = [''r1'', ''r2'', ''r3'', ''r4'', ''r5'']\<rparr>"])
    apply (rule exI[of _ cfin1])
    apply (rule exI[of _ ?T1])
    apply (rule exI[of _ segs1])
    apply (intro conjI)
         apply (rule disc1)
        apply (rule run1)
       apply (rule a1)
      apply (rule a2)
     apply (rule a3)
    apply (rule a4)
    done
  \<comment> \<open>a fetch for an account whose cached organization is registered and then fails to list\<close>
  let ?P2 = "providerWith flakyHost usersOnlyCache"
  let ?G2 = "[usersOnlyGroup, ?eng, ?ops]"
  let ?T2 = "?D @ [SetGroup (usersOnlyGroup\<lparr>Users := [''7'', ''11'']\<rparr>),
                   Request ''base-token'' (ReqListOrgRepositories ''acme'' 1 []),
                   Request ''base-token'' (ReqListOrgRepositories ''acme'' 2 [])]"
  have "discoveryOutcome (getUserAffiliatedGroups usersOnlyCache (WithToken (client ?P2) ''user-token'') noOptions
           (map (directRequest ''user-token'' ?affs) [1, 2]))
        = Some (?G2, None, ?D)"
    by code_simp
  from discoveryOutcome_SomeD[OF this] obtain c2 where
    disc2: "getUserAffiliatedGroups usersOnlyCache (WithToken (client ?P2) ''user-token'') noOptions
           (map (directRequest ''user-token'' ?affs) [1, 2]) = Some (?G2, None, c2, ?D)"
    by blast
  have "withoutCache (FetchUserPerms ?P2 (Some exampleAccount) noOptions [])
        = Some (Some \<lparr>Exacts = [''r1'', ''r2'', ''r3'', ''r9'']\<rparr>,
                Some (Wrap ?err ''list repos for group''), ?T2)"
    by code_simp
  from withoutCache_SomeD[OF this] obtain cfin2 where
    run2: "FetchUserPerms ?P2 (Some exampleAccount) noOptions []
        = Some (Some \<lparr>Exacts = [''r1'', ''r2'', ''r3'', ''r9'']\<rparr>,
                Some (Wrap ?err ''list repos for group''), cfin2, ?T2)"
    by blast
  have g1: "IsHostOfAccount (codeHost ?P2) exampleAccount" by (simp add: pw acct)
  have g3: "groupsCache ?P2 = Some usersOnlyCache" by (simp add: pw)
  have g5: "goesOn (directPage (codeHostAPI (client ?P2)) (AccessToken ?tk) (affiliationsOf ?P2)) 2"
    by (simp add: pw direct same)
  have g6: "snd (directPage (codeHostAPI (client ?P2)) (AccessToken ?tk) (affiliationsOf ?P2) 2) = (False, None)"
    by (simp add: pw d2 same)
  have g7: "getUserAffiliatedGroups usersOnlyCache (WithToken (client ?P2) (AccessToken ?tk)) noOptions
              ([] @ map (directRequest (AccessToken ?tk) (affiliationsOf ?P2)) [1..<Suc 2])
            = Some (?G2, None, c2, ?D)"
    using disc2 by (simp add: pw upt_1_3)
  note C2 = T[where p = ?P2 and a = exampleAccount and t = ?tk and c = usersOnlyCache and m = 2
           and opts = noOptions and tr = "[]", THEN conjunct1, THEN mp,
           OF conjI[OF g1 conjI[OF acct(2) conjI[OF g3 conjI[OF h4 conjI[OF g5 conjI[OF g6 conjI[OF g7 run2]]]]]]]]
  from C2 obtain before2 gf2 rest2 segs2 seg2 where
    b1: "?G2 = before2 @ gf2 # rest2"
    and b2: "list_all2 (userGroupEvents ?P2 ''11'') before2 segs2"
    and b3: "userGroupFailure ?P2 ''11'' gf2 ?err seg2"
    and b4: "?T2 = ?D @ concat segs2 @ seg2"
    and b5: "cfin2 = Some (fold replay (concat segs2 @ seg2) c2)"
    unfolding aid by auto
  have b6: "SetGroup (usersOnlyGroup\<lparr>Users := [''7'', ''11'']\<rparr>) \<in> set ?T2" by simp
  have B: "\<exists>groups c1 tr2 perms cfin tr' before g rest segs seg.
      getUserAffiliatedGroups usersOnlyCache
          (WithToken (client (providerWith flakyHost usersOnlyCache)) ''user-token'') noOptions
          (map (directRequest ''user-token'' [AffiliationOwner, AffiliationCollaborator]) [1, 2])
        = Some (groups, None, c1, tr2)
      \<and> FetchUserPerms (providerWith flakyHost usersOnlyCache) (Some exampleAccount) noOptions []
        = Some (Some perms, Some (Wrap (New ''rate limit exceeded'') ''list repos for group''), cfin, tr')
      \<and> groups = before @ g # rest
      \<and> list_all2 (userGroupEvents (providerWith flakyHost usersOnlyCache) ''11'') before segs
      \<and> userGroupFailure (providerWith flakyHost usersOnlyCache) ''11'' g (New ''rate limit exceeded'') seg
      \<and> tr' = tr2 @ concat segs @ seg \<and> cfin = Some (fold replay (concat segs @ seg) c1)
      \<and> SetGroup (usersOnlyGroup\<lparr>Users := [''7'', ''11'']\<rparr>) \<in> set tr'"
    apply (rule exI[of _ ?G2])
    apply (rule exI[of _ c2])
    apply (rule exI[of _ ?D])
    apply (rule exI[of _ "\<lparr>Exacts = [''r1'', ''r2'', ''r3'', ''r9'']\<rparr>"])
    apply (rule exI[of _ cfin2])
    apply (rule exI[of _ ?T2])
    apply (rule exI[of _ before2])
    apply (rule exI[of _ gf2])
    apply (rule exI[of _ rest2])
    apply (rule exI[of _ segs2])
    apply (rule exI[of _ seg2])
    apply (intro conjI)
           apply (rule disc2)
          apply (rule run2)
         apply (rule b1)
        apply (rule b2)
       apply (rule b3)
      apply (rule b4)
     apply (rule b5)
    apply (rule b6)
    done
  \<comment> \<open>a complete fetch for a repository, with a cached organization\<close>
  let ?rorg = "\<lparr>embedded = reposOnlyGroup, adminsOnly = True\<rparr>"
  let ?rops = "\<lparr>embedded = ?ops, adminsOnly = False\<rparr>"
  let ?G3 = "[?rorg, ?rops]"
  let ?DR = "map (collaboratorRequest ''base-token'' ''initech'' ''app'' AffiliationDirect) [1, 2]
               @ [Request ''base-token'' (ReqGetOrganization ''initech''),
                  Request ''base-token'' (ReqListRepositoryTeams ''initech'' ''app'' 1)]"
  let ?P3 = "providerWith exampleHost reposOnlyCache"
  let ?T3 = "?DR @ [SetGroup (reposOnlyGroup\<lparr>Repositories := [''r6'', ''r5'']\<rparr>),
                    Request ''base-token'' (ReqListOrganizationMembers ''initech'' 1 True),
                    SetGroup (reposOnlyGroup\<lparr>Repositories := [''r6'', ''r5''], Users := [''10'']\<rparr>),
                    Request ''base-token'' (ReqListTeamMembers ''initech'' ''ops'' 1),
                    SetGroup (?ops\<lparr>Users := [''13'', ''11'']\<rparr>)]"
  have "discoveryOutcome (getRepoAffiliatedGroups ?P3 reposOnlyCache ''initech'' ''app'' noOptions
           (map (collaboratorRequest ''base-token'' ''initech'' ''app'' AffiliationDirect) [1, 2]))
        = Some (?G3, None, ?DR)"
    by code_simp
  from discoveryOutcome_SomeD[OF this] obtain c3 where
    disc3: "getRepoAffiliatedGroups ?P3 reposOnlyCache ''initech'' ''app'' noOptions
           (map (collaboratorRequest ''base-token'' ''initech'' ''app'' AffiliationDirect) [1, 2])
          = Some (?G3, None, c3, ?DR)"
    by blast
  have "withoutCache (FetchRepoPerms ?P3 (Some exampleRepo) noOptions [])
        = Some (Some [''10'', ''11'', ''12'', ''13''], None, ?T3)"
    by code_simp
  from withoutCache_SomeD[OF this] obtain cfin3 where
    run3: "FetchRepoPerms ?P3 (Some exampleRepo) noOptions []
        = Some (Some [''10'', ''11'', ''12'', ''13''], None, cfin3, ?T3)"
    by blast
  have r1: "IsHostOfRepo (codeHost ?P3) (ExternalRepoSpec exampleRepo)" by (simp add: pw repo)
  have r3: "groupsCache ?P3 = Some reposOnlyCache" by (simp add: pw)
  have r5: "goesOn (collaboratorPage (codeHostAPI (client ?P3)) (token (client ?P3)) ''initech'' ''app''
                      (collaboratorAffiliationOf ?P3)) 2"
    by (simp add: pw collab)
  have r6: "snd (collaboratorPage (codeHostAPI (client ?P3)) (token (client ?P3)) ''initech'' ''app''
                   (collaboratorAffiliationOf ?P3) 2) = (False, None)"
    by (simp add: pw k2)
  have r7: "getRepoAffiliatedGroups ?P3 reposOnlyCache ''initech'' ''app'' noOptions
              ([] @ map (collaboratorRequest (token (client ?P3)) ''initech'' ''app''
                           (collaboratorAffiliationOf ?P3)) [1..<Suc 2])
            = Some (?G3, None, c3, ?DR)"
    using disc3 by (simp add: pw upt_1_3)
  note C3 = T[where p = ?P3 and r = exampleRepo and owner = "''initech''" and name = "''app''"
           and c = reposOnlyCache and m = 2 and opts = noOptions and tr = "[]",
           THEN conjunct2, THEN mp,
           OF conjI[OF r1 conjI[OF nwo conjI[OF r3 conjI[OF h4 conjI[OF r5 conjI[OF r6 conjI[OF r7 run3]]]]]]]]
  from C3 obtain segs3 where
    c1': "list_all2 (repoGroupEvents ?P3 ''initech'' ''r5'') ?G3 segs3"
    and c2': "?T3 = ?DR @ concat segs3" and c3': "cfin3 = Some (fold replay (concat segs3) c3)"
    unfolding rid by auto
  have c4': "SetGroup (reposOnlyGroup\<lparr>Repositories := [''r6'', ''r5''], Users := [''10'']\<rparr>) \<in> set ?T3"
    by simp
  have Cc: "\<exists>groups c1 tr2 ids cfin tr' segs.
      getRepoAffiliatedGroups (providerWith exampleHost reposOnlyCache) reposOnlyCache ''initech'' ''app''
          noOptions
          (map (collaboratorRequest ''base-token'' ''initech'' ''app'' AffiliationDirect) [1, 2])
        = Some (groups, None, c1, tr2)
      \<and> FetchRepoPerms (providerWith exampleHost reposOnlyCache) (Some exampleRepo) noOptions []
        = Some (Some ids, None, cfin, tr')
      \<and> list_all2 (repoGroupEvents (providerWith exampleHost reposOnlyCache) ''initech'' ''r5'') groups segs
      \<and> tr' = tr2 @ concat segs \<and> cfin = Some (fold replay (concat segs) c1)
      \<and> SetGroup (reposOnlyGroup\<lparr>Repositories := [''r6'', ''r5''], Users := [''10'']\<rparr>) \<in> set tr'"
    apply (rule exI[of _ ?G3])
    apply (rule exI[of _ c3])
    apply (rule exI[of _ ?DR])
    apply (rule exI[of _ "[''10'', ''11'', ''12'', ''13'']"])
    apply (rule exI[of _ cfin3])
    apply (rule exI[of _ ?T3])
    apply (rule exI[of _ segs3])
    apply (intro conjI)
         apply (rule disc3)
        apply (rule run3)
       apply (rule c1')
      apply (rule c2')
     apply (rule c3')
    apply (rule c4')
    done
  \<comment> \<open>a fetch for a repository whose cached organization is registered and then fails to list\<close>
  let ?P4 = "providerWith flakyHost reposOnlyCache"
  let ?T4 = "?DR @ [SetGroup (reposOnlyGroup\<lparr>Repositories := [''r6'', ''r5'']\<rparr>),
                    Request ''base-token'' (ReqListOrganizationMembers ''initech'' 1 True),
                    Request ''base-token'' (ReqListOrganizationMembers ''initech'' 2 True)]"
  have "discoveryOutcome (getRepoAffiliatedGroups ?P4 reposOnlyCache ''initech'' ''app'' noOptions
           (map (collaboratorRequest ''base-token'' ''initech'' ''app'' AffiliationDirect) [1, 2]))
        = Some (?G3, None, ?DR)"
    by code_simp
  from discoveryOutcome_SomeD[OF this] obtain c4 where
    disc4: "getRepoAffiliatedGroups ?P4 reposOnlyCache ''initech'' ''app'' noOptions
           (map (collaboratorRequest ''base-token'' ''initech'' ''app'' AffiliationDirect) [1, 2])
          = Some (?G3, None, c4, ?DR)"
    by blast
  have "withoutCache (FetchRepoPerms ?P4 (Some exampleRepo) noOptions [])
        = Some (Some [''10'', ''11'', ''12''], Some (Wrap ?err ''list users for group''), ?T4)"
    by code_simp
  from withoutCache_SomeD[OF this] obtain cfin4 where
    run4: "FetchRepoPerms ?P4 (Some exampleRepo) noOptions []
        = Some (Some [''10'', ''11'', ''12''], Some (Wrap ?err ''list users for group''), cfin4, ?T4)"
    by blast
  have s1: "IsHostOfRepo (codeHost ?P4) (ExternalRepoSpec exampleRepo)" by (simp add: pw repo)
  have s3: "groupsCache ?P4 = Some reposOnlyCache" by (simp add: pw)
  have s5: "goesOn (collaboratorPage (codeHostAPI (client ?P4)) (token (client ?P4)) ''initech'' ''app''
                      (collaboratorAffiliationOf ?P4)) 2"
    by (simp add: pw collab same)
  have s6: "snd (collaboratorPage (codeHostAPI (client ?P4)) (token (client ?P4)) ''initech'' ''app''
                   (collaboratorAffiliationOf ?P4) 2) = (False, None)"
    by (simp add: pw k2 same)
  have s7: "getRepoAffiliatedGroups ?P4 reposOnlyCache ''initech'' ''app'' noOptions
              ([] @ map (collaboratorRequest (token (client ?P4)) ''initech'' ''app''
                           (collaboratorAffiliationOf ?P4)) [1..<Suc 2])
            = Some (?G3, None, c4, ?DR)"
    using disc4 by (simp add: pw upt_1_3)
  note C4 = T[where p = ?P4 and r = exampleRepo and owner = "''initech''" and name = "''app''"
           and c = reposOnlyCache and m = 2 and opts = noOptions and tr = "[]",
           THEN conjunct2, THEN mp,
           OF conjI[OF s1 conjI[OF nwo conjI[OF s3 conjI[OF h4 conjI[OF s5 conjI[OF s6 conjI[OF s7 run4]]]]]]]]
  from C4 obtain before4 gf4 rest4 segs4 seg4 where
    e1: "?G3 = before4 @ gf4 # rest4"
    and e2: "list_all2 (repoGroupEvents ?P4 ''initech'' ''r5'') before4 segs4"
    and e3: "repoGroupFailure ?P4 ''initech'' ''r5'' gf4 ?err seg4"
    and e4: "?T4 = ?DR @ concat segs4 @ seg4"
    and e5: "cfin4 = Some (fold replay (concat segs4 @ seg4) c4)"
    unfolding rid by auto
  have e6: "SetGroup (reposOnlyGroup\<lparr>Repositories := [''r6'', ''r5'']\<rparr>) \<in> set ?T4" by simp
  have Dd: "\<exists>groups c1 tr2 ids cfin tr' before g rest segs seg.
      getRepoAffiliatedGroups (providerWith flakyHost reposOnlyCache) reposOnlyCache ''initech'' ''app''
          noOptions
          (map (collaboratorRequest ''base-token'' ''initech'' ''app'' AffiliationDirect) [1, 2])
        = Some (groups, None, c1, tr2)
      \<and> FetchRepoPerms (providerWith flakyHost reposOnlyCache) (Some exampleRepo) noOptions []
        = Some (Some ids, Some (Wrap (New ''rate limit exceeded'') ''list users for group''), cfin, tr')
      \<and> groups = before @ g # rest
      \<and> list_all2 (repoGroupEvents (providerWith flakyHost reposOnlyCache) ''initech'' ''r5'') before segs
      \<and> repoGroupFailure (providerWith flakyHost reposOnlyCache) ''initech'' ''r5'' g
           (New ''rate limit exceeded'') seg
      \<and> tr' = tr2 @ concat segs @ seg \<and> cfin = Some (fold replay (concat segs @ seg) c1)
      \<and> SetGroup (reposOnlyGroup\<lparr>Repositories := [''r6'', ''r5'']\<rparr>) \<in> set tr'"
    apply (rule exI[of _ ?G3])
    apply (rule exI[of _ c4])
    apply (rule exI[of _ ?DR])
    apply (rule exI[of _ "[''10'', ''11'', ''12'']"])
    apply (rule exI[of _ cfin4])
    apply (rule exI[of _ ?T4])
    apply (rule exI[of _ before4])
    apply (rule exI[of _ gf4])
    apply (rule exI[of _ rest4])
    apply (rule exI[of _ segs4])
    apply (rule exI[of _ seg4])
    apply (intro conjI)
           apply (rule disc4)
          apply (rule run4)
         apply (rule e1)
        apply (rule e2)
       apply (rule e3)
      apply (rule e4)
     apply (rule e5)
    apply (rule e6)
    done
  show ?thesis
    apply (intro conjI)
       apply (rule A)
      apply (rule B)
     apply (rule Cc)
    apply (rule Dd)
    done
qed


text \<open>
  Claim C6, at the input where the code departs from it: the account of the examples is
  a member of \<open>acme\<close>, which is included as a whole organization, and of its team
  \<open>eng\<close>, which has repositories; nothing is cached. Discovery returns the team
  \<open>eng\<close> of \<open>acme\<close> as a group after \<open>acme\<close> itself; the team \<open>idle\<close>, which has no
  repository, is left out.
\<close>

theorem team_of_included_organization_is_included:
  "discovered (getUserAffiliatedGroups Map.empty (WithToken (client exampleProvider) ''user-token'')
                 noOptions [])
   = Some ([(''acme'', []), (''acme'', ''eng''), (''initech'', ''ops'')], None)"
  by code_simp

text \<open>
  Claim C8. For a repository of the provider's code host, with group caching enabled:
  when the lookup of the owner's organization fails, \<open>getRepoAffiliatedGroups\<close> returns
  no group, and no error if the failure is a not-found answer, the error itself otherwise.
  When the listing of the direct collaborators has \<open>n\<close> pages, \<open>FetchRepoPerms\<close> then
  returns exactly the collaborators of those pages, none twice, without an error after a
  not-found answer, and with the lookup's error, wrapped, otherwise; the only requests are
  those of the listing and the lookup.
\<close>

theorem not_found_is_no_organization:
  assumes host: "IsHostOfRepo (codeHost p) (ExternalRepoSpec r)"
    and name: "nameWithOwner p r = Inr (owner, name)"
    and cache: "groupsCache p = Some c"
    and lookup: "getOrganization (codeHostAPI (client p)) (token (client p)) owner = (org, Some e)"
    and n: "1 \<le> n"
    and goes: "goesOn (collaboratorPage (codeHostAPI (client p)) (token (client p)) owner name AffiliationDirect) n"
    and last: "snd (collaboratorPage (codeHostAPI (client p)) (token (client p)) owner name AffiliationDirect n)
                 = (False, None)"
  shows "getRepoAffiliatedGroups p c owner name opts tr0
           = Some ([], if IsNotFound e then None else Some e, c,
                   tr0 @ [Request (token (client p)) (ReqGetOrganization owner)])
       \<and> (\<exists>ids. FetchRepoPerms p (Some r) opts tr
             = Some (Some ids,
                     if IsNotFound e then None else Some (Wrap e ''get groups affiliated with repo''),
                     Some c,
                     tr @ map (collaboratorRequest (token (client p)) owner name AffiliationDirect) [1..<Suc n]
                        @ [Request (token (client p)) (ReqGetOrganization owner)])
           \<and> distinct ids
           \<and> set ids = accountIDOf ` set (itemsBefore
                 (collaboratorPage (codeHostAPI (client p)) (token (client p)) owner name AffiliationDirect)
                 (Suc n)))"
proof
  show "getRepoAffiliatedGroups p c owner name opts tr0
           = Some ([], if IsNotFound e then None else Some e, c,
                   tr0 @ [Request (token (client p)) (ReqGetOrganization owner)])"
    by (rule getRepoAffiliatedGroups_lookup_error[OF lookup])
next
  let ?list = "collaboratorPage (codeHostAPI (client p)) (token (client p)) owner name AffiliationDirect"
  let ?acc = "fold (\<lambda>u. addUserToRepoPerms [FormatInt (DatabaseID u)]) (itemsBefore ?list (Suc n)) ([], {})"
  obtain items where l: "?list n = (items, False, None)" using last by (cases "?list n") auto
  have ok0: "repoPermsOK ([], {})" by (simp add: repoPermsOK_def)
  have aff: "(if groupsCache p = None then AffiliationAny else AffiliationDirect) = AffiliationDirect"
    using cache by simp
  from fold_addUser_result[OF ok0, of "itemsBefore ?list (Suc n)"]
  have d: "distinct (fst ?acc)" and s: "set (fst ?acc) = accountIDOf ` set (itemsBefore ?list (Suc n))"
    by simp_all
  have "FetchRepoPerms p (Some r) opts tr
        = Some (Some (fst ?acc),
                if IsNotFound e then None else Some (Wrap e ''get groups affiliated with repo''),
                Some c,
                tr @ map (collaboratorRequest (token (client p)) owner name AffiliationDirect) [1..<Suc n]
                   @ [Request (token (client p)) (ReqGetOrganization owner)])"
    unfolding FetchRepoPerms_valid[OF host name] aff
    by (subst collaborators_phase_completes[OF goes n l])
       (simp add: cache getRepoAffiliatedGroups_lookup_error[OF lookup])
  with d s show "\<exists>ids. FetchRepoPerms p (Some r) opts tr
             = Some (Some ids,
                     if IsNotFound e then None else Some (Wrap e ''get groups affiliated with repo''),
                     Some c,
                     tr @ map (collaboratorRequest (token (client p)) owner name AffiliationDirect) [1..<Suc n]
                        @ [Request (token (client p)) (ReqGetOrganization owner)])
           \<and> distinct ids
           \<and> set ids = accountIDOf ` set (itemsBefore ?list (Suc n))"
    by blast
qed

text \<open>Witness: a repository owned by the user \<open>alice\<close>, for whom no organization is
  found, and a code host whose lookup fails with another error.\<close>

theorem not_found_is_no_organization_witness:
  "getRepoAffiliatedGroups exampleProvider Map.empty ''alice'' ''dotfiles'' noOptions []
     = Some ([], None, Map.empty, [Request ''base-token'' (ReqGetOrganization ''alice'')])
   \<and> (\<exists>ids. FetchRepoPerms exampleProvider (Some userOwnedRepo) noOptions []
         = Some (Some ids, None, Some Map.empty,
                 [Request ''base-token'' (ReqListRepositoryCollaborators ''alice'' ''dotfiles'' 1 AffiliationDirect),
                  Request ''base-token'' (ReqGetOrganization ''alice'')])
       \<and> set ids = {''20''})
   \<and> (\<exists>ids. FetchRepoPerms brokenLookupProvider (Some exampleRepo) noOptions []
         = Some (Some ids, Some (Wrap (New ''bad gateway'') ''get groups affiliated with repo''),
                 Some Map.empty,
                 [Request ''base-token'' (ReqListRepositoryCollaborators ''initech'' ''app'' 1 AffiliationDirect),
                  Request ''base-token'' (ReqListRepositoryCollaborators ''initech'' ''app'' 2 AffiliationDirect),
                  Request ''base-token'' (ReqGetOrganization ''initech'')])
       \<and> set ids = {''10'', ''11'', ''12''})"
proof -
  let ?alice = "collaboratorPage (codeHostAPI (client exampleProvider)) (token (client exampleProvider))
                  ''alice'' ''dotfiles'' AffiliationDirect"
  let ?app = "collaboratorPage (codeHostAPI (client brokenLookupProvider)) (token (client brokenLookupProvider))
                  ''initech'' ''app'' AffiliationDirect"
  have host: "IsHostOfRepo (codeHost exampleProvider) (ExternalRepoSpec userOwnedRepo)"
    and host': "IsHostOfRepo (codeHost brokenLookupProvider) (ExternalRepoSpec exampleRepo)"
    by code_simp+
  have name: "nameWithOwner exampleProvider userOwnedRepo = Inr (''alice'', ''dotfiles'')"
    and name': "nameWithOwner brokenLookupProvider exampleRepo = Inr (''initech'', ''app'')"
    by code_simp+
  have cache: "groupsCache exampleProvider = Some Map.empty"
    and cache': "groupsCache brokenLookupProvider = Some Map.empty"
    by (simp_all add: exampleProvider_def brokenLookupProvider_def)
  have tk: "token (client exampleProvider) = ''base-token''"
    "token (client brokenLookupProvider) = ''base-token''"
    by (simp_all add: exampleProvider_def brokenLookupProvider_def)
  have lookup: "getOrganization (codeHostAPI (client exampleProvider)) (token (client exampleProvider)) ''alice''
                  = (None, Some NotFound)"
    and lookup': "getOrganization (codeHostAPI (client brokenLookupProvider)) (token (client brokenLookupProvider)) ''initech''
                  = (None, Some (New ''bad gateway''))"
    by (simp_all add: exampleProvider_def brokenLookupProvider_def exampleHost_def)
  have a1: "?alice 1 = ([\<lparr>DatabaseID = 20\<rparr>], False, None)"
    and b1: "?app 1 = ([\<lparr>DatabaseID = 10\<rparr>, \<lparr>DatabaseID = 11\<rparr>], True, None)"
    and b2: "?app 2 = ([\<lparr>DatabaseID = 11\<rparr>, \<lparr>DatabaseID = 12\<rparr>], False, None)"
    by (simp_all add: collaboratorPage_def exampleProvider_def brokenLookupProvider_def exampleHost_def)
  have ids: "accountIDOf \<lparr>DatabaseID = 20\<rparr> = ''20''" "accountIDOf \<lparr>DatabaseID = 10\<rparr> = ''10''"
    "accountIDOf \<lparr>DatabaseID = 11\<rparr> = ''11''" "accountIDOf \<lparr>DatabaseID = 12\<rparr> = ''12''"
    by code_simp+
  have g1: "goesOn ?alice 1" by simp
  have g2: "goesOn ?app 2" using b1 by (intro goesOn_2) simp
  have l1: "snd (?alice 1) = (False, None)" using a1 by simp
  have l2: "snd (?app 2) = (False, None)" using b2 by simp
  note T1 = not_found_is_no_organization[OF host name cache lookup _ g1 l1, of noOptions "[]" "[]"]
  note T2 = not_found_is_no_organization[OF host' name' cache' lookup' _ g2 l2, of noOptions "[]" "[]"]
  have A: "getRepoAffiliatedGroups exampleProvider Map.empty ''alice'' ''dotfiles'' noOptions []
     = Some ([], None, Map.empty, [Request ''base-token'' (ReqGetOrganization ''alice'')])"
    using T1[THEN conjunct1] by (simp add: tk)
  have B: "\<exists>ids. FetchRepoPerms exampleProvider (Some userOwnedRepo) noOptions []
         = Some (Some ids, None, Some Map.empty,
                 [Request ''base-token'' (ReqListRepositoryCollaborators ''alice'' ''dotfiles'' 1 AffiliationDirect),
                  Request ''base-token'' (ReqGetOrganization ''alice'')])
       \<and> set ids = {''20''}"
    using T1[THEN conjunct2] a1
    by (auto simp: tk collaboratorRequest_def itemsBefore_def upt_1_3 ids)
  have C: "\<exists>ids. FetchRepoPerms brokenLookupProvider (Some exampleRepo) noOptions []
         = Some (Some ids, Some (Wrap (New ''bad gateway'') ''get groups affiliated with repo''),
                 Some Map.empty,
                 [Request ''base-token'' (ReqListRepositoryCollaborators ''initech'' ''app'' 1 AffiliationDirect),
                  Request ''base-token'' (ReqListRepositoryCollaborators ''initech'' ''app'' 2 AffiliationDirect),
                  Request ''base-token'' (ReqGetOrganization ''initech'')])
       \<and> set ids = {''10'', ''11'', ''12''}"
    using T2[THEN conjunct2] b1 b2
    by (auto simp: tk collaboratorRequest_def itemsBefore_def upt_1_3 ids)
  from A B C show ?thesis by blast
qed

text \<open>
  Claim C4, at an input where it fails: on a code host whose listing of the repositories
  of an organization fails on its second page and returns the repository \<open>r9\<close> with the
  failure, the fetch for the account of the examples returns the error together with
  \<open>r1\<close>, \<open>r2\<close> (direct listing), \<open>r3\<close> (first page of the organization) and also
  \<open>r9\<close>, an item of the failing page.
\<close>

theorem failing_page_of_group_repositories_is_kept:
  "groupPage flakyProvider True acmeGroup 2
     = ([\<lparr>ID = ''r9''\<rparr>], False, Some (New ''rate limit exceeded''))
   \<and> withoutCache (FetchUserPerms flakyProvider (Some exampleAccount) noOptions [])
     = Some (Some \<lparr>Exacts = [''r1'', ''r2'', ''r3'', ''r9'']\<rparr>,
             Some (Wrap (New ''rate limit exceeded'') ''list repos for group''),
             [Request ''user-token'' (ReqListAffiliatedRepositories VisibilityPrivate 1
                [AffiliationOwner, AffiliationCollaborator]),
              Request ''user-token'' (ReqListAffiliatedRepositories VisibilityPrivate 2
                [AffiliationOwner, AffiliationCollaborator]),
              Request ''user-token'' (ReqGetAuthenticatedUserOrgsDetailsAndMembership 1),
              Request ''user-token'' (ReqGetAuthenticatedUserTeams 1),
              Request ''base-token'' (ReqListOrgRepositories ''acme'' 1 []),
              Request ''base-token'' (ReqListOrgRepositories ''acme'' 2 [])])"
  by code_simp


text \<open>
  Claim C4, amended. When page \<open>n\<close> of a listing fails after pages \<open>1\<close> to \<open>n - 1\<close>
  succeeded and announced a next page, the fetch returns the wrapped error and a
  duplicate-free result, which holds
  \<^item> for the direct listing of \<open>FetchUserPerms\<close>: the repositories of pages \<open>1\<close> to
    \<open>n - 1\<close>;
  \<^item> for the listing of the collaborators of \<open>FetchRepoPerms\<close>: the users of pages
    \<open>1\<close> to \<open>n - 1\<close>;
  \<^item> for the listings of group discovery (organizations or teams of the user, teams of
    the repository), with group caching enabled and a direct listing of \<open>m\<close> pages:
    all the items of the direct listing;
  \<^item> for the listing of the repositories of a group \<open>g\<close> in \<open>FetchUserPerms\<close>, with
    group caching enabled, a direct listing of \<open>m\<close> pages, a discovery that returns
    the groups without an error, and groups before \<open>g\<close> whose repositories are cached
    or whose listing ends without an error: all the items of the direct listing, the
    repositories of the groups before \<open>g\<close>, the repositories of pages \<open>1\<close> to
    \<open>n - 1\<close> of \<open>g\<close>, and the repositories that came with the failing page \<open>n\<close>;
  \<^item> for the listing of the members of a group \<open>rg\<close> in \<open>FetchRepoPerms\<close>, under the
    same conditions: all the collaborators, the users of the groups before \<open>rg\<close> and
    the users of pages \<open>1\<close> to \<open>n - 1\<close> of \<open>rg\<close>.
\<close>

theorem partial_result_on_failing_page:
  "(IsHostOfAccount (codeHost p) a \<and> GetExternalAccountData (AccountData a) = (Some t, None)
      \<and> 1 \<le> n \<and> goesOn (directPage (codeHostAPI (client p)) (AccessToken t) (affiliationsOf p)) n
      \<and> directPage (codeHostAPI (client p)) (AccessToken t) (affiliationsOf p) n = (items, hn, Some e)
    \<longrightarrow> (\<exists>perms. FetchUserPerms p (Some a) opts tr
             = Some (Some perms, Some (Wrap e ''list repos for user''), groupsCache p,
                     tr @ map (directRequest (AccessToken t) (affiliationsOf p)) [1..<Suc n])
           \<and> distinct (Exacts perms)
           \<and> set (Exacts perms)
               = ID ` set (itemsBefore (directPage (codeHostAPI (client p)) (AccessToken t) (affiliationsOf p)) n)))
   \<and> (IsHostOfRepo (codeHost p) (ExternalRepoSpec r) \<and> nameWithOwner p r = Inr (owner, name)
      \<and> 1 \<le> n
      \<and> goesOn (collaboratorPage (codeHostAPI (client p)) (token (client p)) owner name
                   (collaboratorAffiliationOf p)) n
      \<and> collaboratorPage (codeHostAPI (client p)) (token (client p)) owner name
           (collaboratorAffiliationOf p) n = (users, hn, Some e)
    \<longrightarrow> (\<exists>ids. FetchRepoPerms p (Some r) opts tr
             = Some (Some ids, Some (Wrap e ''list users for repo''), groupsCache p,
                     tr @ map (collaboratorRequest (token (client p)) owner name (collaboratorAffiliationOf p))
                            [1..<Suc n])
           \<and> distinct ids
           \<and> set ids = accountIDOf ` set (itemsBefore
                 (collaboratorPage (codeHostAPI (client p)) (token (client p)) owner name
                    (collaboratorAffiliationOf p)) n)))
   \<and> (IsHostOfAccount (codeHost p) a \<and> GetExternalAccountData (AccountData a) = (Some t, None)
      \<and> groupsCache p = Some c
      \<and> 1 \<le> m \<and> goesOn (directPage (codeHostAPI (client p)) (AccessToken t) (affiliationsOf p)) m
      \<and> snd (directPage (codeHostAPI (client p)) (AccessToken t) (affiliationsOf p) m) = (False, None)
      \<and> 1 \<le> n
      \<and> ((goesOn (userOrgsPage (codeHostAPI (client p)) (AccessToken t)) n
           \<and> userOrgsPage (codeHostAPI (client p)) (AccessToken t) n = (orgs, hn, Some e))
         \<or> (1 \<le> j \<and> goesOn (userOrgsPage (codeHostAPI (client p)) (AccessToken t)) j
           \<and> snd (userOrgsPage (codeHostAPI (client p)) (AccessToken t) j) = (False, None)
           \<and> goesOn (userTeamsPage (codeHostAPI (client p)) (AccessToken t)) n
           \<and> userTeamsPage (codeHostAPI (client p)) (AccessToken t) n = (teams, hn, Some e)))
    \<longrightarrow> (\<exists>perms c1 tr1. FetchUserPerms p (Some a) opts tr
             = Some (Some perms, Some (Wrap e ''get groups affiliated with user''), Some c1, tr1)
           \<and> distinct (Exacts perms)
           \<and> set (Exacts perms)
               = ID ` set (itemsBefore (directPage (codeHostAPI (client p)) (AccessToken t) (affiliationsOf p))
                             (Suc m))))
   \<and> (IsHostOfRepo (codeHost p) (ExternalRepoSpec r) \<and> nameWithOwner p r = Inr (owner, name)
      \<and> groupsCache p = Some c
      \<and> 1 \<le> m
      \<and> goesOn (collaboratorPage (codeHostAPI (client p)) (token (client p)) owner name
                   (collaboratorAffiliationOf p)) m
      \<and> snd (collaboratorPage (codeHostAPI (client p)) (token (client p)) owner name
                (collaboratorAffiliationOf p) m) = (False, None)
      \<and> getOrganization (codeHostAPI (client p)) (token (client p)) owner = (org, None)
      \<and> \<not> canViewOrgRepos \<lparr>OrgDetails = org, OrgMembership = None\<rparr>
      \<and> 1 \<le> n
      \<and> goesOn (repoTeamsPage (codeHostAPI (client p)) (token (client p)) owner name) n
      \<and> repoTeamsPage (codeHostAPI (client p)) (token (client p)) owner name n = (teams, hn, Some e)
    \<longrightarrow> (\<exists>ids c1 tr1. FetchRepoPerms p (Some r) opts tr
             = Some (Some ids, Some (Wrap e ''get groups affiliated with repo''), Some c1, tr1)
           \<and> distinct ids
           \<and> set ids = accountIDOf ` set (itemsBefore
                 (collaboratorPage (codeHostAPI (client p)) (token (client p)) owner name
                    (collaboratorAffiliationOf p)) (Suc m))))
   \<and> (IsHostOfAccount (codeHost p) a \<and> GetExternalAccountData (AccountData a) = (Some t, None)
      \<and> groupsCache p = Some c
      \<and> 1 \<le> m \<and> goesOn (directPage (codeHostAPI (client p)) (AccessToken t) (affiliationsOf p)) m
      \<and> snd (directPage (codeHostAPI (client p)) (AccessToken t) (affiliationsOf p) m) = (False, None)
      \<and> getUserAffiliatedGroups c (WithToken (client p) (AccessToken t)) opts
           (tr @ map (directRequest (AccessToken t) (affiliationsOf p)) [1..<Suc m])
         = Some (before @ g # rest, None, c1, tr2)
      \<and> (\<forall>g' \<in> set before. Repositories g' \<noteq> [] \<or> endsWell (groupPage p (Team g' = []) g'))
      \<and> Repositories g = []
      \<and> 1 \<le> n \<and> goesOn (groupPage p (Team g = []) g) n
      \<and> groupPage p (Team g = []) g n = (items, hn, Some e)
    \<longrightarrow> (\<exists>perms cfin tr'. FetchUserPerms p (Some a) opts tr
             = Some (Some perms, Some (Wrap e ''list repos for group''), Some cfin, tr')
           \<and> distinct (Exacts perms)
           \<and> set (Exacts perms)
               = ID ` set (itemsBefore (directPage (codeHostAPI (client p)) (AccessToken t) (affiliationsOf p))
                             (Suc m))
                 \<union> (\<Union>g' \<in> set before. groupRepositories p g')
                 \<union> ID ` set (itemsBefore (groupPage p (Team g = []) g) n) \<union> ID ` set items))
   \<and> (IsHostOfRepo (codeHost p) (ExternalRepoSpec r) \<and> nameWithOwner p r = Inr (owner, name)
      \<and> groupsCache p = Some c
      \<and> 1 \<le> m
      \<and> goesOn (collaboratorPage (codeHostAPI (client p)) (token (client p)) owner name
                   (collaboratorAffiliationOf p)) m
      \<and> snd (collaboratorPage (codeHostAPI (client p)) (token (client p)) owner name
                (collaboratorAffiliationOf p) m) = (False, None)
      \<and> getRepoAffiliatedGroups p c owner name opts
           (tr @ map (collaboratorRequest (token (client p)) owner name (collaboratorAffiliationOf p))
                  [1..<Suc m])
         = Some (rbefore @ rg # rrest, None, c1, tr2)
      \<and> (\<forall>g' \<in> set rbefore. Users (embedded g') \<noteq> [] \<or> endsWell (memberPage p owner g'))
      \<and> Users (embedded rg) = []
      \<and> 1 \<le> n \<and> goesOn (memberPage p owner rg) n
      \<and> memberPage p owner rg n = (users, hn, Some e)
    \<longrightarrow> (\<exists>ids cfin tr'. FetchRepoPerms p (Some r) opts tr
             = Some (Some ids, Some (Wrap e ''list users for group''), Some cfin, tr')
           \<and> distinct ids
           \<and> set ids
               = accountIDOf ` set (itemsBefore
                    (collaboratorPage (codeHostAPI (client p)) (token (client p)) owner name
                       (collaboratorAffiliationOf p)) (Suc m))
                 \<union> (\<Union>g' \<in> set rbefore. groupUsers p owner g')
                 \<union> accountIDOf ` set (itemsBefore (memberPage p owner rg) n)))"
proof (intro conjI; rule impI)
  assume A: "IsHostOfAccount (codeHost p) a \<and> GetExternalAccountData (AccountData a) = (Some t, None)
      \<and> 1 \<le> n \<and> goesOn (directPage (codeHostAPI (client p)) (AccessToken t) (affiliationsOf p)) n
      \<and> directPage (codeHostAPI (client p)) (AccessToken t) (affiliationsOf p) n = (items, hn, Some e)"
  let ?cl = "WithToken (client p) (AccessToken t)"
  let ?list = "directPage (codeHostAPI (client p)) (AccessToken t) (affiliationsOf p)"
  let ?acc = "fold (\<lambda>r. addRepoToUserPerms [ID r]) (itemsBefore ?list n) (\<lparr>Exacts = []\<rparr>, {})"
  have ok0: "userPermsOK (\<lparr>Exacts = []\<rparr>, {})" by (simp add: userPermsOK_def)
  have run: "forPages (listReposForUser p ?cl (affiliationsOf p)) 1 ((\<lparr>Exacts = []\<rparr>, {}), tr)
         = Some (Inr (fst ?acc, Some (Wrap e ''list repos for user''), groupsCache p,
                      tr @ map (directRequest (AccessToken t) (affiliationsOf p)) [1..<Suc n]))"
    using direct_phase_fails[of ?cl "affiliationsOf p" n items hn e p "(\<lparr>Exacts = []\<rparr>, {})" tr] A
    by simp
  have "FetchUserPerms p (Some a) opts tr
             = Some (Some (fst ?acc), Some (Wrap e ''list repos for user''), groupsCache p,
                     tr @ map (directRequest (AccessToken t) (affiliationsOf p)) [1..<Suc n])"
  proof -
    have "fetchUserPermsByToken p (AccountID (AccountSpec a)) (AccessToken t) opts tr
            = Some (fst ?acc, Some (Wrap e ''list repos for user''), groupsCache p,
                     tr @ map (directRequest (AccessToken t) (affiliationsOf p)) [1..<Suc n])"
      unfolding fetchUserPermsByToken_unfold run by simp
    with A show ?thesis by (simp add: FetchUserPerms_valid[of p a t])
  qed
  with fold_addRepo_result[OF ok0, of "itemsBefore ?list n"]
  show "\<exists>perms. FetchUserPerms p (Some a) opts tr
             = Some (Some perms, Some (Wrap e ''list repos for user''), groupsCache p,
                     tr @ map (directRequest (AccessToken t) (affiliationsOf p)) [1..<Suc n])
           \<and> distinct (Exacts perms)
           \<and> set (Exacts perms) = ID ` set (itemsBefore ?list n)"
    by simp
next
  assume C: "IsHostOfRepo (codeHost p) (ExternalRepoSpec r) \<and> nameWithOwner p r = Inr (owner, name)
      \<and> 1 \<le> n
      \<and> goesOn (collaboratorPage (codeHostAPI (client p)) (token (client p)) owner name
                   (collaboratorAffiliationOf p)) n
      \<and> collaboratorPage (codeHostAPI (client p)) (token (client p)) owner name
           (collaboratorAffiliationOf p) n = (users, hn, Some e)"
  let ?aff = "collaboratorAffiliationOf p"
  let ?list = "collaboratorPage (codeHostAPI (client p)) (token (client p)) owner name ?aff"
  let ?acc = "fold (\<lambda>u. addUserToRepoPerms [FormatInt (DatabaseID u)]) (itemsBefore ?list n) ([], {})"
  have ok0: "repoPermsOK ([], {})" by (simp add: repoPermsOK_def)
  have run: "forPages (listUsersForRepo p owner name ?aff) 1 (([], {}), tr)
         = Some (Inr (Some (fst ?acc), Some (Wrap e ''list users for repo''), groupsCache p,
                      tr @ map (collaboratorRequest (token (client p)) owner name ?aff) [1..<Suc n]))"
    using collaborators_phase_fails[of p owner name ?aff n users hn e "([], {})" tr] C by simp
  have "FetchRepoPerms p (Some r) opts tr
             = Some (Some (fst ?acc), Some (Wrap e ''list users for repo''), groupsCache p,
                     tr @ map (collaboratorRequest (token (client p)) owner name ?aff) [1..<Suc n])"
  proof -
    from C have v: "IsHostOfRepo (codeHost p) (ExternalRepoSpec r)" "nameWithOwner p r = Inr (owner, name)"
      by simp_all
    show ?thesis
      unfolding FetchRepoPerms_valid[OF v] collaboratorAffiliationOf_def[symmetric] run by simp
  qed
  with fold_addUser_result[OF ok0, of "itemsBefore ?list n"]
  show "\<exists>ids. FetchRepoPerms p (Some r) opts tr
             = Some (Some ids, Some (Wrap e ''list users for repo''), groupsCache p,
                     tr @ map (collaboratorRequest (token (client p)) owner name ?aff) [1..<Suc n])
           \<and> distinct ids
           \<and> set ids = accountIDOf ` set (itemsBefore ?list n)"
    by simp
next
  assume E: "IsHostOfAccount (codeHost p) a \<and> GetExternalAccountData (AccountData a) = (Some t, None)
      \<and> groupsCache p = Some c
      \<and> 1 \<le> m \<and> goesOn (directPage (codeHostAPI (client p)) (AccessToken t) (affiliationsOf p)) m
      \<and> snd (directPage (codeHostAPI (client p)) (AccessToken t) (affiliationsOf p) m) = (False, None)
      \<and> 1 \<le> n
      \<and> ((goesOn (userOrgsPage (codeHostAPI (client p)) (AccessToken t)) n
           \<and> userOrgsPage (codeHostAPI (client p)) (AccessToken t) n = (orgs, hn, Some e))
         \<or> (1 \<le> j \<and> goesOn (userOrgsPage (codeHostAPI (client p)) (AccessToken t)) j
           \<and> snd (userOrgsPage (codeHostAPI (client p)) (AccessToken t) j) = (False, None)
           \<and> goesOn (userTeamsPage (codeHostAPI (client p)) (AccessToken t)) n
           \<and> userTeamsPage (codeHostAPI (client p)) (AccessToken t) n = (teams, hn, Some e)))"
  let ?cl = "WithToken (client p) (AccessToken t)"
  let ?list = "directPage (codeHostAPI (client p)) (AccessToken t) (affiliationsOf p)"
  let ?acc = "fold (\<lambda>r. addRepoToUserPerms [ID r]) (itemsBefore ?list (Suc m)) (\<lparr>Exacts = []\<rparr>, {})"
  let ?tr1 = "tr @ map (directRequest (AccessToken t) (affiliationsOf p)) [1..<Suc m]"
  have ok0: "userPermsOK (\<lparr>Exacts = []\<rparr>, {})" by (simp add: userPermsOK_def)
  from E obtain items' where last: "?list m = (items', False, None)" by (cases "?list m") auto
  have run: "forPages (listReposForUser p ?cl (affiliationsOf p)) 1 ((\<lparr>Exacts = []\<rparr>, {}), tr)
         = Some (Inl (?acc, ?tr1))"
    using direct_phase_completes[of ?cl "affiliationsOf p" m items' p "(\<lparr>Exacts = []\<rparr>, {})" tr] E last
    by simp
  have "\<exists>groups c1 tr1. getUserAffiliatedGroups c ?cl opts ?tr1 = Some (groups, Some e, c1, tr1)"
    using E getUserAffiliatedGroups_orgs_fail[of ?cl n orgs hn e c opts ?tr1]
      getUserAffiliatedGroups_teams_fail[of ?cl j n teams hn e c opts ?tr1]
    by auto
  then obtain groups c1 tr1 where
    g: "getUserAffiliatedGroups c ?cl opts ?tr1 = Some (groups, Some e, c1, tr1)" by blast
  have "fetchUserPermsByToken p (AccountID (AccountSpec a)) (AccessToken t) opts tr
            = Some (fst ?acc, Some (Wrap e ''get groups affiliated with user''), Some c1, tr1)"
    unfolding fetchUserPermsByToken_unfold run using E g by simp
  with E have "FetchUserPerms p (Some a) opts tr
             = Some (Some (fst ?acc), Some (Wrap e ''get groups affiliated with user''), Some c1, tr1)"
    by (simp add: FetchUserPerms_valid[of p a t])
  with fold_addRepo_result[OF ok0, of "itemsBefore ?list (Suc m)"]
  show "\<exists>perms c1 tr1. FetchUserPerms p (Some a) opts tr
             = Some (Some perms, Some (Wrap e ''get groups affiliated with user''), Some c1, tr1)
           \<and> distinct (Exacts perms)
           \<and> set (Exacts perms) = ID ` set (itemsBefore ?list (Suc m))"
    by simp
next
  assume F: "IsHostOfRepo (codeHost p) (ExternalRepoSpec r) \<and> nameWithOwner p r = Inr (owner, name)
      \<and> groupsCache p = Some c
      \<and> 1 \<le> m
      \<and> goesOn (collaboratorPage (codeHostAPI (client p)) (token (client p)) owner name
                   (collaboratorAffiliationOf p)) m
      \<and> snd (collaboratorPage (codeHostAPI (client p)) (token (client p)) owner name
                (collaboratorAffiliationOf p) m) = (False, None)
      \<and> getOrganization (codeHostAPI (client p)) (token (client p)) owner = (org, None)
      \<and> \<not> canViewOrgRepos \<lparr>OrgDetails = org, OrgMembership = None\<rparr>
      \<and> 1 \<le> n
      \<and> goesOn (repoTeamsPage (codeHostAPI (client p)) (token (client p)) owner name) n
      \<and> repoTeamsPage (codeHostAPI (client p)) (token (client p)) owner name n = (teams, hn, Some e)"
  let ?aff = "collaboratorAffiliationOf p"
  let ?list = "collaboratorPage (codeHostAPI (client p)) (token (client p)) owner name ?aff"
  let ?acc = "fold (\<lambda>u. addUserToRepoPerms [FormatInt (DatabaseID u)]) (itemsBefore ?list (Suc m)) ([], {})"
  let ?tr1 = "tr @ map (collaboratorRequest (token (client p)) owner name ?aff) [1..<Suc m]"
  have ok0: "repoPermsOK ([], {})" by (simp add: repoPermsOK_def)
  from F obtain items' where last: "?list m = (items', False, None)" by (cases "?list m") auto
  have run: "forPages (listUsersForRepo p owner name ?aff) 1 (([], {}), tr) = Some (Inl (?acc, ?tr1))"
    using collaborators_phase_completes[of p owner name ?aff m items' "([], {})" tr] F last by simp
  from F getRepoAffiliatedGroups_teams_fail[of p owner org name n teams hn e c opts ?tr1]
  obtain groups c1 tr1 where
    g: "getRepoAffiliatedGroups p c owner name opts ?tr1 = Some (groups, Some e, c1, tr1)" by auto
  from F have v: "IsHostOfRepo (codeHost p) (ExternalRepoSpec r)" "nameWithOwner p r = Inr (owner, name)"
    by simp_all
  have "FetchRepoPerms p (Some r) opts tr
             = Some (Some (fst ?acc), Some (Wrap e ''get groups affiliated with repo''), Some c1, tr1)"
    unfolding FetchRepoPerms_valid[OF v] collaboratorAffiliationOf_def[symmetric] run using F g by simp
  with fold_addUser_result[OF ok0, of "itemsBefore ?list (Suc m)"]
  show "\<exists>ids c1 tr1. FetchRepoPerms p (Some r) opts tr
             = Some (Some ids, Some (Wrap e ''get groups affiliated with repo''), Some c1, tr1)
           \<and> distinct ids
           \<and> set ids = accountIDOf ` set (itemsBefore ?list (Suc m))"
    by simp
next
  assume G: "IsHostOfAccount (codeHost p) a \<and> GetExternalAccountData (AccountData a) = (Some t, None)
      \<and> groupsCache p = Some c
      \<and> 1 \<le> m \<and> goesOn (directPage (codeHostAPI (client p)) (AccessToken t) (affiliationsOf p)) m
      \<and> snd (directPage (codeHostAPI (client p)) (AccessToken t) (affiliationsOf p) m) = (False, None)
      \<and> getUserAffiliatedGroups c (WithToken (client p) (AccessToken t)) opts
           (tr @ map (directRequest (AccessToken t) (affiliationsOf p)) [1..<Suc m])
         = Some (before @ g # rest, None, c1, tr2)
      \<and> (\<forall>g' \<in> set before. Repositories g' \<noteq> [] \<or> endsWell (groupPage p (Team g' = []) g'))
      \<and> Repositories g = []
      \<and> 1 \<le> n \<and> goesOn (groupPage p (Team g = []) g) n
      \<and> groupPage p (Team g = []) g n = (items, hn, Some e)"
  then have h: "IsHostOfAccount (codeHost p) a" "GetExternalAccountData (AccountData a) = (Some t, None)"
    "groupsCache p = Some c" "1 \<le> m"
    "goesOn (directPage (codeHostAPI (client p)) (AccessToken t) (affiliationsOf p)) m"
    "snd (directPage (codeHostAPI (client p)) (AccessToken t) (affiliationsOf p) m) = (False, None)"
    "getUserAffiliatedGroups c (WithToken (client p) (AccessToken t)) opts
           (tr @ map (directRequest (AccessToken t) (affiliationsOf p)) [1..<Suc m])
         = Some (before @ g # rest, None, c1, tr2)"
    "\<forall>g' \<in> set before. Repositories g' \<noteq> [] \<or> endsWell (groupPage p (Team g' = []) g')"
    "Repositories g = []" "1 \<le> n" "goesOn (groupPage p (Team g = []) g) n"
    "groupPage p (Team g = []) g n = (items, hn, Some e)"
    by blast+
  show "\<exists>perms cfin tr'. FetchUserPerms p (Some a) opts tr
             = Some (Some perms, Some (Wrap e ''list repos for group''), Some cfin, tr')
           \<and> distinct (Exacts perms)
           \<and> set (Exacts perms)
               = ID ` set (itemsBefore (directPage (codeHostAPI (client p)) (AccessToken t) (affiliationsOf p))
                             (Suc m))
                 \<union> (\<Union>g' \<in> set before. groupRepositories p g')
                 \<union> ID ` set (itemsBefore (groupPage p (Team g = []) g) n) \<union> ID ` set items"
    by (rule user_fetch_group_fails[OF h])
next
  assume H: "IsHostOfRepo (codeHost p) (ExternalRepoSpec r) \<and> nameWithOwner p r = Inr (owner, name)
      \<and> groupsCache p = Some c
      \<and> 1 \<le> m
      \<and> goesOn (collaboratorPage (codeHostAPI (client p)) (token (client p)) owner name
                   (collaboratorAffiliationOf p)) m
      \<and> snd (collaboratorPage (codeHostAPI (client p)) (token (client p)) owner name
                (collaboratorAffiliationOf p) m) = (False, None)
      \<and> getRepoAffiliatedGroups p c owner name opts
           (tr @ map (collaboratorRequest (token (client p)) owner name (collaboratorAffiliationOf p))
                  [1..<Suc m])
         = Some (rbefore @ rg # rrest, None, c1, tr2)
      \<and> (\<forall>g' \<in> set rbefore. Users (embedded g') \<noteq> [] \<or> endsWell (memberPage p owner g'))
      \<and> Users (embedded rg) = []
      \<and> 1 \<le> n \<and> goesOn (memberPage p owner rg) n
      \<and> memberPage p owner rg n = (users, hn, Some e)"
  then have h: "IsHostOfRepo (codeHost p) (ExternalRepoSpec r)" "nameWithOwner p r = Inr (owner, name)"
    "groupsCache p = Some c" "1 \<le> m"
    "goesOn (collaboratorPage (codeHostAPI (client p)) (token (client p)) owner name
                   (collaboratorAffiliationOf p)) m"
    "snd (collaboratorPage (codeHostAPI (client p)) (token (client p)) owner name
                (collaboratorAffiliationOf p) m) = (False, None)"
    "getRepoAffiliatedGroups p c owner name opts
           (tr @ map (collaboratorRequest (token (client p)) owner name (collaboratorAffiliationOf p))
                  [1..<Suc m])
         = Some (rbefore @ rg # rrest, None, c1, tr2)"
    "\<forall>g' \<in> set rbefore. Users (embedded g') \<noteq> [] \<or> endsWell (memberPage p owner g')"
    "Users (embedded rg) = []" "1 \<le> n" "goesOn (memberPage p owner rg) n"
    "memberPage p owner rg n = (users, hn, Some e)"
    by blast+
  show "\<exists>ids cfin tr'. FetchRepoPerms p (Some r) opts tr
             = Some (Some ids, Some (Wrap e ''list users for group''), Some cfin, tr')
           \<and> distinct ids
           \<and> set ids
               = accountIDOf ` set (itemsBefore
                    (collaboratorPage (codeHostAPI (client p)) (token (client p)) owner name
                       (collaboratorAffiliationOf p)) (Suc m))
                 \<union> (\<Union>g' \<in> set rbefore. groupUsers p owner g')
                 \<union> accountIDOf ` set (itemsBefore (memberPage p owner rg) n)"
    by (rule repo_fetch_group_fails[OF h])
qed


text \<open>Witness: code hosts of the examples on which each of the listings fails.\<close>

theorem partial_result_on_failing_page_witness:
  "(\<exists>perms. FetchUserPerms (providerOn outageHost) (Some exampleAccount) noOptions []
       = Some (Some perms, Some (Wrap (New ''rate limit exceeded'') ''list repos for user''),
               Some Map.empty,
               [Request ''user-token'' (ReqListAffiliatedRepositories VisibilityPrivate 1
                  [AffiliationOwner, AffiliationCollaborator]),
                Request ''user-token'' (ReqListAffiliatedRepositories VisibilityPrivate 2
                  [AffiliationOwner, AffiliationCollaborator])])
     \<and> set (Exacts perms) = {''r1'', ''r2''})
   \<and> (\<exists>ids. FetchRepoPerms (providerOn outageHost) (Some exampleRepo) noOptions []
       = Some (Some ids, Some (Wrap (New ''rate limit exceeded'') ''list users for repo''),
               Some Map.empty,
               [Request ''base-token'' (ReqListRepositoryCollaborators ''initech'' ''app'' 1 AffiliationDirect),
                Request ''base-token'' (ReqListRepositoryCollaborators ''initech'' ''app'' 2 AffiliationDirect)])
     \<and> set ids = {''10'', ''11''})
   \<and> (\<exists>perms c1 tr1. FetchUserPerms (providerOn orgsOutageHost) (Some exampleAccount) noOptions []
       = Some (Some perms, Some (Wrap (New ''rate limit exceeded'') ''get groups affiliated with user''),
               Some c1, tr1)
     \<and> set (Exacts perms) = {''r1'', ''r2'', ''r3''})
   \<and> (\<exists>perms c1 tr1. FetchUserPerms (providerOn teamsOutageHost) (Some exampleAccount) noOptions []
       = Some (Some perms, Some (Wrap (New ''rate limit exceeded'') ''get groups affiliated with user''),
               Some c1, tr1)
     \<and> set (Exacts perms) = {''r1'', ''r2'', ''r3''})
   \<and> (\<exists>ids c1 tr1. FetchRepoPerms (providerOn teamsOutageHost) (Some exampleRepo) noOptions []
       = Some (Some ids, Some (Wrap (New ''rate limit exceeded'') ''get groups affiliated with repo''),
               Some c1, tr1)
     \<and> set ids = {''10'', ''11'', ''12''})
   \<and> (\<exists>perms cfin tr'. FetchUserPerms (providerOn teamFlakyHost) (Some exampleAccount) noOptions []
       = Some (Some perms, Some (Wrap (New ''rate limit exceeded'') ''list repos for group''),
               Some cfin, tr')
     \<and> set (Exacts perms) = {''r1'', ''r2'', ''r3'', ''r4'', ''r9''})
   \<and> (\<exists>ids cfin tr'. FetchRepoPerms (providerOn teamFlakyHost) (Some exampleRepo) noOptions []
       = Some (Some ids, Some (Wrap (New ''rate limit exceeded'') ''list users for group''),
               Some cfin, tr')
     \<and> set ids = {''10'', ''11'', ''12'', ''13''})"
proof -
  let ?err = "New ''rate limit exceeded''"
  let ?affs = "[AffiliationOwner, AffiliationCollaborator]"
  have pr [simp]: "\<And>h. codeHostAPI (client (providerOn h)) = h"
    "\<And>h. token (client (providerOn h)) = ''base-token''"
    "\<And>h. groupsCache (providerOn h) = Some Map.empty"
    "\<And>h. codeHost (providerOn h) = githubDotCom"
    "\<And>h. affiliationsOf (providerOn h) = ?affs"
    "\<And>h. collaboratorAffiliationOf (providerOn h) = AffiliationDirect"
    by (simp_all add: providerOn_def exampleProvider_def affiliationsOf_def collaboratorAffiliationOf_def)
  have acct: "IsHostOfAccount githubDotCom exampleAccount"
    "GetExternalAccountData (AccountData exampleAccount)
       = (Some \<lparr>AccessToken = ''user-token''\<rparr>, None)"
    by code_simp+
  have repo: "IsHostOfRepo githubDotCom (ExternalRepoSpec exampleRepo)"
    by code_simp
  have nwo: "\<And>h. nameWithOwner (providerOn h) exampleRepo = Inr (''initech'', ''app'')"
    by (simp add: nameWithOwner_def) code_simp
  have ids: "accountIDOf \<lparr>DatabaseID = 10\<rparr> = ''10''" "accountIDOf \<lparr>DatabaseID = 11\<rparr> = ''11''"
    "accountIDOf \<lparr>DatabaseID = 12\<rparr> = ''12''"
    by code_simp+
  \<comment> \<open>the direct listing fails on its second page\<close>
  have d1: "directPage outageHost ''user-token'' ?affs 1 = ([\<lparr>ID = ''r1''\<rparr>, \<lparr>ID = ''r2''\<rparr>], True, None)"
    and d2: "directPage outageHost ''user-token'' ?affs 2 = ([\<lparr>ID = ''r8''\<rparr>], False, Some ?err)"
    by (simp_all add: directPage_def outageHost_def)
  have A: "\<exists>perms. FetchUserPerms (providerOn outageHost) (Some exampleAccount) noOptions []
       = Some (Some perms, Some (Wrap ?err ''list repos for user''), Some Map.empty,
               [Request ''user-token'' (ReqListAffiliatedRepositories VisibilityPrivate 1 ?affs),
                Request ''user-token'' (ReqListAffiliatedRepositories VisibilityPrivate 2 ?affs)])
     \<and> set (Exacts perms) = {''r1'', ''r2''}"
    using partial_result_on_failing_page
            [where p = "providerOn outageHost" and a = exampleAccount
               and t = "\<lparr>AccessToken = ''user-token''\<rparr>" and n = 2
               and items = "[\<lparr>ID = ''r8''\<rparr>]" and hn = False and e = ?err
               and opts = noOptions and tr = "[]",
             THEN conjunct1, rule_format]
      acct goesOn_2[of "directPage outageHost ''user-token'' ?affs"] d1 d2
    by (auto simp: upt_1_3 directRequest_def itemsBefore_def)
  \<comment> \<open>the listing of the collaborators fails on its second page\<close>
  have c1: "collaboratorPage outageHost ''base-token'' ''initech'' ''app'' AffiliationDirect 1
              = ([\<lparr>DatabaseID = 10\<rparr>, \<lparr>DatabaseID = 11\<rparr>], True, None)"
    and c2: "collaboratorPage outageHost ''base-token'' ''initech'' ''app'' AffiliationDirect 2
              = ([\<lparr>DatabaseID = 16\<rparr>], False, Some ?err)"
    by (simp_all add: collaboratorPage_def outageHost_def)
  have C: "\<exists>ids. FetchRepoPerms (providerOn outageHost) (Some exampleRepo) noOptions []
       = Some (Some ids, Some (Wrap ?err ''list users for repo''), Some Map.empty,
               [Request ''base-token'' (ReqListRepositoryCollaborators ''initech'' ''app'' 1 AffiliationDirect),
                Request ''base-token'' (ReqListRepositoryCollaborators ''initech'' ''app'' 2 AffiliationDirect)])
     \<and> set ids = {''10'', ''11''}"
    using partial_result_on_failing_page
            [where p = "providerOn outageHost" and r = exampleRepo
               and owner = "''initech''" and name = "''app''" and n = 2
               and users = "[\<lparr>DatabaseID = 16\<rparr>]" and hn = False and e = ?err
               and opts = noOptions and tr = "[]",
             THEN conjunct2, THEN conjunct1, rule_format]
      repo nwo
      goesOn_2[of "collaboratorPage outageHost ''base-token'' ''initech'' ''app'' AffiliationDirect"] c1 c2
    by (auto simp: upt_1_3 collaboratorRequest_def itemsBefore_def ids)
  \<comment> \<open>the listing of the organizations of the user fails\<close>
  have x1: "\<And>h. affiliatedRepositories h = affiliatedRepositories exampleHost \<Longrightarrow>
              directPage h ''user-token'' ?affs 1 = ([\<lparr>ID = ''r1''\<rparr>, \<lparr>ID = ''r2''\<rparr>], True, None)"
    and x2: "\<And>h. affiliatedRepositories h = affiliatedRepositories exampleHost \<Longrightarrow>
              directPage h ''user-token'' ?affs 2 = ([\<lparr>ID = ''r2''\<rparr>, \<lparr>ID = ''r3''\<rparr>], False, None)"
    by (simp_all add: directPage_def exampleHost_def)
  have same: "affiliatedRepositories orgsOutageHost = affiliatedRepositories exampleHost"
    "affiliatedRepositories teamsOutageHost = affiliatedRepositories exampleHost"
    by (simp_all add: orgsOutageHost_def teamsOutageHost_def)
  have o1: "userOrgsPage orgsOutageHost ''user-token'' 1 = ([], False, Some ?err)"
    by (simp add: userOrgsPage_def orgsOutageHost_def)
  have E: "\<exists>perms c1 tr1. FetchUserPerms (providerOn orgsOutageHost) (Some exampleAccount) noOptions []
       = Some (Some perms, Some (Wrap ?err ''get groups affiliated with user''), Some c1, tr1)
     \<and> set (Exacts perms) = {''r1'', ''r2'', ''r3''}"
    using partial_result_on_failing_page
            [where p = "providerOn orgsOutageHost" and a = exampleAccount
               and t = "\<lparr>AccessToken = ''user-token''\<rparr>" and c = Map.empty and m = 2 and n = 1
               and orgs = "[]" and hn = False and e = ?err
               and opts = noOptions and tr = "[]",
             THEN conjunct2, THEN conjunct2, THEN conjunct1, rule_format]
      acct goesOn_2[of "directPage orgsOutageHost ''user-token'' ?affs"] x1[OF same(1)] x2[OF same(1)] o1
    by (auto simp: itemsBefore_def upt_1_3)
  \<comment> \<open>the listing of the teams of the user fails\<close>
  have o2: "userOrgsPage teamsOutageHost ''user-token'' 1
              = ([\<lparr>OrgDetails = Some acme, OrgMembership = None\<rparr>,
                  \<lparr>OrgDetails = Some initech, OrgMembership = None\<rparr>], False, None)"
    and t1: "userTeamsPage teamsOutageHost ''user-token'' 1 = ([], False, Some ?err)"
    by (simp_all add: userOrgsPage_def userTeamsPage_def teamsOutageHost_def exampleHost_def)
  have E': "\<exists>perms c1 tr1. FetchUserPerms (providerOn teamsOutageHost) (Some exampleAccount) noOptions []
       = Some (Some perms, Some (Wrap ?err ''get groups affiliated with user''), Some c1, tr1)
     \<and> set (Exacts perms) = {''r1'', ''r2'', ''r3''}"
    using partial_result_on_failing_page
            [where p = "providerOn teamsOutageHost" and a = exampleAccount
               and t = "\<lparr>AccessToken = ''user-token''\<rparr>" and c = Map.empty and m = 2 and n = 1
               and j = 1 and teams = "[]" and hn = False and e = ?err
               and opts = noOptions and tr = "[]",
             THEN conjunct2, THEN conjunct2, THEN conjunct1, rule_format]
      acct goesOn_2[of "directPage teamsOutageHost ''user-token'' ?affs"] x1[OF same(2)] x2[OF same(2)] o2 t1
    by (auto simp: itemsBefore_def upt_1_3)
  \<comment> \<open>the listing of the teams of the repository fails\<close>
  have k1: "collaboratorPage teamsOutageHost ''base-token'' ''initech'' ''app'' AffiliationDirect 1
              = ([\<lparr>DatabaseID = 10\<rparr>, \<lparr>DatabaseID = 11\<rparr>], True, None)"
    and k2: "collaboratorPage teamsOutageHost ''base-token'' ''initech'' ''app'' AffiliationDirect 2
              = ([\<lparr>DatabaseID = 11\<rparr>, \<lparr>DatabaseID = 12\<rparr>], False, None)"
    and r1: "repoTeamsPage teamsOutageHost ''base-token'' ''initech'' ''app'' 1 = ([], False, Some ?err)"
    and lk: "getOrganization teamsOutageHost ''base-token'' ''initech'' = (Some initech, None)"
    by (simp_all add: collaboratorPage_def repoTeamsPage_def teamsOutageHost_def exampleHost_def)
  have nv: "\<not> canViewOrgRepos \<lparr>OrgDetails = Some initech, OrgMembership = None\<rparr>"
    by code_simp
  have F: "\<exists>ids c1 tr1. FetchRepoPerms (providerOn teamsOutageHost) (Some exampleRepo) noOptions []
       = Some (Some ids, Some (Wrap ?err ''get groups affiliated with repo''), Some c1, tr1)
     \<and> set ids = {''10'', ''11'', ''12''}"
    using partial_result_on_failing_page
            [where p = "providerOn teamsOutageHost" and r = exampleRepo
               and owner = "''initech''" and name = "''app''" and c = Map.empty and m = 2 and n = 1
               and org = "Some initech" and teams = "[]" and hn = False and e = ?err
               and opts = noOptions and tr = "[]",
             THEN conjunct2, THEN conjunct2, THEN conjunct2, THEN conjunct1, rule_format]
      repo nwo
      goesOn_2[of "collaboratorPage teamsOutageHost ''base-token'' ''initech'' ''app'' AffiliationDirect"]
      k1 k2 r1 lk nv
    by (auto simp: itemsBefore_def upt_1_3 ids)
  \<comment> \<open>the listing of the repositories of a team fails on its second page\<close>
  let ?tk = "\<lparr>AccessToken = ''user-token''\<rparr>"
  let ?P = "providerOn teamFlakyHost"
  let ?acmeOrg = "\<lparr>Org = ''acme'', Team = [], Repositories = [], Users = []\<rparr>"
  let ?eng = "\<lparr>Org = ''acme'', Team = ''eng'', Repositories = [], Users = []\<rparr>"
  let ?ops = "\<lparr>Org = ''initech'', Team = ''ops'', Repositories = [], Users = []\<rparr>"
  let ?D = "map (directRequest ''user-token'' ?affs) [1, 2]
              @ [Request ''user-token'' (ReqGetAuthenticatedUserOrgsDetailsAndMembership 1),
                 Request ''user-token'' (ReqGetAuthenticatedUserTeams 1)]"
  have tsame: "affiliatedRepositories teamFlakyHost = affiliatedRepositories exampleHost"
    by (simp add: teamFlakyHost_def)
  have "discoveryOutcome (getUserAffiliatedGroups Map.empty (WithToken (client ?P) ''user-token'') noOptions
           (map (directRequest ''user-token'' ?affs) [1, 2]))
        = Some ([?acmeOrg, ?eng, ?ops], None, ?D)"
    by code_simp
  from discoveryOutcome_SomeD[OF this] obtain cg where
    discG: "getUserAffiliatedGroups Map.empty (WithToken (client ?P) ''user-token'') noOptions
           (map (directRequest ''user-token'' ?affs) [1, 2]) = Some ([?acmeOrg, ?eng, ?ops], None, cg, ?D)"
    by blast
  have a1: "groupPage ?P True ?acmeOrg 1 = ([\<lparr>ID = ''r3''\<rparr>, \<lparr>ID = ''r4''\<rparr>], False, None)"
    and e1: "groupPage ?P False ?eng 1 = ([\<lparr>ID = ''r4''\<rparr>], True, None)"
    and e2: "groupPage ?P False ?eng 2 = ([\<lparr>ID = ''r9''\<rparr>], False, Some ?err)"
    by (simp_all add: groupPage_def teamFlakyHost_def exampleHost_def)
  have one: "goesOn (groupPage ?P True ?acmeOrg) 1" by (simp add: goesOn_def)
  have G1: "IsHostOfAccount (codeHost ?P) exampleAccount" by (simp add: acct)
  have G3: "groupsCache ?P = Some Map.empty" by simp
  have G4: "1 \<le> (2::nat)" by simp
  have G5: "goesOn (directPage (codeHostAPI (client ?P)) (AccessToken ?tk) (affiliationsOf ?P)) 2"
    using goesOn_2[of "directPage teamFlakyHost ''user-token'' ?affs"] x1[OF tsame] by simp
  have G6: "snd (directPage (codeHostAPI (client ?P)) (AccessToken ?tk) (affiliationsOf ?P) 2) = (False, None)"
    using x2[OF tsame] by simp
  have G7: "getUserAffiliatedGroups Map.empty (WithToken (client ?P) (AccessToken ?tk)) noOptions
              ([] @ map (directRequest (AccessToken ?tk) (affiliationsOf ?P)) [1..<Suc 2])
            = Some ([?acmeOrg] @ ?eng # [?ops], None, cg, ?D)"
    using discG by (simp add: upt_1_3)
  have G8: "\<forall>g' \<in> set [?acmeOrg]. Repositories g' \<noteq> [] \<or> endsWell (groupPage ?P (Team g' = []) g')"
    unfolding endsWell_def using one a1 by auto
  have G9: "Repositories ?eng = []" by simp
  have G11: "goesOn (groupPage ?P (Team ?eng = []) ?eng) 2"
    using goesOn_2[of "groupPage ?P False ?eng"] e1 by simp
  have G12: "groupPage ?P (Team ?eng = []) ?eng 2 = ([\<lparr>ID = ''r9''\<rparr>], False, Some ?err)"
    using e2 by simp
  note CG = partial_result_on_failing_page
          [where p = ?P and a = exampleAccount and t = ?tk and c = Map.empty and m = 2
             and before = "[?acmeOrg]" and g = ?eng and rest = "[?ops]" and ?c1.0 = cg and ?tr2.0 = ?D
             and n = 2 and items = "[\<lparr>ID = ''r9''\<rparr>]" and hn = False and e = ?err
             and opts = noOptions and tr = "[]",
           THEN conjunct2, THEN conjunct2, THEN conjunct2, THEN conjunct2, THEN conjunct1, THEN mp,
           OF conjI[OF G1 conjI[OF acct(2) conjI[OF G3 conjI[OF G4 conjI[OF G5 conjI[OF G6
              conjI[OF G7 conjI[OF G8 conjI[OF G9 conjI[OF G4 conjI[OF G11 G12]]]]]]]]]]]]
  have s1: "ID ` set (itemsBefore (directPage (codeHostAPI (client ?P)) (AccessToken ?tk) (affiliationsOf ?P))
                        (Suc 2)) = {''r1'', ''r2'', ''r3''}"
    using x1[OF tsame] x2[OF tsame] by (auto simp: itemsBefore_def upt_1_3)
  have s2: "groupRepositories ?P ?acmeOrg = {''r3'', ''r4''}"
    using listed_complete[OF one, of] a1 by (auto simp: groupRepositories_def itemsBefore_def)
  have s3: "ID ` set (itemsBefore (groupPage ?P (Team ?eng = []) ?eng) 2) = {''r4''}"
    using e1 by (simp add: itemsBefore_def upt_1_3)
  from CG obtain permsG cfinG trG where
    runG: "FetchUserPerms ?P (Some exampleAccount) noOptions []
             = Some (Some permsG, Some (Wrap ?err ''list repos for group''), Some cfinG, trG)"
    and setG: "set (Exacts permsG)
               = ID ` set (itemsBefore (directPage (codeHostAPI (client ?P)) (AccessToken ?tk) (affiliationsOf ?P))
                             (Suc 2))
                 \<union> (\<Union>g' \<in> set [?acmeOrg]. groupRepositories ?P g')
                 \<union> ID ` set (itemsBefore (groupPage ?P (Team ?eng = []) ?eng) 2)
                 \<union> ID ` set [\<lparr>ID = ''r9''\<rparr>]"
    by (elim exE conjE) (rule that)
  have "set (Exacts permsG) = {''r1'', ''r2'', ''r3'', ''r4'', ''r9''}"
    unfolding setG s1 s3 using s2 by auto
  with runG have G: "\<exists>perms cfin tr'. FetchUserPerms ?P (Some exampleAccount) noOptions []
       = Some (Some perms, Some (Wrap ?err ''list repos for group''), Some cfin, tr')
     \<and> set (Exacts perms) = {''r1'', ''r2'', ''r3'', ''r4'', ''r9''}"
    by blast
  \<comment> \<open>the listing of the members of a team fails on its second page\<close>
  let ?admins = "\<lparr>embedded = \<lparr>Org = ''initech'', Team = [], Repositories = [], Users = []\<rparr>,
                   adminsOnly = True\<rparr>"
  let ?opsTeam = "\<lparr>embedded = ?ops, adminsOnly = False\<rparr>"
  let ?K = "map (collaboratorRequest ''base-token'' ''initech'' ''app'' AffiliationDirect) [1, 2]
              @ [Request ''base-token'' (ReqGetOrganization ''initech''),
                 Request ''base-token'' (ReqListRepositoryTeams ''initech'' ''app'' 1)]"
  have q1: "collaboratorPage teamFlakyHost ''base-token'' ''initech'' ''app'' AffiliationDirect 1
              = ([\<lparr>DatabaseID = 10\<rparr>, \<lparr>DatabaseID = 11\<rparr>], True, None)"
    and q2: "collaboratorPage teamFlakyHost ''base-token'' ''initech'' ''app'' AffiliationDirect 2
              = ([\<lparr>DatabaseID = 11\<rparr>, \<lparr>DatabaseID = 12\<rparr>], False, None)"
    and b1: "memberPage ?P ''initech'' ?admins 1 = ([\<lparr>DatabaseID = 10\<rparr>], False, None)"
    and u1: "memberPage ?P ''initech'' ?opsTeam 1 = ([\<lparr>DatabaseID = 13\<rparr>], True, None)"
    and u2: "memberPage ?P ''initech'' ?opsTeam 2 = ([\<lparr>DatabaseID = 17\<rparr>], False, Some ?err)"
    by (simp_all add: collaboratorPage_def memberPage_def teamFlakyHost_def exampleHost_def)
  have id13: "accountIDOf \<lparr>DatabaseID = 13\<rparr> = ''13''" by code_simp
  have "discoveryOutcome (getRepoAffiliatedGroups ?P Map.empty ''initech'' ''app'' noOptions
           (map (collaboratorRequest ''base-token'' ''initech'' ''app'' AffiliationDirect) [1, 2]))
        = Some ([?admins, ?opsTeam], None, ?K)"
    by code_simp
  from discoveryOutcome_SomeD[OF this] obtain ch where
    discH: "getRepoAffiliatedGroups ?P Map.empty ''initech'' ''app'' noOptions
           (map (collaboratorRequest ''base-token'' ''initech'' ''app'' AffiliationDirect) [1, 2])
        = Some ([?admins, ?opsTeam], None, ch, ?K)"
    by blast
  have oneH: "goesOn (memberPage ?P ''initech'' ?admins) 1" by (simp add: goesOn_def)
  have H1: "IsHostOfRepo (codeHost ?P) (ExternalRepoSpec exampleRepo)" by (simp add: repo)
  have H5: "goesOn (collaboratorPage (codeHostAPI (client ?P)) (token (client ?P)) ''initech'' ''app''
                   (collaboratorAffiliationOf ?P)) 2"
    using goesOn_2[of "collaboratorPage teamFlakyHost ''base-token'' ''initech'' ''app'' AffiliationDirect"] q1
    by simp
  have H6: "snd (collaboratorPage (codeHostAPI (client ?P)) (token (client ?P)) ''initech'' ''app''
                (collaboratorAffiliationOf ?P) 2) = (False, None)"
    using q2 by simp
  have H7: "getRepoAffiliatedGroups ?P Map.empty ''initech'' ''app'' noOptions
           ([] @ map (collaboratorRequest (token (client ?P)) ''initech'' ''app'' (collaboratorAffiliationOf ?P))
                  [1..<Suc 2])
         = Some ([?admins] @ ?opsTeam # [], None, ch, ?K)"
    using discH by (simp add: upt_1_3)
  have H8: "\<forall>g' \<in> set [?admins]. Users (embedded g') \<noteq> [] \<or> endsWell (memberPage ?P ''initech'' g')"
    unfolding endsWell_def using oneH b1 by auto
  have H9: "Users (embedded ?opsTeam) = []" by simp
  have H11: "goesOn (memberPage ?P ''initech'' ?opsTeam) 2"
    using goesOn_2[of "memberPage ?P ''initech'' ?opsTeam"] u1 by simp
  note CH = partial_result_on_failing_page
          [where p = ?P and r = exampleRepo and owner = "''initech''" and name = "''app''"
             and c = Map.empty and m = 2
             and rbefore = "[?admins]" and rg = ?opsTeam and rrest = "[]" and ?c1.0 = ch and ?tr2.0 = ?K
             and n = 2 and users = "[\<lparr>DatabaseID = 17\<rparr>]" and hn = False and e = ?err
             and opts = noOptions and tr = "[]",
           THEN conjunct2, THEN conjunct2, THEN conjunct2, THEN conjunct2, THEN conjunct2, THEN mp,
           OF conjI[OF H1 conjI[OF nwo conjI[OF G3 conjI[OF G4 conjI[OF H5 conjI[OF H6
              conjI[OF H7 conjI[OF H8 conjI[OF H9 conjI[OF G4 conjI[OF H11 u2]]]]]]]]]]]]
  have z1: "accountIDOf ` set (itemsBefore
                    (collaboratorPage (codeHostAPI (client ?P)) (token (client ?P)) ''initech'' ''app''
                       (collaboratorAffiliationOf ?P)) (Suc 2)) = {''10'', ''11'', ''12''}"
    using q1 q2 by (auto simp: itemsBefore_def upt_1_3 ids)
  have z2: "groupUsers ?P ''initech'' ?admins = {''10''}"
    using listed_complete[OF oneH, of] b1 by (auto simp: groupUsers_def itemsBefore_def ids)
  have z3: "accountIDOf ` set (itemsBefore (memberPage ?P ''initech'' ?opsTeam) 2) = {''13''}"
    using u1 by (simp add: itemsBefore_def upt_1_3 id13)
  from CH obtain idsH cfinH trH where
    runH: "FetchRepoPerms ?P (Some exampleRepo) noOptions []
             = Some (Some idsH, Some (Wrap ?err ''list users for group''), Some cfinH, trH)"
    and setH: "set idsH
               = accountIDOf ` set (itemsBefore
                    (collaboratorPage (codeHostAPI (client ?P)) (token (client ?P)) ''initech'' ''app''
                       (collaboratorAffiliationOf ?P)) (Suc 2))
                 \<union> (\<Union>g' \<in> set [?admins]. groupUsers ?P ''initech'' g')
                 \<union> accountIDOf ` set (itemsBefore (memberPage ?P ''initech'' ?opsTeam) 2)"
    by (elim exE conjE) (rule that)
  have "set idsH = {''10'', ''11'', ''12'', ''13''}"
    unfolding setH z1 z3 using z2 by auto
  with runH have H: "\<exists>ids cfin tr'. FetchRepoPerms ?P (Some exampleRepo) noOptions []
       = Some (Some ids, Some (Wrap ?err ''list users for group''), Some cfin, tr')
     \<and> set ids = {''10'', ''11'', ''12'', ''13''}"
    by blast
  show ?thesis
    apply (intro conjI)
          apply (rule A)
         apply (rule C)
        apply (rule E)
       apply (rule E')
      apply (rule F)
     apply (rule G)
    apply (rule H)
    done
qed













end
